(* ===== verification/Prelude.thy ===== *)
theory Prelude
  imports Main "HOL-Library.Word"
begin

text \<open>
  Shared notions of the development.  A Rust function that can return, fail with \<open>?\<close>
  or panic is a state transformer whose result is \<open>Ok\<close>, \<open>Err\<close> or \<open>Panic\<close>.
  The combinators \<open>ret\<close>, \<open>bind_act\<close>, \<open>seq_act\<close> and \<open>for_each\<close> are the
  sequencing of statements, of \<open>?\<close> and of a \<open>for\<close> loop whose body ends in \<open>?\<close>.
  The predicates \<open>keeps\<close> and \<open>frames\<close> say that an action keeps an invariant, or
  leaves a view of the state alone, whatever its result; their rules carry most of the
  frame and invariant proofs of the components.
\<close>

section \<open>Collections of rules\<close>

named_theorems keeps_rules \<open>rules that push an invariant through the combinators\<close>
named_theorems frame_rules \<open>rules that push an unchanged view through the combinators\<close>
named_theorems ok_rules \<open>rules that push the absence of failures through the combinators\<close>

section \<open>Results and actions\<close>

datatype ('e, 'a) res = Ok 'a | Err 'e | Panic string

type_synonym ('s, 'e, 'a) act = "'s \<Rightarrow> ('e, 'a) res \<times> 's"

fun is_ok :: "('e, 'a) res \<Rightarrow> bool" where
  "is_ok (Ok a) = True"
| "is_ok (Err e) = False"
| "is_ok (Panic p) = False"

fun map_err :: "('e \<Rightarrow> 'f) \<Rightarrow> ('e, 'a) res \<Rightarrow> ('f, 'a) res" where
  "map_err f (Ok a) = Ok a"
| "map_err f (Err e) = Err (f e)"
| "map_err f (Panic p) = Panic p"

lemma map_err_Ok_iff [simp]: "map_err f r = Ok a \<longleftrightarrow> r = Ok a"
  by (cases r) auto

lemma is_ok_map_err [simp]: "is_ok (map_err f r) = is_ok r"
  by (cases r) auto

definition ret :: "'a \<Rightarrow> ('s, 'e, 'a) act" where
  "ret a s = (Ok a, s)"

definition fail_with :: "'e \<Rightarrow> ('s, 'e, 'a) act" where
  "fail_with e s = (Err e, s)"

definition bind_act :: "('s, 'e, 'a) act \<Rightarrow> ('a \<Rightarrow> ('s, 'e, 'b) act) \<Rightarrow> ('s, 'e, 'b) act" where
  "bind_act m k s =
     (case m s of
        (Ok a, t) \<Rightarrow> k a t
      | (Err e, t) \<Rightarrow> (Err e, t)
      | (Panic p, t) \<Rightarrow> (Panic p, t))"

definition seq_act :: "('s, 'e, 'a) act \<Rightarrow> ('s, 'e, 'b) act \<Rightarrow> ('s, 'e, 'b) act" where
  "seq_act m n = bind_act m (\<lambda>_. n)"

text \<open>The \<open>?\<close> operator with a \<open>From\<close> conversion of the error.\<close>

definition conv_err :: "('e \<Rightarrow> 'f) \<Rightarrow> ('s, 'e, 'a) act \<Rightarrow> ('s, 'f, 'a) act" where
  "conv_err f m s = (case m s of (r, t) \<Rightarrow> (map_err f r, t))"

text \<open>\<open>for x in xs \<lbrace> body(x)?; \<rbrace>\<close>\<close>

fun for_each :: "('x \<Rightarrow> ('s, 'e, unit) act) \<Rightarrow> 'x list \<Rightarrow> ('s, 'e, unit) act" where
  "for_each f [] = ret ()"
| "for_each f (x # xs) = seq_act (f x) (for_each f xs)"

text \<open>A statement guarded by \<open>#[cfg(...)]\<close> or by an \<open>if\<close> without \<open>else\<close>.\<close>

definition guarded :: "bool \<Rightarrow> ('s, 'e, unit) act \<Rightarrow> ('s, 'e, unit) act" where
  "guarded b m = (if b then m else ret ())"

lemma ret_Ok: "ret a s = (Ok a, s)"
  by (simp add: ret_def)

lemma ret_simps [simp]:
  "ret a s = (r, t) \<longleftrightarrow> r = Ok a \<and> s = t"
  "(r, t) = ret a s \<longleftrightarrow> r = Ok a \<and> s = t"
  "fst (ret a s) = Ok a" "snd (ret a s) = s"
  "(case ret a s of (x, y) \<Rightarrow> f x y) = f (Ok a) s"
  by (auto simp: ret_def)

lemma bind_act_Ok [simp]: "m s = (Ok a, t) \<Longrightarrow> bind_act m k s = k a t"
  by (simp add: bind_act_def)

lemma bind_act_Err [simp]: "m s = (Err e, t) \<Longrightarrow> bind_act m k s = (Err e, t)"
  by (simp add: bind_act_def)

lemma bind_act_Panic [simp]: "m s = (Panic p, t) \<Longrightarrow> bind_act m k s = (Panic p, t)"
  by (simp add: bind_act_def)

lemma seq_act_Ok [simp]: "m s = (Ok a, t) \<Longrightarrow> seq_act m n s = n t"
  by (simp add: seq_act_def)

lemma seq_act_Err [simp]: "m s = (Err e, t) \<Longrightarrow> seq_act m n s = (Err e, t)"
  by (simp add: seq_act_def)

lemma seq_act_Panic [simp]: "m s = (Panic p, t) \<Longrightarrow> seq_act m n s = (Panic p, t)"
  by (simp add: seq_act_def)

lemma seq_act_OkE:
  assumes "seq_act m n s = (Ok b, u)"
  obtains a t where "m s = (Ok a, t)" "n t = (Ok b, u)"
  using assms by (auto simp: seq_act_def bind_act_def split: prod.splits res.splits)

lemma bind_act_OkE:
  assumes "bind_act m k s = (Ok b, u)"
  obtains a t where "m s = (Ok a, t)" "k a t = (Ok b, u)"
  using assms by (auto simp: bind_act_def split: prod.splits res.splits)

lemma conv_err_Ok_iff [simp]: "conv_err f m s = (Ok a, t) \<longleftrightarrow> m s = (Ok a, t)"
  by (auto simp: conv_err_def split: prod.splits)

lemma snd_conv_err [simp]: "snd (conv_err f m s) = snd (m s)"
  by (simp add: conv_err_def split: prod.splits)

lemma guarded_simps [simp]: "guarded True m = m" "guarded False m = ret ()"
  by (simp_all add: guarded_def)

lemma seq_act_assoc: "seq_act (seq_act a b) c = seq_act a (seq_act b c)"
  by (rule ext) (auto simp: seq_act_def bind_act_def split: prod.splits res.splits)

lemma bind_ret [simp]: "bind_act (ret a) k = k a"
  by (rule ext) (simp add: bind_act_def)

lemma seq_ret [simp]: "seq_act (ret a) m = m"
  by (simp add: seq_act_def)

lemma seq_act_ret_unit [simp]: "seq_act m (ret ()) = m"
  by (rule ext) (auto simp: seq_act_def bind_act_def split: prod.splits res.splits)

lemma for_each_append:
  "for_each f (xs @ ys) = seq_act (for_each f xs) (for_each f ys)"
  by (induction xs) (simp_all add: seq_act_assoc)

section \<open>Invariants and frames of actions\<close>

definition keeps :: "('s \<Rightarrow> bool) \<Rightarrow> ('s, 'e, 'a) act \<Rightarrow> bool" where
  "keeps P m \<longleftrightarrow> (\<forall>s. P s \<longrightarrow> P (snd (m s)))"

definition frames :: "('s \<Rightarrow> 'v) \<Rightarrow> ('s, 'e, 'a) act \<Rightarrow> bool" where
  "frames v m \<longleftrightarrow> (\<forall>s. v (snd (m s)) = v s)"

lemma keepsI [intro?]: "(\<And>s. P s \<Longrightarrow> P (snd (m s))) \<Longrightarrow> keeps P m"
  by (simp add: keeps_def)

lemma keeps_pairI: "(\<And>s r t. P s \<Longrightarrow> m s = (r, t) \<Longrightarrow> P t) \<Longrightarrow> keeps P m"
  unfolding keeps_def by (metis prod.collapse)

lemma keepsD: "keeps P m \<Longrightarrow> P s \<Longrightarrow> m s = (r, t) \<Longrightarrow> P t"
  by (metis keeps_def snd_conv)

lemma framesI [intro?]: "(\<And>s. v (snd (m s)) = v s) \<Longrightarrow> frames v m"
  by (simp add: frames_def)

lemma framesD: "frames v m \<Longrightarrow> m s = (r, t) \<Longrightarrow> v t = v s"
  by (metis frames_def snd_conv)

lemma keeps_ret [keeps_rules]: "keeps P (ret a)"
  by (simp add: keeps_def)

lemma keeps_bind [keeps_rules]:
  "keeps P m \<Longrightarrow> (\<And>a. keeps P (k a)) \<Longrightarrow> keeps P (bind_act m k)"
  unfolding keeps_def bind_act_def
  by (auto split: prod.splits res.splits)

lemma keeps_seq [keeps_rules]: "keeps P m \<Longrightarrow> keeps P n \<Longrightarrow> keeps P (seq_act m n)"
  by (simp add: seq_act_def keeps_bind)

lemma keeps_conv [keeps_rules]: "keeps P m \<Longrightarrow> keeps P (conv_err f m)"
  by (simp add: keeps_def)

lemma keeps_guarded [keeps_rules]: "(b \<Longrightarrow> keeps P m) \<Longrightarrow> keeps P (guarded b m)"
  by (cases b) (simp_all add: keeps_ret)

lemma keeps_for_each [keeps_rules]:
  "(\<And>x. x \<in> set xs \<Longrightarrow> keeps P (f x)) \<Longrightarrow> keeps P (for_each f xs)"
  by (induction xs) (simp_all add: keeps_ret keeps_seq)

lemma frames_keeps: "frames v m \<longleftrightarrow> (\<forall>c. keeps (\<lambda>s. v s = c) m)"
  by (auto simp: frames_def keeps_def)

lemma frames_ret [frame_rules]: "frames v (ret a)"
  by (simp add: frames_def)

lemma frames_bind [frame_rules]:
  "frames v m \<Longrightarrow> (\<And>a. frames v (k a)) \<Longrightarrow> frames v (bind_act m k)"
  by (simp add: frames_keeps keeps_bind)

lemma frames_seq [frame_rules]: "frames v m \<Longrightarrow> frames v n \<Longrightarrow> frames v (seq_act m n)"
  by (simp add: frames_keeps keeps_seq)

lemma frames_conv [frame_rules]: "frames v m \<Longrightarrow> frames v (conv_err f m)"
  by (simp add: frames_def)

lemma frames_guarded [frame_rules]: "(b \<Longrightarrow> frames v m) \<Longrightarrow> frames v (guarded b m)"
  by (cases b) (simp_all add: frames_ret)

lemma frames_for_each [frame_rules]:
  "(\<And>x. x \<in> set xs \<Longrightarrow> frames v (f x)) \<Longrightarrow> frames v (for_each f xs)"
  by (induction xs) (simp_all add: frames_ret frames_seq)

text \<open>
  An action that returns normally from every state with \<open>P\<close>, and keeps \<open>P\<close>; an action that
  always returns normally.
\<close>

definition succeeds :: "('s \<Rightarrow> bool) \<Rightarrow> ('s, 'e, 'a) act \<Rightarrow> bool" where
  "succeeds P m \<longleftrightarrow> (\<forall>s. P s \<longrightarrow> is_ok (fst (m s)) \<and> P (snd (m s)))"

abbreviation never_fails :: "('s, 'e, 'a) act \<Rightarrow> bool" where
  "never_fails m \<equiv> succeeds (\<lambda>_. True) m"

lemma never_fails_def: "never_fails m \<longleftrightarrow> (\<forall>s. is_ok (fst (m s)))"
  by (simp add: succeeds_def)

lemma succeedsD: "succeeds P m \<Longrightarrow> P s \<Longrightarrow> m s = (r, t) \<Longrightarrow> is_ok r \<and> P t"
  by (metis fst_conv snd_conv succeeds_def)

lemma never_failsD: "never_fails m \<Longrightarrow> m s = (r, t) \<Longrightarrow> is_ok r"
  by (metis fst_conv never_fails_def)

lemma never_fails_keeps: "never_fails m \<Longrightarrow> keeps P m \<Longrightarrow> succeeds P m"
  by (simp add: succeeds_def keeps_def)

lemma succeeds_ret [ok_rules]: "succeeds P (ret a)"
  by (simp add: succeeds_def)

lemma succeeds_bind [ok_rules]:
  assumes "succeeds P m" "\<And>a. succeeds P (k a)"
  shows "succeeds P (bind_act m k)"
  unfolding succeeds_def
proof (intro allI impI)
  fix s assume P: "P s"
  obtain r t where m: "m s = (r, t)" by (meson surj_pair)
  then show "is_ok (fst (bind_act m k s)) \<and> P (snd (bind_act m k s))"
    using succeedsD [OF assms(1) P m] assms(2) by (cases r) (auto simp: succeeds_def)
qed

lemma succeeds_seq [ok_rules]: "succeeds P m \<Longrightarrow> succeeds P n \<Longrightarrow> succeeds P (seq_act m n)"
  by (simp add: seq_act_def succeeds_bind)

lemma succeeds_conv [ok_rules]: "succeeds P m \<Longrightarrow> succeeds P (conv_err f m)"
  unfolding succeeds_def conv_err_def by (metis (no_types, lifting) fst_conv is_ok_map_err prod.case_eq_if snd_conv)

lemma succeeds_guarded [ok_rules]: "(b \<Longrightarrow> succeeds P m) \<Longrightarrow> succeeds P (guarded b m)"
  by (cases b) (simp_all add: succeeds_ret)

lemma succeeds_for_each [ok_rules]:
  "(\<And>x. x \<in> set xs \<Longrightarrow> succeeds P (f x)) \<Longrightarrow> succeeds P (for_each f xs)"
  by (induction xs) (simp_all add: succeeds_ret succeeds_seq)

section \<open>Lists and maps\<close>

lemma concat_map_singleton_filter:
  "concat (map (\<lambda>x. if P x then [f x] else []) xs) = map f (filter P xs)"
  by (induction xs) auto

lemma map_upd_dom_Some [simp]: "m k = Some v \<Longrightarrow> dom (m(k \<mapsto> w)) = dom m"
  by auto

section \<open>Transition systems\<close>

text \<open>
  The states a system can reach from its initial states.  The locale
  \<open>inductive_invariant\<close> is the interface between a component's step relation and the
  properties of all its runs.
\<close>

inductive reach :: "('s \<Rightarrow> bool) \<Rightarrow> ('s \<Rightarrow> 's \<Rightarrow> bool) \<Rightarrow> 's \<Rightarrow> bool"
  for init :: "'s \<Rightarrow> bool" and step :: "'s \<Rightarrow> 's \<Rightarrow> bool" where
  reach_init: "init s \<Longrightarrow> reach init step s"
| reach_step: "reach init step s \<Longrightarrow> step s t \<Longrightarrow> reach init step t"

lemma reach_steps: "reach init step s \<Longrightarrow> step\<^sup>*\<^sup>* s t \<Longrightarrow> reach init step t"
  by (rotate_tac 1, induction rule: rtranclp_induct) (auto intro: reach_step)

lemma reach_weaken:
  assumes "reach init step s" "P"
  shows "reach (\<lambda>s. P \<and> init s) step s"
  using assms(1) by (induction rule: reach.induct) (auto intro: reach.intros simp: assms(2))

lemma three_steps: "r a b \<Longrightarrow> r b c \<Longrightarrow> r c d \<Longrightarrow> r\<^sup>*\<^sup>* a d"
  by (meson rtranclp.rtrancl_into_rtrancl rtranclp.rtrancl_refl)

locale inductive_invariant =
  fixes init :: "'s \<Rightarrow> bool"
    and step :: "'s \<Rightarrow> 's \<Rightarrow> bool"
    and inv :: "'s \<Rightarrow> bool"
  assumes inv_init: "init s \<Longrightarrow> inv s"
    and inv_step: "inv s \<Longrightarrow> step s t \<Longrightarrow> inv t"
begin

lemma reach_inv: "reach init step s \<Longrightarrow> inv s"
  by (induction rule: reach.induct) (auto intro: inv_init inv_step)

lemma steps_inv: "inv s \<Longrightarrow> step\<^sup>*\<^sup>* s t \<Longrightarrow> inv t"
  by (rotate_tac 1, induction rule: rtranclp_induct) (auto intro: inv_step)

end

text \<open>
  One system implements another: related initial states, and every step of the implementation
  is matched by steps of the specification.  Then every run is matched, and an invariant of the
  specification holds of the states an implementation state is related to.
\<close>

locale simulation =
  fixes cinit :: "'c \<Rightarrow> bool"
    and cstep :: "'c \<Rightarrow> 'c \<Rightarrow> bool"
    and rel :: "'c \<Rightarrow> 'a \<Rightarrow> bool"
    and ainit :: "'a \<Rightarrow> bool"
    and astep :: "'a \<Rightarrow> 'a \<Rightarrow> bool"
  assumes sim_init: "cinit c \<Longrightarrow> \<exists>a. ainit a \<and> rel c a"
    and sim_step: "rel c a \<Longrightarrow> cstep c d \<Longrightarrow> \<exists>b. astep\<^sup>*\<^sup>* a b \<and> rel d b"
begin

lemma sim_reach: "reach cinit cstep c \<Longrightarrow> \<exists>a. reach ainit astep a \<and> rel c a"
proof (induction rule: reach.induct)
  case (reach_init c)
  then show ?case using sim_init reach.reach_init by metis
next
  case (reach_step c d)
  then obtain a where a: "reach ainit astep a" "rel c a" by blast
  then obtain b where "astep\<^sup>*\<^sup>* a b" "rel d b" using sim_step reach_step.hyps(2) by blast
  then show ?case using reach_steps [OF a(1)] by blast
qed

lemma sim_steps:
  assumes "cstep\<^sup>*\<^sup>* c d" "rel c a"
  shows "\<exists>b. astep\<^sup>*\<^sup>* a b \<and> rel d b"
  using assms(1)
proof (induction rule: rtranclp_induct)
  case base
  then show ?case using assms(2) by blast
next
  case (step d e)
  then show ?case using sim_step by (meson rtranclp_trans)
qed

end

text \<open>
  A step relation that makes progress: as long as the invariant holds, every step leaves less
  work in a well-founded measure.  Then every run ends, in a state without steps.
\<close>

definition finished :: "('s \<Rightarrow> 's \<Rightarrow> bool) \<Rightarrow> 's \<Rightarrow> bool" where
  "finished step s \<longleftrightarrow> (\<forall>t. \<not> step s t)"

lemma finished_stays: "finished step s \<Longrightarrow> step\<^sup>*\<^sup>* s t \<Longrightarrow> t = s"
  by (erule converse_rtranclpE) (auto simp: finished_def)

locale terminating_steps =
  fixes inv :: "'s \<Rightarrow> bool"
    and step :: "'s \<Rightarrow> 's \<Rightarrow> bool"
    and less_work :: "('s \<times> 's) set"
  assumes work_wf: "wf less_work"
    and step_keeps: "inv s \<Longrightarrow> step s t \<Longrightarrow> inv t"
    and step_works: "inv s \<Longrightarrow> step s t \<Longrightarrow> (t, s) \<in> less_work"
begin

lemma run_keeps: "inv s \<Longrightarrow> step\<^sup>*\<^sup>* s t \<Longrightarrow> inv t"
  by (rotate_tac 1, induction rule: rtranclp_induct) (auto intro: step_keeps)

lemma comes_to_rest: "inv s \<Longrightarrow> \<exists>t. step\<^sup>*\<^sup>* s t \<and> finished step t"
proof (induction s rule: wf_induct_rule [OF work_wf])
  case (1 s)
  show ?case
  proof (cases "finished step s")
    case False
    then obtain u where u: "step s u" by (auto simp: finished_def)
    then obtain t where "step\<^sup>*\<^sup>* u t" "finished step t"
      using 1 step_keeps step_works by blast
    then show ?thesis using converse_rtranclp_into_rtranclp [of step, OF u] by blast
  qed blast
qed

lemma no_infinite_run:
  assumes "inv (f 0)"
  shows "\<not> (\<forall>n. step (f n) (f (Suc n)))"
proof
  assume step: "\<forall>n. step (f n) (f (Suc n))"
  have "inv (f n)" for n by (induction n) (use assms step_keeps step in blast)+
  then have "\<forall>n. (f (Suc n), f n) \<in> less_work" using step_works step by blast
  then show False using work_wf unfolding wf_iff_no_infinite_down_chain by blast
qed

end

end
