(* ===== verification/Rust_Strings.thy ===== *)
theory Rust_Strings
  imports Prelude
begin

text \<open>
  The part of Rust's standard library the program's text handling rests on: strings as
  lists of Unicode scalar values (\<open>rstr\<close>), their UTF-8 bytes, strict and lossy
  decoding (\<open>str::from_utf8\<close>, \<open>String::from_utf8_lossy\<close>), decimal display of unsigned
  integers, \<open>str::split\<close> on one character, and \<open>CStr\<close>/\<open>CString\<close> over a C heap.
  The interface locale \<open>byte_codec\<close> states what a client needs of an encoding.
\<close>

section \<open>Characters and strings\<close>

type_synonym uchar = nat
type_synonym rstr = "uchar list"
type_synonym byte = "8 word"

definition scalar :: "uchar \<Rightarrow> bool" where
  "scalar c \<longleftrightarrow> c < 0xD800 \<or> (0xE000 \<le> c \<and> c < 0x110000)"

definition rust_str :: "rstr \<Rightarrow> bool" where
  "rust_str s \<longleftrightarrow> list_all scalar s"

text \<open>String literals of the source (all ASCII).\<close>

definition lit :: "string \<Rightarrow> rstr" where
  "lit s = map of_char s"

lemma rust_str_simps [simp]:
  "rust_str []"
  "rust_str (c # s) \<longleftrightarrow> scalar c \<and> rust_str s"
  "rust_str (s @ t) \<longleftrightarrow> rust_str s \<and> rust_str t"
  by (simp_all add: rust_str_def)

lemma rust_str_iff: "rust_str s \<longleftrightarrow> (\<forall>c\<in>set s. scalar c)"
  by (simp add: rust_str_def list_all_iff)

lemma scalar_ascii: "c < 128 \<Longrightarrow> scalar c"
  by (simp add: scalar_def)

lemma scalar_of_char [simp]: "scalar (of_char c)"
proof -
  have "(of_char c :: nat) < 0xD800"
    by (rule less_trans [OF nat_of_char_less_256]) simp
  then show ?thesis by (simp add: scalar_def)
qed

lemma rust_str_lit [simp]: "rust_str (lit s)"
  by (simp add: rust_str_iff lit_def)

lemma length_lit [simp]: "length (lit s) = length s"
  by (simp add: lit_def)

section \<open>UTF-8\<close>

definition byte_of :: "nat \<Rightarrow> byte" where
  "byte_of n = word_of_nat n"

lemma unat_byte_of [simp]: "n < 256 \<Longrightarrow> unat (byte_of n) = n"
  by (simp add: byte_of_def unat_of_nat take_bit_eq_mod)

lemma byte_of_unat [simp]: "byte_of (unat b) = b"
  by (simp add: byte_of_def)

definition enc_char :: "uchar \<Rightarrow> byte list" where
  "enc_char c =
     (if c < 0x80 then [byte_of c]
      else if c < 0x800 then [byte_of (0xC0 + c div 64), byte_of (0x80 + c mod 64)]
      else if c < 0x10000 then
        [byte_of (0xE0 + c div 4096), byte_of (0x80 + c div 64 mod 64),
         byte_of (0x80 + c mod 64)]
      else
        [byte_of (0xF0 + c div 262144), byte_of (0x80 + c div 4096 mod 64),
         byte_of (0x80 + c div 64 mod 64), byte_of (0x80 + c mod 64)])"

fun utf8 :: "rstr \<Rightarrow> byte list" where
  "utf8 [] = []"
| "utf8 (c # s) = enc_char c @ utf8 s"

lemma utf8_append [simp]: "utf8 (s @ t) = utf8 s @ utf8 t"
  by (induction s) simp_all

lemma utf8_concat: "utf8 (concat ss) = concat (map utf8 ss)"
  by (induction ss) simp_all

text \<open>
  One step of the decoder of \<open>core::str\<close>: the next character if the bytes start with a
  well-formed sequence, otherwise \<open>None\<close> with the maximal ill-formed prefix removed.
  The ranges of the second byte exclude overlong forms, surrogates and values past
  U+10FFFF.
\<close>

definition in_range :: "nat \<Rightarrow> nat \<Rightarrow> byte \<Rightarrow> bool" where
  "in_range lo hi b \<longleftrightarrow> lo \<le> unat b \<and> unat b \<le> hi"

definition cont :: "byte \<Rightarrow> bool" where
  "cont b \<longleftrightarrow> in_range 0x80 0xBF b"

definition second3 :: "nat \<Rightarrow> byte \<Rightarrow> bool" where
  "second3 x b = (if x = 0xE0 then in_range 0xA0 0xBF b
                  else if x = 0xED then in_range 0x80 0x9F b else cont b)"

definition second4 :: "nat \<Rightarrow> byte \<Rightarrow> bool" where
  "second4 x b = (if x = 0xF0 then in_range 0x90 0xBF b
                  else if x = 0xF4 then in_range 0x80 0x8F b else cont b)"

definition cbits :: "byte \<Rightarrow> nat" where
  "cbits b = unat b - 0x80"

fun dec2 :: "nat \<Rightarrow> byte list \<Rightarrow> uchar option \<times> byte list" where
  "dec2 x (b # bs) = (if cont b then (Some ((x - 0xC0) * 64 + cbits b), bs) else (None, b # bs))"
| "dec2 x [] = (None, [])"

fun dec3 :: "nat \<Rightarrow> byte list \<Rightarrow> uchar option \<times> byte list" where
  "dec3 x (b # c # bs) =
     (if \<not> second3 x b then (None, b # c # bs)
      else if \<not> cont c then (None, c # bs)
      else (Some ((x - 0xE0) * 4096 + cbits b * 64 + cbits c), bs))"
| "dec3 x [b] = (if second3 x b then (None, []) else (None, [b]))"
| "dec3 x [] = (None, [])"

fun dec4 :: "nat \<Rightarrow> byte list \<Rightarrow> uchar option \<times> byte list" where
  "dec4 x (b # c # d # bs) =
     (if \<not> second4 x b then (None, b # c # d # bs)
      else if \<not> cont c then (None, c # d # bs)
      else if \<not> cont d then (None, d # bs)
      else (Some ((x - 0xF0) * 262144 + cbits b * 4096 + cbits c * 64 + cbits d), bs))"
| "dec4 x [b, c] =
     (if \<not> second4 x b then (None, [b, c]) else if \<not> cont c then (None, [c]) else (None, []))"
| "dec4 x [b] = (if second4 x b then (None, []) else (None, [b]))"
| "dec4 x [] = (None, [])"

definition dec_char :: "byte \<Rightarrow> byte list \<Rightarrow> uchar option \<times> byte list" where
  "dec_char b bs =
     (let x = unat b in
      if x < 0x80 then (Some x, bs)
      else if 0xC2 \<le> x \<and> x \<le> 0xDF then dec2 x bs
      else if 0xE0 \<le> x \<and> x \<le> 0xEF then dec3 x bs
      else if 0xF0 \<le> x \<and> x \<le> 0xF4 then dec4 x bs
      else (None, bs))"

lemma dec2_length: "length (snd (dec2 x bs)) \<le> length bs"
  by (cases "(x, bs)" rule: dec2.cases) auto

lemma dec3_length: "length (snd (dec3 x bs)) \<le> length bs"
  by (cases "(x, bs)" rule: dec3.cases) auto

lemma dec4_length: "length (snd (dec4 x bs)) \<le> length bs"
  by (cases "(x, bs)" rule: dec4.cases) auto

lemma dec_char_length: "length (snd (dec_char b bs)) \<le> length bs"
  by (auto simp: dec_char_def Let_def dec2_length dec3_length dec4_length)

lemma dec_char_shrinks: "dec_char b bs = (r, rest) \<Longrightarrow> length rest < Suc (length bs)"
  using dec_char_length [of b bs] by simp

function from_utf8_lossy :: "byte list \<Rightarrow> rstr" where
  "from_utf8_lossy [] = []"
| "from_utf8_lossy (b # bs) =
     (case dec_char b bs of
        (Some c, rest) \<Rightarrow> c # from_utf8_lossy rest
      | (None, rest) \<Rightarrow> 0xFFFD # from_utf8_lossy rest)"
  by pat_completeness auto
termination
  by (relation "measure length") (auto dest: dec_char_shrinks [OF sym])

function from_utf8 :: "byte list \<Rightarrow> rstr option" where
  "from_utf8 [] = Some []"
| "from_utf8 (b # bs) =
     (case dec_char b bs of
        (Some c, rest) \<Rightarrow> map_option ((#) c) (from_utf8 rest)
      | (None, rest) \<Rightarrow> None)"
  by pat_completeness auto
termination
  by (relation "measure length") (auto dest: dec_char_shrinks [OF sym])

text \<open>The bytes of an encoded character decode to it, whatever follows.\<close>

lemma in_range_byte_of [simp]: "n < 256 \<Longrightarrow> in_range lo hi (byte_of n) \<longleftrightarrow> lo \<le> n \<and> n \<le> hi"
  by (simp add: in_range_def)

lemma cont_byte_of [simp]: "n < 256 \<Longrightarrow> cont (byte_of n) \<longleftrightarrow> 128 \<le> n \<and> n \<le> 191"
  by (simp add: cont_def)

lemma cbits_byte_of [simp]: "n < 64 \<Longrightarrow> cbits (byte_of (128 + n)) = n"
  by (simp add: cbits_def)

lemma dec_enc2:
  assumes "128 \<le> c" "c < 2048"
  shows "dec_char (byte_of (192 + c div 64)) (byte_of (128 + c mod 64) # r) = (Some c, r)"
proof -
  have "2 \<le> c div 64" "c div 64 < 32" using assms by simp_all
  moreover have "c div 64 * 64 + c mod 64 = c" by simp
  ultimately show ?thesis by (simp add: dec_char_def Let_def)
qed

lemma split64: "(c::nat) = c div 64 * 64 + c mod 64"
  by simp

lemma split4096: "(c::nat) = c div 4096 * 4096 + c div 64 mod 64 * 64 + c mod 64"
proof -
  have "c div 64 = c div 4096 * 64 + c div 64 mod 64"
    using split64 [of "c div 64"] by (simp add: div_mult2_eq [symmetric])
  then show ?thesis using split64 [of c] by linarith
qed

lemma split262144:
  "(c::nat) = c div 262144 * 262144 + c div 4096 mod 64 * 4096 + c div 64 mod 64 * 64 + c mod 64"
proof -
  have "c div 4096 = c div 262144 * 64 + c div 4096 mod 64"
    using split64 [of "c div 4096"] by (simp add: div_mult2_eq [symmetric])
  then show ?thesis using split4096 [of c] by linarith
qed

lemma dec_enc3:
  assumes "scalar c" "2048 \<le> c" "c < 65536"
  shows "dec_char (byte_of (224 + c div 4096))
     (byte_of (128 + c div 64 mod 64) # byte_of (128 + c mod 64) # r) = (Some c, r)"
proof -
  define x y z where "x = c div 4096" and "y = c div 64 mod 64" and "z = c mod 64"
  have c: "c = x * 4096 + y * 64 + z"
    unfolding x_def y_def z_def by (rule split4096)
  have b: "x < 16" "y < 64" "z < 64"
    using assms by (simp_all add: x_def y_def z_def less_mult_imp_div_less)
  have s: "x = 0 \<longrightarrow> 32 \<le> y" "x = 13 \<longrightarrow> y < 32"
    using assms b unfolding c scalar_def by (intro impI; linarith)+
  have "second3 (224 + x) (byte_of (128 + y))"
    using b s by (auto simp: second3_def)
  then show ?thesis
    using b unfolding x_def [symmetric] y_def [symmetric] z_def [symmetric]
    by (simp add: dec_char_def Let_def c)
qed

lemma dec_enc4:
  assumes "65536 \<le> c" "c < 1114112"
  shows "dec_char (byte_of (240 + c div 262144))
     (byte_of (128 + c div 4096 mod 64) # byte_of (128 + c div 64 mod 64) #
      byte_of (128 + c mod 64) # r) = (Some c, r)"
proof -
  define w x y z where "w = c div 262144" and "x = c div 4096 mod 64"
    and "y = c div 64 mod 64" and "z = c mod 64"
  have c: "c = w * 262144 + x * 4096 + y * 64 + z"
    unfolding w_def x_def y_def z_def by (rule split262144)
  have b: "w < 5" "x < 64" "y < 64" "z < 64"
    using assms by (simp_all add: w_def x_def y_def z_def less_mult_imp_div_less)
  have s: "w = 0 \<longrightarrow> 16 \<le> x" "w = 4 \<longrightarrow> x < 16"
    using assms b unfolding c by (intro impI; linarith)+
  have "second4 (240 + w) (byte_of (128 + x))"
    using b s by (auto simp: second4_def)
  then show ?thesis
    using b unfolding w_def [symmetric] x_def [symmetric] y_def [symmetric] z_def [symmetric]
    by (simp add: dec_char_def Let_def c)
qed

lemma enc_char_cases:
  assumes "scalar c"
  obtains b bs where "enc_char c = b # bs" "\<And>r. dec_char b (bs @ r) = (Some c, r)"
proof -
  consider "c < 128" | "128 \<le> c" "c < 2048" | "2048 \<le> c" "c < 65536" | "65536 \<le> c" "c < 1114112"
    using assms unfolding scalar_def by linarith
  then show ?thesis
  proof cases
    case 1
    then show ?thesis
      by (intro that [of "byte_of c" "[]"]) (simp_all add: enc_char_def dec_char_def)
  next
    case 2
    then have "enc_char c = byte_of (192 + c div 64) # [byte_of (128 + c mod 64)]"
      by (simp add: enc_char_def)
    then show ?thesis using dec_enc2 [OF 2] by (auto intro: that)
  next
    case 3
    then have "enc_char c = byte_of (224 + c div 4096) #
        [byte_of (128 + c div 64 mod 64), byte_of (128 + c mod 64)]"
      by (simp add: enc_char_def)
    then show ?thesis using dec_enc3 [OF assms 3] by (auto intro: that)
  next
    case 4
    then have "enc_char c = byte_of (240 + c div 262144) #
        [byte_of (128 + c div 4096 mod 64), byte_of (128 + c div 64 mod 64),
         byte_of (128 + c mod 64)]"
      by (simp add: enc_char_def)
    then show ?thesis using dec_enc4 [OF 4] by (auto intro: that)
  qed
qed

lemma from_utf8_utf8: "rust_str s \<Longrightarrow> from_utf8 (utf8 s) = Some s"
proof (induction s)
  case (Cons c s)
  then obtain b bs where "enc_char c = b # bs" "\<And>r. dec_char b (bs @ r) = (Some c, r)"
    using enc_char_cases by (metis rust_str_simps(2))
  with Cons show ?case by simp
qed simp

lemma from_utf8_lossy_Some: "from_utf8 bs = Some s \<Longrightarrow> from_utf8_lossy bs = s"
  by (induction bs arbitrary: s rule: from_utf8.induct)
    (auto split: prod.splits option.splits)

lemma from_utf8_lossy_utf8: "rust_str s \<Longrightarrow> from_utf8_lossy (utf8 s) = s"
  by (rule from_utf8_lossy_Some) (rule from_utf8_utf8)

text \<open>Decoding yields scalar values only: a \<open>String\<close> built lossily is a valid one.\<close>

lemma cont_cbits: "cont b \<Longrightarrow> cbits b < 64"
  unfolding cont_def cbits_def in_range_def by linarith

lemma dec2_scalar:
  assumes "dec2 x bs = (Some c, r)" "x \<le> 223"
  shows "scalar c"
proof -
  obtain b where "cont b" "c = (x - 192) * 64 + cbits b"
    using assms(1) by (cases bs) (auto split: if_splits)
  then have "c < 2048" using cont_cbits [of b] assms(2) by linarith
  then show ?thesis by (simp add: scalar_def)
qed

lemma second3_cases:
  assumes "second3 x b" "224 \<le> x" "x \<le> 239"
  shows "cbits b < 64" "x = 237 \<Longrightarrow> cbits b < 32"
  using assms by (auto simp: second3_def cont_def cbits_def in_range_def split: if_splits)

lemma dec3_scalar:
  assumes "dec3 x bs = (Some c, r)" "224 \<le> x" "x \<le> 239"
  shows "scalar c"
proof -
  obtain b d where bd: "second3 x b" "cont d" "c = (x - 224) * 4096 + cbits b * 64 + cbits d"
    using assms(1) by (cases "(x, bs)" rule: dec3.cases) (auto split: if_splits)
  note bounds = second3_cases [OF bd(1) assms(2,3)] cont_cbits [OF bd(2)]
  consider "x \<le> 236" | "x = 237" | "238 \<le> x" by linarith
  then have "c < 0xD800 \<or> (0xE000 \<le> c \<and> c < 0x10000)"
  proof cases
    case 1
    then have "(x - 224) * 4096 \<le> 12 * 4096" using assms(2) by simp
    with bd(3) bounds show ?thesis by linarith
  next
    case 2
    with bd(3) bounds show ?thesis by simp
  next
    case 3
    then have "14 * 4096 \<le> (x - 224) * 4096" "(x - 224) * 4096 \<le> 15 * 4096"
      using assms(2,3) by simp_all
    with bd(3) bounds show ?thesis by linarith
  qed
  then show ?thesis by (auto simp: scalar_def)
qed

lemma second4_cases:
  assumes "second4 x b" "240 \<le> x" "x \<le> 244"
  shows "cbits b < 64" "x = 240 \<Longrightarrow> 16 \<le> cbits b" "x = 244 \<Longrightarrow> cbits b < 16"
  using assms by (auto simp: second4_def cont_def cbits_def in_range_def split: if_splits)

lemma dec4_scalar:
  assumes "dec4 x bs = (Some c, r)" "240 \<le> x" "x \<le> 244"
  shows "scalar c"
proof -
  obtain b d e where bd: "second4 x b" "cont d" "cont e"
      "c = (x - 240) * 262144 + cbits b * 4096 + cbits d * 64 + cbits e"
    using assms(1) by (cases "(x, bs)" rule: dec4.cases) (auto split: if_splits)
  note bounds = second4_cases [OF bd(1) assms(2,3)] cont_cbits [OF bd(2)] cont_cbits [OF bd(3)]
  consider "x = 240" | "x = 241" | "x = 242" | "x = 243" | "x = 244" using assms(2,3) by linarith
  then have "0x10000 \<le> c \<and> c < 0x110000"
    by cases (use bd(4) bounds in simp_all)
  then show ?thesis by (simp add: scalar_def)
qed

lemma dec_char_scalar: "dec_char b bs = (Some c, r) \<Longrightarrow> scalar c"
  by (auto simp: dec_char_def Let_def scalar_ascii split: if_splits
      intro: dec2_scalar dec3_scalar dec4_scalar)

lemma rust_str_from_utf8_lossy [simp]: "rust_str (from_utf8_lossy bs)"
  by (induction bs rule: from_utf8_lossy.induct)
    (auto simp: scalar_def dest: dec_char_scalar split: prod.splits option.splits)

lemma rust_str_from_utf8: "from_utf8 bs = Some s \<Longrightarrow> rust_str s"
  using from_utf8_lossy_Some rust_str_from_utf8_lossy by metis

text \<open>UTF-8 has a zero byte exactly where the text has U+0000.\<close>

lemma byte_of_eq_0: "n < 256 \<Longrightarrow> byte_of n = 0 \<longleftrightarrow> n = 0"
  using unat_byte_of [of n] by (metis unat_0 byte_of_unat)

lemma zero_enc_char: "scalar c \<Longrightarrow> 0 \<in> set (enc_char c) \<longleftrightarrow> c = 0"
  by (auto simp: enc_char_def scalar_def byte_of_eq_0 eq_commute [of "0::byte"]
      less_mult_imp_div_less)

lemma zero_utf8: "rust_str s \<Longrightarrow> 0 \<in> set (utf8 s) \<longleftrightarrow> 0 \<in> set s"
  by (induction s) (auto simp: zero_enc_char)

lemma enc_char_nonempty [simp]: "enc_char c \<noteq> []"
  by (simp add: enc_char_def)

lemma utf8_Nil_iff [simp]: "utf8 s = [] \<longleftrightarrow> s = []"
  by (cases s) simp_all

lemma length_utf8_ge: "length s \<le> length (utf8 s)"
proof (induction s)
  case (Cons c s)
  have "1 \<le> length (enc_char c)" by (simp add: enc_char_def)
  with Cons show ?case by simp
qed simp

section \<open>Decimal display and splitting\<close>

text \<open>\<open>Display\<close> of an unsigned integer.\<close>

fun show_nat :: "nat \<Rightarrow> rstr" where
  "show_nat n = (if n < 10 then [48 + n] else show_nat (n div 10) @ [48 + n mod 10])"

declare show_nat.simps [simp del]

lemma show_nat_digits: "\<forall>c\<in>set (show_nat n). 48 \<le> c \<and> c \<le> 57"
proof (induction n rule: show_nat.induct)
  case (1 n)
  then show ?case
    by (subst show_nat.simps) (auto split: if_splits)
qed

lemma rust_str_show_nat [simp]: "rust_str (show_nat n)"
  unfolding rust_str_iff
proof
  fix c assume "c \<in> set (show_nat n)"
  then have "c < 128" using show_nat_digits [of n] by fastforce
  then show "scalar c" by (rule scalar_ascii)
qed

lemma show_nat_nonempty [simp]: "show_nat n \<noteq> []"
  by (subst show_nat.simps) simp

text \<open>\<open>str::split\<close> on one character: the pieces between its occurrences.\<close>

fun split_on :: "uchar \<Rightarrow> rstr \<Rightarrow> rstr list" where
  "split_on d [] = [[]]"
| "split_on d (c # s) =
     (if c = d then [] # split_on d s
      else (case split_on d s of [] \<Rightarrow> [[c]] | x # xs \<Rightarrow> (c # x) # xs))"

lemma split_on_nonempty [simp]: "split_on d s \<noteq> []"
  by (induction s) (auto split: list.splits)

lemma split_on_avoids: "x \<in> set (split_on d s) \<Longrightarrow> d \<notin> set x"
  by (induction s arbitrary: x) (auto split: list.splits if_splits)

lemma concat_split_on: "concat (split_on d s) = filter (\<lambda>c. c \<noteq> d) s"
proof (induction s)
  case (Cons c s)
  then show ?case by (cases "split_on d s") auto
qed simp

lemma split_on_none: "d \<notin> set s \<Longrightarrow> split_on d s = [s]"
  by (induction s) auto

section \<open>C strings on a heap\<close>

text \<open>
  Memory shared with C: a partial map from addresses to bytes and the first address never
  handed out.  Address 0 is the null pointer.  \<open>cstr h p\<close> is the scan of
  \<open>CStr::from_ptr\<close>: the bytes up to the terminator, or \<open>None\<close> when it
  leaves the mapped memory (undefined behaviour in C) or never ends.
\<close>

type_synonym addr = nat

record heap =
  cells :: "addr \<Rightarrow> byte option"
  brk :: addr

definition heap_ok :: "heap \<Rightarrow> bool" where
  "heap_ok h \<longleftrightarrow> 0 < brk h \<and> cells h 0 = None \<and> (\<forall>a\<ge>brk h. cells h a = None)"

definition empty_heap :: heap where
  "empty_heap = \<lparr>cells = Map.empty, brk = 1\<rparr>"

partial_function (option) cstr :: "heap \<Rightarrow> addr \<Rightarrow> byte list option" where
  "cstr h p =
     (case cells h p of
        None \<Rightarrow> None
      | Some b \<Rightarrow>
          if b = 0 then Some []
          else Option.bind (cstr h (Suc p)) (\<lambda>bs. Some (b # bs)))"

text \<open>Writing bytes at consecutive addresses.\<close>

fun poke :: "(addr \<Rightarrow> byte option) \<Rightarrow> addr \<Rightarrow> byte list \<Rightarrow> (addr \<Rightarrow> byte option)" where
  "poke m p [] = m"
| "poke m p (b # bs) = poke (m(p \<mapsto> b)) (Suc p) bs"

text \<open>
  \<open>CString::new\<close> rejects interior zero bytes; a \<open>CString\<close> lives on the heap with
  its terminator, at a fresh address.
\<close>

definition cstring_new :: "byte list \<Rightarrow> byte list option" where
  "cstring_new bs = (if 0 \<in> set bs then None else Some bs)"

definition alloc_cstring :: "byte list \<Rightarrow> heap \<Rightarrow> addr \<times> heap" where
  "alloc_cstring bs h =
     (brk h, h\<lparr>cells := poke (cells h) (brk h) (bs @ [0]), brk := brk h + length bs + 1\<rparr>)"

lemma poke_other: "a < p \<or> p + length bs \<le> a \<Longrightarrow> poke m p bs a = m a"
  by (induction bs arbitrary: m p) auto

lemma poke_at: "i < length bs \<Longrightarrow> poke m p bs (p + i) = Some (bs ! i)"
proof (induction bs arbitrary: m p i)
  case (Cons b bs)
  show ?case
  proof (cases i)
    case 0
    then show ?thesis by (simp add: poke_other)
  next
    case (Suc j)
    with Cons show ?thesis using Cons.IH [of j _ "Suc p"] by simp
  qed
qed simp

lemma cstr_read:
  "(\<forall>i<length bs. cells h (p + i) = Some (bs ! i)) \<Longrightarrow> cells h (p + length bs) = Some 0 \<Longrightarrow>
   0 \<notin> set bs \<Longrightarrow> cstr h p = Some bs"
proof (induction bs arbitrary: p)
  case Nil
  then show ?case by (simp add: cstr.simps)
next
  case (Cons b bs)
  have "cells h (Suc p + i) = Some (bs ! i)" if "i < length bs" for i
    using Cons.prems(1)[rule_format, of "Suc i"] that by simp
  moreover have "cells h (Suc p + length bs) = Some 0" "0 \<notin> set bs"
    using Cons.prems(2,3) by simp_all
  ultimately have "cstr h (Suc p) = Some bs"
    using Cons.IH by blast
  moreover have "cells h p = Some b" "b \<noteq> 0"
    using Cons.prems(1)[rule_format, of 0] Cons.prems(3) by auto
  ultimately show ?case by (simp add: cstr.simps [of h p])
qed

lemma cstr_alloc:
  assumes "0 \<notin> set bs" "alloc_cstring bs h = (p, h')"
  shows "cstr h' p = Some bs"
proof (rule cstr_read)
  have c: "cells h' = poke (cells h) p (bs @ [0])"
    using assms(2) by (auto simp: alloc_cstring_def)
  show "\<forall>i<length bs. cells h' (p + i) = Some (bs ! i)"
  proof (intro allI impI)
    fix i assume "i < length bs"
    then show "cells h' (p + i) = Some (bs ! i)"
      using poke_at [of i "bs @ [0]" "cells h" p] by (simp add: c nth_append)
  qed
  show "cells h' (p + length bs) = Some 0"
    using poke_at [of "length bs" "bs @ [0]" "cells h" p] by (simp add: c)
qed (rule assms(1))

lemma cstr_NilD: "cstr h p = Some [] \<Longrightarrow> cells h p = Some 0"
  using cstr.simps [of h p] by (auto split: option.splits if_splits bind_splits)

lemma cstr_ConsD:
  "cstr h p = Some (b # bs) \<Longrightarrow> cells h p = Some b \<and> b \<noteq> 0 \<and> cstr h (Suc p) = Some bs"
  using cstr.simps [of h p] by (auto split: option.splits if_splits bind_splits)

lemma cstr_no_zero: "cstr h p = Some bs \<Longrightarrow> 0 \<notin> set bs"
  by (induction bs arbitrary: p) (auto dest!: cstr_ConsD)

lemma cstr_cells_eq:
  assumes "cstr h p = Some bs" "\<And>a. cells h a \<noteq> None \<Longrightarrow> cells h' a = cells h a"
  shows "cstr h' p = Some bs"
  using assms(1)
proof (induction bs arbitrary: p)
  case Nil
  then have "cells h p = Some 0" by (rule cstr_NilD)
  then show ?case using assms(2) [of p] by (simp add: cstr.simps [of h' p])
next
  case (Cons b bs)
  then have "cells h p = Some b" "b \<noteq> 0" "cstr h (Suc p) = Some bs"
    by (auto dest: cstr_ConsD)
  then show ?case using Cons.IH [of "Suc p"] assms(2) [of p] by (simp add: cstr.simps [of h' p])
qed

lemma heap_ok_empty [simp]: "heap_ok empty_heap"
  by (simp add: heap_ok_def empty_heap_def)

lemma heap_ok_alloc: "heap_ok h \<Longrightarrow> alloc_cstring bs h = (p, h') \<Longrightarrow> heap_ok h' \<and> 0 < p"
  by (auto simp: heap_ok_def alloc_cstring_def poke_other)

lemma cstr_alloc_other:
  assumes "heap_ok h" "alloc_cstring bs h = (p, h')" "cstr h q = Some cs"
  shows "cstr h' q = Some cs"
proof (rule cstr_cells_eq [OF assms(3)])
  fix a assume "cells h a \<noteq> None"
  then have "a < brk h" using assms(1) by (meson heap_ok_def not_le)
  then show "cells h' a = cells h a"
    using assms(2) by (auto simp: alloc_cstring_def poke_other)
qed

section \<open>What a client needs of an encoding\<close>

text \<open>
  Text crosses the C boundary as bytes.  A codec encodes the values a sender may hold
  (\<open>valid\<close>) so that the receiver's decoder gives them back.
\<close>

locale byte_codec =
  fixes enc :: "'a \<Rightarrow> byte list"
    and dec :: "byte list \<Rightarrow> 'a"
    and valid :: "'a \<Rightarrow> bool"
  assumes dec_enc: "valid x \<Longrightarrow> dec (enc x) = x"
    and valid_dec: "valid (dec bs)"
begin

lemma enc_inj: "valid x \<Longrightarrow> valid y \<Longrightarrow> enc x = enc y \<Longrightarrow> x = y"
  using dec_enc by metis

lemma dec_idem: "dec (enc (dec bs)) = dec bs"
  by (simp add: dec_enc valid_dec)

text \<open>A zero-free encoding survives the trip through a C string.\<close>

lemma cstring_trip:
  assumes "valid x" "cstring_new (enc x) = Some bs" "alloc_cstring bs h = (p, h')"
  shows "map_option dec (cstr h' p) = Some x"
proof -
  have "0 \<notin> set (enc x)" "bs = enc x"
    using assms(2) by (auto simp: cstring_new_def split: if_splits)
  then have "cstr h' p = Some (enc x)" using assms(3) cstr_alloc by blast
  then show ?thesis using assms(1) by (simp add: dec_enc)
qed

end

interpretation utf8c: byte_codec utf8 from_utf8_lossy rust_str
  by unfold_locales (simp_all add: from_utf8_lossy_utf8)

end
