(* ===== verification/Log_Level.thy ===== *)
theory Log_Level
  imports Rust_Strings
begin

text \<open>
  \<open>src/log_level.rs\<close>: the log levels, their one-letter form (used on disk) and their
  \<open>Display\<close> form (used on standard output and by \<open>tracing\<close>).  The discriminants of the
  \<open>repr(C)\<close> enum are those the FFI passes.
\<close>

datatype log_level = Info | Warn | Error | Debug | Crit | Off

fun level_short :: "log_level \<Rightarrow> uchar" where
  "level_short Info = of_char (CHR ''I'')"
| "level_short Warn = of_char (CHR ''W'')"
| "level_short Error = of_char (CHR ''E'')"
| "level_short Debug = of_char (CHR ''D'')"
| "level_short Crit = of_char (CHR ''C'')"
| "level_short Off = of_char (CHR ''O'')"

fun level_display :: "log_level \<Rightarrow> rstr" where
  "level_display Info = lit ''INFO''"
| "level_display Warn = lit ''WARN''"
| "level_display Error = lit ''ERROR''"
| "level_display Debug = lit ''DEBUG''"
| "level_display Crit = lit ''CRIT''"
| "level_display Off = lit ''OFF''"

text \<open>The C enum: declaration order gives the discriminant.\<close>

fun level_code :: "log_level \<Rightarrow> nat" where
  "level_code Info = 0"
| "level_code Warn = 1"
| "level_code Error = 2"
| "level_code Debug = 3"
| "level_code Crit = 4"
| "level_code Off = 5"

text \<open>The short form is the first letter of the display form, and identifies the level.\<close>

lemma level_short_display: "level_display l = level_short l # tl (level_display l)"
  by (cases l) (simp_all add: lit_def)

lemma level_short_inj: "level_short a = level_short b \<longleftrightarrow> a = b"
  by (cases a; cases b) simp_all

lemma level_short_ascii: "level_short l < 128"
  by (cases l) simp_all

lemma scalar_level_short [simp]: "scalar (level_short l)"
  by (rule scalar_ascii) (rule level_short_ascii)

lemma rust_str_level_display [simp]: "rust_str (level_display l)"
  by (cases l) simp_all

lemma level_code_inj: "level_code a = level_code b \<longleftrightarrow> a = b"
  by (cases a; cases b) simp_all

end
