(* ===== verification/Rust_Files.thy ===== *)
theory Rust_Files
  imports Rust_Strings
begin

text \<open>
  The file side of the standard library: \<open>PathBuf::join\<close>, \<open>Path::with_extension\<close> and
  \<open>Path::parent\<close> on Unix paths, \<open>File::create\<close>, \<open>BufWriter<File>\<close> and the
  operating system below it.  The operating system is a parameter (record \<open>os\<close>): at
  each system call, numbered by a tick, it decides whether the call fails and how many
  bytes a write takes, so partial writes and failures can come at any point.  A file is an
  inode with contents, a handle is an inode and a cursor, and two paths may resolve to one
  inode.  The locales \<open>byte_sink\<close> and \<open>flushable_sink\<close> are what the loggers rely on.
\<close>

section \<open>Paths\<close>

text \<open>47 is the separator and 46 the dot.\<close>

definition path_join :: "rstr \<Rightarrow> rstr \<Rightarrow> rstr" where
  "path_join b t =
     (if t \<noteq> [] \<and> hd t = 47 then t
      else if b \<noteq> [] \<and> last b \<noteq> 47 then b @ 47 # t
      else b @ t)"

text \<open>A reversed path without trailing separators and trailing \<open>/.\<close> components.\<close>

fun strip_rev :: "rstr \<Rightarrow> rstr" where
  "strip_rev [] = []"
| "strip_rev (c # r) =
     (if c = 47 then strip_rev r
      else if c = 46 \<and> r \<noteq> [] \<and> hd r = 47 then strip_rev r
      else c # r)"

text \<open>The last component reversed, and the reversed rest (which keeps its separator).\<close>

definition last_comp :: "rstr \<Rightarrow> rstr \<times> rstr" where
  "last_comp p = (let r = strip_rev (rev p) in
     (takeWhile (\<lambda>c. c \<noteq> 47) r, dropWhile (\<lambda>c. c \<noteq> 47) r))"

definition file_stem_rev :: "rstr \<Rightarrow> rstr" where
  "file_stem_rev n =
     (let rest = dropWhile (\<lambda>c. c \<noteq> 46) n
      in if rest = [] \<or> rest = [46] then n else tl rest)"

definition with_extension :: "rstr \<Rightarrow> rstr \<Rightarrow> rstr" where
  "with_extension p ext =
     (case last_comp p of (n, d) \<Rightarrow>
        if n = [] \<or> n = [46] \<or> n = [46, 46] then p
        else rev d @ rev (file_stem_rev n) @ 46 # ext)"

definition path_parent :: "rstr \<Rightarrow> rstr option" where
  "path_parent p =
     (let r = strip_rev (rev p) in
      if r = [] then None
      else let d = dropWhile (\<lambda>c. c \<noteq> 47) r in
           if d = [] then Some []
           else let d' = strip_rev d in Some (if d' = [] then [47] else rev d'))"

text \<open>A name without separators and dots: the usual context identifier.\<close>

definition plain_name :: "rstr \<Rightarrow> bool" where
  "plain_name t \<longleftrightarrow> t \<noteq> [] \<and> 47 \<notin> set t \<and> 46 \<notin> set t"

definition dir_path :: "rstr \<Rightarrow> bool" where
  "dir_path b \<longleftrightarrow> b \<noteq> [] \<and> last b \<noteq> 47"

lemma strip_rev_id: "r \<noteq> [] \<Longrightarrow> hd r \<noteq> 47 \<Longrightarrow> hd r \<noteq> 46 \<Longrightarrow> strip_rev r = r"
  by (cases r) auto

lemma takeWhile_dropWhile_sep:
  "47 \<notin> set t \<Longrightarrow> takeWhile (\<lambda>c. c \<noteq> 47) (rev t @ 47 # r) = rev t"
  "47 \<notin> set t \<Longrightarrow> dropWhile (\<lambda>c. c \<noteq> 47) (rev t @ 47 # r) = 47 # r"
  by (auto simp: takeWhile_append dropWhile_append)

lemma with_extension_name:
  assumes t: "t = s @ e" "s \<noteq> []" "47 \<notin> set t" "last t \<noteq> 46"
    and s: "e = [] \<and> 46 \<notin> set s \<or> (\<exists>x. e = 46 # x \<and> 46 \<notin> set x)"
  shows "with_extension (b @ 47 # t) ext = b @ 47 # s @ 46 # ext"
proof -
  have ne: "t \<noteq> []" "rev t \<noteq> []" "hd (rev t) = last t"
    using t(1,2) by (simp_all add: hd_rev del: rev_append)
  have "last t \<noteq> 47" using t(3) ne(1) by (metis last_in_set)
  then have "strip_rev (rev (b @ 47 # t)) = rev t @ 47 # rev b"
    using strip_rev_id [of "rev t @ 47 # rev b"] ne t(4) by simp
  then have lc: "last_comp (b @ 47 # t) = (rev t, 47 # rev b)"
    using t(3) by (simp add: last_comp_def takeWhile_dropWhile_sep)
  have "rev t \<noteq> [46]" "rev t \<noteq> [46, 46]"
    using t(4) ne(3) by (metis list.sel(1))+
  moreover have "rev (file_stem_rev (rev t)) = s"
  proof (cases "e = []")
    case True
    then have "46 \<notin> set (rev t)" using s t(1) by auto
    then have "dropWhile (\<lambda>c. c \<noteq> 46) (rev t) = []" by auto
    with True show ?thesis by (simp add: file_stem_rev_def t(1))
  next
    case False
    then obtain x where x: "e = 46 # x" "46 \<notin> set x" using s by blast
    have "dropWhile (\<lambda>c. c \<noteq> 46) (rev t) = 46 # rev s"
      using x by (simp add: t(1) dropWhile_append)
    then show ?thesis using t(2) by (simp add: file_stem_rev_def)
  qed
  ultimately show ?thesis using ne(2) by (simp add: with_extension_def lc)
qed

lemma join_plain: "dir_path b \<Longrightarrow> 47 \<notin> set t \<Longrightarrow> path_join b t = b @ 47 # t"
  by (cases t) (auto simp: path_join_def dir_path_def)

lemma last_avoids: "t \<noteq> [] \<Longrightarrow> c \<notin> set t \<Longrightarrow> last t \<noteq> c"
  using last_in_set [of t] by auto

lemma context_path_plain:
  assumes "dir_path b" "plain_name t"
  shows "with_extension (path_join b t) ext = b @ 47 # t @ 46 # ext"
  using with_extension_name [of t t "[]" b ext] assms
  by (auto simp: plain_name_def join_plain last_avoids)

lemma context_path_dotted:
  assumes "dir_path b" "plain_name t" "plain_name x"
  shows "with_extension (path_join b (t @ 46 # x)) ext = b @ 47 # t @ 46 # ext"
  using with_extension_name [of "t @ 46 # x" t "46 # x" b ext] assms
  by (auto simp: plain_name_def join_plain last_avoids)

section \<open>The operating system and the file store\<close>

datatype io_error = OsError nat | WriteZero

record os =
  os_write :: "nat \<Rightarrow> nat \<Rightarrow> io_error + nat"
  os_create :: "nat \<Rightarrow> rstr \<Rightarrow> io_error option"
  os_mkdir :: "nat \<Rightarrow> rstr \<Rightarrow> io_error option"
  os_resolve :: "rstr \<Rightarrow> rstr"

record fs =
  names :: "rstr \<Rightarrow> nat option"
  inodes :: "nat \<Rightarrow> byte list"
  next_ino :: nat
  ticks :: nat

record fhandle =
  f_ino :: nat
  f_pos :: nat

definition empty_fs :: fs where
  "empty_fs = \<lparr>names = Map.empty, inodes = (\<lambda>_. []), next_ino = 0, ticks = 0\<rparr>"

text \<open>Every named inode has been allocated.\<close>

definition fs_ok :: "fs \<Rightarrow> bool" where
  "fs_ok f \<longleftrightarrow> (\<forall>p i. names f p = Some i \<longrightarrow> i < next_ino f)"

text \<open>\<open>fs::create_dir_all\<close>; the empty path is accepted without a system call.\<close>

definition create_dir_all :: "'z os_scheme \<Rightarrow> rstr \<Rightarrow> (fs, io_error, unit) act" where
  "create_dir_all E p f =
     (if p = [] then (Ok (), f)
      else case os_mkdir E (ticks f) p of
             None \<Rightarrow> (Ok (), f\<lparr>ticks := Suc (ticks f)\<rparr>)
           | Some e \<Rightarrow> (Err e, f\<lparr>ticks := Suc (ticks f)\<rparr>))"

text \<open>\<open>File::create\<close>: truncates an existing file, or makes a new one.\<close>

definition file_create :: "'z os_scheme \<Rightarrow> rstr \<Rightarrow> (fs, io_error, fhandle) act" where
  "file_create E p f =
     (let g = f\<lparr>ticks := Suc (ticks f)\<rparr> in
      case os_create E (ticks f) p of
        Some e \<Rightarrow> (Err e, g)
      | None \<Rightarrow>
          (case names f (os_resolve E p) of
             Some i \<Rightarrow> (Ok \<lparr>f_ino = i, f_pos = 0\<rparr>, g\<lparr>inodes := (inodes f)(i := [])\<rparr>)
           | None \<Rightarrow>
               (Ok \<lparr>f_ino = next_ino f, f_pos = 0\<rparr>,
                g\<lparr>names := (names f)(os_resolve E p \<mapsto> next_ino f),
                  inodes := (inodes f)(next_ino f := []),
                  next_ino := Suc (next_ino f)\<rparr>)))"

text \<open>Writing at a cursor: the gap before it, if any, is filled with zero bytes.\<close>

definition overwrite :: "byte list \<Rightarrow> nat \<Rightarrow> byte list \<Rightarrow> byte list" where
  "overwrite xs pos ys =
     take pos xs @ replicate (pos - length xs) 0 @ ys @ drop (pos + length ys) xs"

lemma overwrite_end [simp]: "overwrite xs (length xs) ys = xs @ ys"
  by (simp add: overwrite_def)

text \<open>One \<open>write\<close> system call on a handle.\<close>

definition file_write :: "'z os_scheme \<Rightarrow> fhandle \<Rightarrow> byte list \<Rightarrow> (fs, io_error, nat) act" where
  "file_write E h bs f =
     (let g = f\<lparr>ticks := Suc (ticks f)\<rparr> in
      case os_write E (ticks f) (length bs) of
        Inl e \<Rightarrow> (Err e, g)
      | Inr n \<Rightarrow>
          let k = min n (length bs)
          in (Ok k, g\<lparr>inodes := (inodes f)(f_ino h :=
                overwrite (inodes f (f_ino h)) (f_pos h) (take k bs))\<rparr>))"

text \<open>
  The loop of \<open>Write::write_all\<close> and of \<open>BufWriter::flush_buf\<close>: write until nothing
  remains; a write of zero bytes is an error.  The result carries the bytes not written.
\<close>

function write_loop ::
  "'z os_scheme \<Rightarrow> fhandle \<Rightarrow> byte list \<Rightarrow> fs \<Rightarrow> (io_error, unit) res \<times> byte list \<times> fhandle \<times> fs" where
  "write_loop E h bs f =
     (if bs = [] then (Ok (), [], h, f)
      else case file_write E h bs f of
             (Ok n, g) \<Rightarrow>
               if n = 0 then (Err WriteZero, bs, h, g)
               else write_loop E (h\<lparr>f_pos := f_pos h + n\<rparr>) (drop n bs) g
           | (Err e, g) \<Rightarrow> (Err e, bs, h, g)
           | (Panic p, g) \<Rightarrow> (Panic p, bs, h, g))"
  by pat_completeness auto
termination
  by (relation "measure (\<lambda>(E, h, bs, f). length bs)") auto

declare write_loop.simps [simp del]

text \<open>What a run of the loop leaves behind, when the cursor is at the end of the file.\<close>

definition appended :: "fs \<Rightarrow> fhandle \<Rightarrow> byte list \<Rightarrow> fs \<Rightarrow> fhandle \<Rightarrow> bool" where
  "appended f h done g k \<longleftrightarrow>
     inodes g = (inodes f)(f_ino h := inodes f (f_ino h) @ done) \<and>
     names g = names f \<and> next_ino g = next_ino f \<and>
     f_ino k = f_ino h \<and> f_pos k = f_pos h + length done"

lemma appended_trans:
  "appended f h a g k \<Longrightarrow> appended g k b i l \<Longrightarrow> appended f h (a @ b) i l"
  by (auto simp: appended_def)

lemma appended_Nil: "inodes g = inodes f \<Longrightarrow> names g = names f \<Longrightarrow> next_ino g = next_ino f \<Longrightarrow>
    appended f h [] g h"
  by (simp add: appended_def)

definition at_end :: "fs \<Rightarrow> fhandle \<Rightarrow> bool" where
  "at_end f h \<longleftrightarrow> f_pos h = length (inodes f (f_ino h))"

lemma appended_at_end: "appended f h a g k \<Longrightarrow> at_end f h \<Longrightarrow> at_end g k"
  by (simp add: appended_def at_end_def)

lemma file_write_appended:
  assumes "file_write E h bs f = (r, g)" "at_end f h"
  shows "(\<exists>n\<le>length bs. r = Ok n \<and> appended f h (take n bs) g (h\<lparr>f_pos := f_pos h + n\<rparr>)) \<or>
    (\<exists>e. r = Err e \<and> appended f h [] g h)"
  using assms by (auto simp: file_write_def at_end_def appended_def Let_def split: sum.splits)

lemma write_loop_spec:
  assumes "write_loop E h bs f = (r, rem, k, g)" "at_end f h"
  shows "\<exists>done. bs = done @ rem \<and> appended f h done g k \<and>
           (r = Ok () \<and> rem = [] \<or> (\<exists>e. r = Err e) \<and> rem \<noteq> [])"
  using assms
proof (induction E h bs f arbitrary: r rem k g rule: write_loop.induct)
  case (1 E h bs f)
  show ?case
  proof (cases "bs = []")
    case True
    with "1.prems"(1) show ?thesis
      by (subst (asm) write_loop.simps) (simp add: appended_Nil)
  next
    case False
    obtain w g1 where w: "file_write E h bs f = (w, g1)" by force
    from file_write_appended [OF w "1.prems"(2)] show ?thesis
    proof (elim disjE exE conjE)
      fix n assume n: "n \<le> length bs" "w = Ok n"
        "appended f h (take n bs) g1 (h\<lparr>f_pos := f_pos h + n\<rparr>)"
      show ?thesis
      proof (cases "n = 0")
        case True
        with "1.prems"(1) False w n show ?thesis
          by (subst (asm) write_loop.simps) (auto simp: appended_def)
      next
        case nz: False
        have eq: "write_loop E (h\<lparr>f_pos := f_pos h + n\<rparr>) (drop n bs) g1 = (r, rem, k, g)"
          using "1.prems"(1) False w n(2) nz by (subst (asm) write_loop.simps) simp
        have e: "at_end g1 (h\<lparr>f_pos := f_pos h + n\<rparr>)"
          using appended_at_end [OF n(3) "1.prems"(2)] .
        obtain d where "drop n bs = d @ rem" "appended g1 (h\<lparr>f_pos := f_pos h + n\<rparr>) d g k"
          "r = Ok () \<and> rem = [] \<or> (\<exists>e. r = Err e) \<and> rem \<noteq> []"
          using "1.IH" [OF False w [symmetric] n(2) nz eq e] by blast
        moreover have "bs = take n bs @ drop n bs" by simp
        ultimately show ?thesis using appended_trans [OF n(3)]
          by (metis append.assoc)
      qed
    next
      fix e assume "w = Err e" "appended f h [] g1 h"
      with "1.prems"(1) False w show ?thesis
        by (subst (asm) write_loop.simps) auto
    qed
  qed
qed

text \<open>Wherever the cursor is, only the file of the handle is written.\<close>

lemma write_loop_local:
  "write_loop E h bs f = (r, rem, k, g) \<Longrightarrow> f_ino k = f_ino h \<and> names g = names f \<and>
     next_ino g = next_ino f \<and> (\<forall>j. j \<noteq> f_ino h \<longrightarrow> inodes g j = inodes f j)"
proof (induction E h bs f arbitrary: r rem k g rule: write_loop.induct)
  case (1 E h bs f)
  obtain w g1 where w: "file_write E h bs f = (w, g1)" by force
  have g1: "names g1 = names f" "next_ino g1 = next_ino f" "\<forall>j. j \<noteq> f_ino h \<longrightarrow> inodes g1 j = inodes f j"
    using w by (auto simp: file_write_def Let_def split: sum.splits)
  show ?case
  proof (cases "bs = [] \<or> \<not> is_ok w \<or> w = Ok 0")
    case True
    then show ?thesis using "1.prems" w g1 by (cases w) (auto simp: write_loop.simps [of E h bs f] split: if_splits)
  next
    case False
    then obtain n where n: "bs \<noteq> []" "w = Ok n" "n \<noteq> 0" by (cases w) auto
    have "write_loop E (h\<lparr>f_pos := f_pos h + n\<rparr>) (drop n bs) g1 = (r, rem, k, g)"
      using "1.prems" n w by (simp add: write_loop.simps [of E h bs f])
    from "1.IH" [OF n(1) w [symmetric] n(2,3) this] g1 show ?thesis by simp
  qed
qed

section \<open>Buffered writers\<close>

text \<open>
  \<open>BufWriter<File>\<close> with the default capacity.  \<open>flush_buf\<close> keeps the bytes it could not
  write; \<open>write_all\<close> appends to the buffer when there is room, and otherwise flushes
  first and writes large data through.
\<close>

record bufw =
  bw_file :: fhandle
  bw_buf :: "byte list"

definition bw_capacity :: nat where
  "bw_capacity = 8192"

definition bw_new :: "fhandle \<Rightarrow> bufw" where
  "bw_new h = \<lparr>bw_file = h, bw_buf = []\<rparr>"

definition bw_flush_buf :: "'z os_scheme \<Rightarrow> (fs \<times> bufw, io_error, unit) act" where
  "bw_flush_buf E s =
     (case s of (f, w) \<Rightarrow>
        case write_loop E (bw_file w) (bw_buf w) f of
          (r, rem, k, g) \<Rightarrow> (r, (g, \<lparr>bw_file = k, bw_buf = rem\<rparr>)))"

definition bw_through :: "'z os_scheme \<Rightarrow> byte list \<Rightarrow> (fs \<times> bufw, io_error, unit) act" where
  "bw_through E bs s =
     (case s of (f, w) \<Rightarrow>
        case write_loop E (bw_file w) bs f of
          (r, rem, k, g) \<Rightarrow> (r, (g, w\<lparr>bw_file := k\<rparr>)))"

definition bw_push :: "byte list \<Rightarrow> (fs \<times> bufw, io_error, unit) act" where
  "bw_push bs s = (case s of (f, w) \<Rightarrow> (Ok (), (f, w\<lparr>bw_buf := bw_buf w @ bs\<rparr>)))"

definition bw_write_all :: "'z os_scheme \<Rightarrow> byte list \<Rightarrow> (fs \<times> bufw, io_error, unit) act" where
  "bw_write_all E bs s =
     (if length bs < bw_capacity - length (bw_buf (snd s)) then bw_push bs s
      else seq_act
             (guarded (bw_capacity - length (bw_buf (snd s)) < length bs) (bw_flush_buf E))
             (if bw_capacity \<le> length bs then bw_through E bs else bw_push bs) s)"

text \<open>\<open>BufWriter::flush\<close>; flushing the \<open>File\<close> below it does nothing.\<close>

definition bw_flush :: "'z os_scheme \<Rightarrow> (fs \<times> bufw, io_error, unit) act" where
  "bw_flush E = bw_flush_buf E"

text \<open>Dropping a writer flushes it and ignores the result.\<close>

definition bw_drop :: "'z os_scheme \<Rightarrow> bufw \<Rightarrow> fs \<Rightarrow> fs" where
  "bw_drop E w f = fst (snd (bw_flush_buf E (f, w)))"

text \<open>The bytes accepted so far, those on the file, and the invariant of a writer.\<close>

definition bw_stream :: "fs \<times> bufw \<Rightarrow> byte list" where
  "bw_stream s = inodes (fst s) (f_ino (bw_file (snd s))) @ bw_buf (snd s)"

definition bw_disk :: "fs \<times> bufw \<Rightarrow> byte list" where
  "bw_disk s = inodes (fst s) (f_ino (bw_file (snd s)))"

definition bw_ok :: "fs \<times> bufw \<Rightarrow> bool" where
  "bw_ok s \<longleftrightarrow> at_end (fst s) (bw_file (snd s)) \<and> length (bw_buf (snd s)) \<le> bw_capacity \<and>
     f_ino (bw_file (snd s)) < next_ino (fst s)"

text \<open>An operation of a writer touches the contents of its own inode only.\<close>

definition bw_local :: "fs \<times> bufw \<Rightarrow> fs \<times> bufw \<Rightarrow> bool" where
  "bw_local s t \<longleftrightarrow>
     f_ino (bw_file (snd t)) = f_ino (bw_file (snd s)) \<and>
     (\<forall>j. j \<noteq> f_ino (bw_file (snd s)) \<longrightarrow> inodes (fst t) j = inodes (fst s) j) \<and>
     names (fst t) = names (fst s) \<and> next_ino (fst t) = next_ino (fst s)"

lemma bw_local_refl [simp]: "bw_local s s"
  by (simp add: bw_local_def)

lemma bw_local_trans: "bw_local s t \<Longrightarrow> bw_local t u \<Longrightarrow> bw_local s u"
  by (simp add: bw_local_def)

text \<open>The specification of one operation that is to append \<open>bs\<close>.\<close>

definition bw_appends :: "byte list \<Rightarrow> (fs \<times> bufw, io_error, unit) act \<Rightarrow> bool" where
  "bw_appends bs m \<longleftrightarrow>
     (\<forall>s r t. bw_ok s \<longrightarrow> m s = (r, t) \<longrightarrow>
        bw_ok t \<and> bw_local s t \<and> (\<forall>p. r \<noteq> Panic p) \<and>
        (if is_ok r then bw_stream t = bw_stream s @ bs
         else \<exists>k. bw_stream t = bw_stream s @ take k bs))"

lemma bw_appends_prefix:
  "bw_appends bs m \<Longrightarrow> bw_ok s \<Longrightarrow> m s = (r, t) \<Longrightarrow> \<exists>k. bw_stream t = bw_stream s @ take k bs"
  unfolding bw_appends_def by (metis take_all order_refl)

lemma bw_flush_buf_spec:
  assumes "bw_ok s" "bw_flush_buf E s = (r, t)"
  shows "bw_ok t \<and> bw_local s t \<and> bw_stream t = bw_stream s \<and>
    (r = Ok () \<and> bw_buf (snd t) = [] \<or> (\<exists>e. r = Err e))"
proof -
  obtain f w where s: "s = (f, w)" by (cases s)
  obtain rem k g where l: "write_loop E (bw_file w) (bw_buf w) f = (r, rem, k, g)"
      "t = (g, \<lparr>bw_file = k, bw_buf = rem\<rparr>)"
    using assms(2) by (auto simp: bw_flush_buf_def s split: prod.splits)
  have e: "at_end f (bw_file w)" using assms(1) by (simp add: bw_ok_def s)
  from write_loop_spec [OF l(1) e] obtain d where d: "bw_buf w = d @ rem"
      "appended f (bw_file w) d g k" "r = Ok () \<and> rem = [] \<or> (\<exists>e. r = Err e) \<and> rem \<noteq> []"
    by blast
  then show ?thesis
    using assms(1) appended_at_end [OF d(2) e]
    by (auto simp: bw_ok_def bw_local_def bw_stream_def s l(2) appended_def)
qed

lemma bw_through_spec:
  assumes "bw_ok s" "bw_buf (snd s) = []"  "bw_through E bs s = (r, t)"
  shows "bw_ok t \<and> bw_local s t \<and> (\<forall>p. r \<noteq> Panic p) \<and>
    (if is_ok r then bw_stream t = bw_stream s @ bs
     else \<exists>k. bw_stream t = bw_stream s @ take k bs)"
proof -
  obtain f w where s: "s = (f, w)" by (cases s)
  obtain rem k g where l: "write_loop E (bw_file w) bs f = (r, rem, k, g)"
      "t = (g, w\<lparr>bw_file := k\<rparr>)"
    using assms(3) by (auto simp: bw_through_def s split: prod.splits)
  have e: "at_end f (bw_file w)" using assms(1) by (simp add: bw_ok_def s)
  from write_loop_spec [OF l(1) e] obtain d where d: "bs = d @ rem"
      "appended f (bw_file w) d g k" "r = Ok () \<and> rem = [] \<or> (\<exists>e. r = Err e) \<and> rem \<noteq> []"
    by blast
  have pre: "take (length d) bs = d" by (simp add: d(1))
  have st: "bw_stream t = bw_stream s @ d"
    using d(2) assms(2) by (auto simp: bw_stream_def s l(2) appended_def)
  have inv: "bw_ok t \<and> bw_local s t"
    using d(2) assms(1,2) appended_at_end [OF d(2) e]
    by (auto simp: bw_ok_def bw_local_def s l(2) appended_def)
  from d(3) show ?thesis
  proof (elim disjE conjE exE)
    assume "r = Ok ()" "rem = []"
    then show ?thesis using st inv d(1) by simp
  next
    fix x assume "r = Err x"
    moreover have "\<exists>k. bw_stream t = bw_stream s @ take k bs"
      using st pre by metis
    ultimately show ?thesis using inv by simp
  qed
qed

lemma bw_push_spec:
  assumes "bw_ok s" "length (bw_buf (snd s)) + length bs \<le> bw_capacity" "bw_push bs s = (r, t)"
  shows "bw_ok t \<and> bw_local s t \<and> r = Ok () \<and> bw_stream t = bw_stream s @ bs"
  using assms by (auto simp: bw_push_def bw_ok_def bw_local_def bw_stream_def split: prod.splits)

lemma bw_write_all_appends: "bw_appends bs (bw_write_all E bs)"
  unfolding bw_appends_def
proof (intro allI impI)
  fix s r t assume ok: "bw_ok s" and m: "bw_write_all E bs s = (r, t)"
  let ?room = "bw_capacity - length (bw_buf (snd s))"
  have len: "length (bw_buf (snd s)) \<le> bw_capacity" "0 < bw_capacity"
    using ok by (simp_all add: bw_ok_def bw_capacity_def)
  have z: "bw_buf (snd s) = []" if "bw_capacity \<le> ?room"
    using that len by (cases "bw_buf (snd s)") auto
  show "bw_ok t \<and> bw_local s t \<and> (\<forall>p. r \<noteq> Panic p) \<and>
        (if is_ok r then bw_stream t = bw_stream s @ bs
         else \<exists>k. bw_stream t = bw_stream s @ take k bs)"
  proof (cases "length bs \<le> ?room")
    case True
    then have push: "bw_push bs s = (r, t) \<or>
        ?room = length bs \<and> bw_buf (snd s) = [] \<and> bw_through E bs s = (r, t)"
      using m len z by (auto simp: bw_write_all_def guarded_def split: if_splits)
    have fits: "length (bw_buf (snd s)) + length bs \<le> bw_capacity" using True len by linarith
    from push show ?thesis
    proof (elim disjE conjE)
      assume "bw_push bs s = (r, t)"
      from bw_push_spec [OF ok fits this] show ?thesis by simp
    next
      assume "bw_buf (snd s) = []" "bw_through E bs s = (r, t)"
      from bw_through_spec [OF ok this] show ?thesis .
    qed
  next
    case False
    then have m': "seq_act (bw_flush_buf E)
        (if bw_capacity \<le> length bs then bw_through E bs else bw_push bs) s = (r, t)"
      using m by (simp add: bw_write_all_def)
    obtain r1 s1 where fl: "bw_flush_buf E s = (r1, s1)" by (meson surj_pair)
    note spec = bw_flush_buf_spec [OF ok fl]
    show ?thesis
    proof (cases r1)
      case (Ok u)
      then have e: "bw_ok s1" "bw_local s s1" "bw_stream s1 = bw_stream s" "bw_buf (snd s1) = []"
        using spec by auto
      show ?thesis
      proof (cases "bw_capacity \<le> length bs")
        case True
        then have "bw_through E bs s1 = (r, t)" using m' fl Ok by simp
        from bw_through_spec [OF e(1,4) this] show ?thesis
          using e(3) bw_local_trans [OF e(2)] by (simp split: if_splits)
      next
        case False
        then have "bw_push bs s1 = (r, t)" using m' fl Ok by simp
        from bw_push_spec [OF e(1) _ this] show ?thesis
          using e(3,4) bw_local_trans [OF e(2)] False by simp
      qed
    next
      case (Err x)
      then have "r = Err x" "t = s1" using m' fl by simp_all
      then show ?thesis using spec by (auto intro: exI [of _ 0])
    next
      case (Panic p)
      then show ?thesis using spec by auto
    qed
  qed
qed

section \<open>What the loggers need of a writer\<close>

text \<open>
  A byte sink accepts data in order: after a successful \<open>write_all\<close> the accepted stream
  has grown by exactly the data, after a failed one by a prefix of it, and it never panics.
  Inside the locale, writing a formatted line piece by piece has the same contract.
\<close>

locale byte_sink =
  fixes write_all :: "byte list \<Rightarrow> ('s, 'e, unit) act"
    and stream :: "'s \<Rightarrow> byte list"
    and inv :: "'s \<Rightarrow> bool"
  assumes write_inv: "keeps inv (write_all bs)"
    and write_ok: "inv s \<Longrightarrow> write_all bs s = (Ok (), t) \<Longrightarrow> stream t = stream s @ bs"
    and write_prefix: "inv s \<Longrightarrow> write_all bs s = (r, t) \<Longrightarrow> \<exists>k. stream t = stream s @ take k bs"
    and write_no_panic: "inv s \<Longrightarrow> write_all bs s \<noteq> (Panic p, t)"
begin

lemma pieces_inv: "keeps inv (for_each write_all ps)"
  by (intro keeps_rules write_inv)

lemma pieces_ok:
  "inv s \<Longrightarrow> for_each write_all ps s = (Ok (), t) \<Longrightarrow> stream t = stream s @ concat ps"
proof (induction ps arbitrary: s)
  case (Cons p ps)
  from Cons.prems(2) obtain u where u: "write_all p s = (Ok (), u)" "for_each write_all ps u = (Ok (), t)"
    by (auto elim: seq_act_OkE)
  then show ?case
    using Cons.IH [OF keepsD [OF write_inv Cons.prems(1) u(1)] u(2)] write_ok [OF Cons.prems(1) u(1)]
    by simp
qed simp

lemma pieces_prefix:
  "inv s \<Longrightarrow> for_each write_all ps s = (r, t) \<Longrightarrow> \<exists>k. stream t = stream s @ take k (concat ps)"
proof (induction ps arbitrary: s)
  case (Cons p ps)
  obtain x u where u: "write_all p s = (x, u)" by force
  show ?case
  proof (cases x)
    case (Ok a)
    then have "for_each write_all ps u = (r, t)" using Cons.prems(2) u by simp
    from Cons.IH [OF keepsD [OF write_inv Cons.prems(1) u] this]
    obtain k where "stream t = stream s @ p @ take k (concat ps)"
      using write_ok [OF Cons.prems(1)] u Ok by auto
    then have "stream t = stream s @ take (length p + k) (concat (p # ps))" by simp
    then show ?thesis by blast
  next
    case (Err e)
    then have "t = u" using Cons.prems(2) u by simp
    then obtain k where "stream t = stream s @ take k p"
      using write_prefix [OF Cons.prems(1) u] by blast
    then have "stream t = stream s @ take (min k (length p)) (concat (p # ps))"
      by (cases "k \<le> length p") (simp_all add: min_def)
    then show ?thesis by blast
  next
    case (Panic m)
    then show ?thesis using write_no_panic [OF Cons.prems(1)] u by blast
  qed
qed (simp add: exI [of _ 0])

lemma pieces_no_panic: "inv s \<Longrightarrow> for_each write_all ps s \<noteq> (Panic m, t)"
proof (induction ps arbitrary: s)
  case (Cons p ps)
  obtain x u where u: "write_all p s = (x, u)" by force
  then show ?case
    using write_no_panic [OF Cons.prems] Cons.IH [OF keepsD [OF write_inv Cons.prems u]]
    by (cases x) auto
qed simp

end

text \<open>A sink that can also be flushed: then what it accepted is what the disk holds.\<close>

locale flushable_sink = byte_sink write_all stream inv
  for write_all :: "byte list \<Rightarrow> ('s, 'e, unit) act"
    and stream :: "'s \<Rightarrow> byte list"
    and inv :: "'s \<Rightarrow> bool" +
  fixes flush :: "('s, 'e, unit) act"
    and disk :: "'s \<Rightarrow> byte list"
  assumes flush_inv: "keeps inv flush"
    and flush_stream: "inv s \<Longrightarrow> flush s = (r, t) \<Longrightarrow> stream t = stream s"
    and flush_ok: "inv s \<Longrightarrow> flush s = (Ok (), t) \<Longrightarrow> disk t = stream t"
begin

lemma pieces_then_flush:
  assumes "inv s" "seq_act (for_each write_all ps) flush s = (Ok (), t)"
  shows "disk t = stream s @ concat ps"
proof -
  obtain u where u: "for_each write_all ps s = (Ok (), u)" "flush u = (Ok (), t)"
    using assms(2) by (auto elim: seq_act_OkE)
  note i = keepsD [OF pieces_inv assms(1) u(1)]
  show ?thesis
    using flush_ok [OF i u(2)] flush_stream [OF i u(2)] pieces_ok [OF assms(1) u(1)] by simp
qed

end

interpretation bw: flushable_sink "bw_write_all E" bw_stream bw_ok "bw_flush E" bw_disk
proof unfold_locales
  fix bs s r t p
  note app = bw_write_all_appends [of bs E, unfolded bw_appends_def, rule_format]
  show "keeps bw_ok (bw_write_all E bs)"
    by (rule keeps_pairI) (use app in blast)
  show "bw_stream t = bw_stream s @ bs" if "bw_ok s" "bw_write_all E bs s = (Ok (), t)"
    using app [OF that] by simp
  show "\<exists>k. bw_stream t = bw_stream s @ take k bs" if "bw_ok s" "bw_write_all E bs s = (r, t)"
    using bw_appends_prefix [OF bw_write_all_appends that] .
  show "bw_write_all E bs s \<noteq> (Panic p, t)" if "bw_ok s"
    using app [OF that, of "Panic p" t] by auto
  show "keeps bw_ok (bw_flush E)"
    unfolding bw_flush_def by (rule keeps_pairI) (use bw_flush_buf_spec in blast)
  show "bw_stream t = bw_stream s" if "bw_ok s" "bw_flush E s = (r, t)"
    using bw_flush_buf_spec that by (metis bw_flush_def)
  show "bw_disk t = bw_stream t" if "bw_ok s" "bw_flush E s = (Ok (), t)"
    using bw_flush_buf_spec [OF that(1), of E] that(2)
    by (auto simp: bw_flush_def bw_disk_def bw_stream_def)
qed

text \<open>The locality of the operations, lifted to sequences of writes.\<close>

lemma bw_write_all_local: "bw_ok s \<Longrightarrow> bw_write_all E bs s = (r, t) \<Longrightarrow> bw_local s t"
  using bw_write_all_appends [of bs E] unfolding bw_appends_def by blast

lemma bw_pieces_local:
  "bw_ok s \<Longrightarrow> for_each (bw_write_all E) ps s = (r, t) \<Longrightarrow> bw_local s t"
proof (induction ps arbitrary: s)
  case (Cons p ps)
  obtain x u where u: "bw_write_all E p s = (x, u)" by (meson surj_pair)
  note l = bw_write_all_local [OF Cons.prems(1) u]
  show ?case
  proof (cases x)
    case (Ok a)
    then show ?thesis
      using Cons.prems u bw_local_trans [OF l] Cons.IH [OF keepsD [OF bw.write_inv Cons.prems(1) u]]
      by simp
  qed (use Cons.prems u l in auto)
qed simp

lemma bw_pieces_appends: "bw_appends (concat ps) (for_each (bw_write_all E) ps)"
  unfolding bw_appends_def
proof (intro allI impI)
  fix s r t assume ok: "bw_ok s" and m: "for_each (bw_write_all E) ps s = (r, t)"
  have "is_ok r \<Longrightarrow> r = Ok ()" by (cases r) auto
  moreover have "r \<noteq> Panic p" for p
    using m bw.pieces_no_panic [OF ok, of E ps p t] by auto
  ultimately show "bw_ok t \<and> bw_local s t \<and> (\<forall>p. r \<noteq> Panic p) \<and>
      (if is_ok r then bw_stream t = bw_stream s @ concat ps
       else \<exists>k. bw_stream t = bw_stream s @ take k (concat ps))"
    using keepsD [OF bw.pieces_inv ok m] bw_pieces_local [OF ok m] bw.pieces_prefix [OF ok m]
      bw.pieces_ok [OF ok, of E ps t] m by auto
qed


section \<open>A disk that accepts every write\<close>

definition reliable :: "'z os_scheme \<Rightarrow> bool" where
  "reliable E \<longleftrightarrow> (\<forall>k n. 0 < n \<longrightarrow> (\<exists>m>0. os_write E k n = Inr m))"

lemma write_loop_reliable: "reliable E \<Longrightarrow> fst (write_loop E h bs f) = Ok ()"
proof (induction E h bs f rule: write_loop.induct)
  case (1 E h bs f)
  show ?case
  proof (cases "bs = []")
    case True
    then show ?thesis by (simp add: write_loop.simps)
  next
    case False
    then obtain m where m: "0 < m" "os_write E (ticks f) (length bs) = Inr m"
      using "1.prems" unfolding reliable_def by (meson length_greater_0_conv)
    obtain r g where w: "file_write E h bs f = (r, g)" by (meson surj_pair)
    then have r: "r = Ok (min m (length bs))" using m(2) by (auto simp: file_write_def Let_def)
    moreover have "min m (length bs) \<noteq> 0" using m(1) False by simp
    ultimately show ?thesis
      using "1.IH" [OF False w [symmetric] r] "1.prems" False w
      by (subst write_loop.simps) simp
  qed
qed

lemma bw_flush_reliable: "reliable E \<Longrightarrow> never_fails (bw_flush E)"
  using write_loop_reliable [of E]
  by (auto simp: never_fails_def bw_flush_def bw_flush_buf_def split: prod.splits)
    (metis fst_conv is_ok.simps(1))

lemma bw_write_all_reliable: "reliable E \<Longrightarrow> never_fails (bw_write_all E bs)"
proof -
  assume rel: "reliable E"
  have push: "never_fails (bw_push bs)" by (simp add: never_fails_def bw_push_def split: prod.splits)
  have through: "never_fails (bw_through E bs)"
    using write_loop_reliable [OF rel]
    by (auto simp: never_fails_def bw_through_def split: prod.splits)
      (metis fst_conv is_ok.simps(1))
  have steps: "is_ok (fst (seq_act (guarded b (bw_flush_buf E)) (if c then bw_through E bs else bw_push bs) s))"
    for b c s
  proof -
    have "never_fails (seq_act (guarded b (bw_flush_buf E)) (if c then bw_through E bs else bw_push bs))"
      using push through bw_flush_reliable [OF rel]
      by (intro ok_rules) (simp_all add: bw_flush_def)
    then show ?thesis unfolding never_fails_def by (rule spec)
  qed
  have "is_ok (fst (bw_push bs s))" for s
    using push unfolding never_fails_def by (rule spec)
  then have "is_ok (fst (bw_write_all E bs s))" for s
    unfolding bw_write_all_def
    by (cases "length bs < bw_capacity - length (bw_buf (snd s))")
      (simp_all only: if_True if_False steps)
  then show ?thesis by (simp add: never_fails_def)
qed

end
