(* ===== verification/Log_Data.thy ===== *)
theory Log_Data
  imports Log_Level Rust_Files
begin

text \<open>
  \<open>src/logger/log_data.rs\<close> and the configuration of \<open>src/logger/mod.rs\<close>: one log record,
  its three renderings, and its default.  The record \<open>env\<close> extends the operating system
  with the third-party functions the program calls: chrono's formatting and Unix seconds
  of a timestamp and itertools' \<open>chunks\<close>.  A timestamp is an opaque instant.
\<close>

type_synonym instant = int

record env = os +
  chrono_format :: "instant \<Rightarrow> rstr"
  chrono_secs :: "instant \<Rightarrow> 64 word"
  it_chunks :: "nat \<Rightarrow> rstr \<Rightarrow> rstr list option"

record log_data =
  level :: log_level
  tag :: "rstr option"
  message :: rstr
  timestamp :: instant
  file_name :: rstr
  line :: "32 word"
  column :: "32 word"
  function_name :: "rstr option"

record logger_config =
  max_string_len :: nat
  log_max_buffer_count :: nat
  line_end :: uchar
  context_log_path :: rstr

definition default_config :: logger_config where
  "default_config = \<lparr>max_string_len = 1024, log_max_buffer_count = 100, line_end = 10,
     context_log_path = lit ''./logs''\<rparr>"

definition DEFAULT_TAG :: rstr where
  "DEFAULT_TAG = lit ''GLOBAL''"

definition log_data_new ::
  "log_level \<Rightarrow> rstr option \<Rightarrow> rstr \<Rightarrow> rstr \<Rightarrow> 32 word \<Rightarrow> 32 word \<Rightarrow> rstr option \<Rightarrow> instant \<Rightarrow> log_data" where
  "log_data_new lv tg msg fl ln col fn now =
     \<lparr>level = lv, tag = tg, message = msg, timestamp = now, file_name = fl, line = ln,
      column = col, function_name = fn\<rparr>"

definition log_data_default :: "instant \<Rightarrow> log_data" where
  "log_data_default now =
     \<lparr>level = Info, tag = None, message = [], timestamp = now, file_name = [], line = 0,
      column = 0, function_name = None\<rparr>"

definition unwrap_or :: "'a option \<Rightarrow> 'a \<Rightarrow> 'a" where
  "unwrap_or x d = (case x of None \<Rightarrow> d | Some a \<Rightarrow> a)"

lemma unwrap_or_simps [simp]: "unwrap_or None d = d" "unwrap_or (Some a) d = a"
  by (simp_all add: unwrap_or_def)

definition show_u32 :: "32 word \<Rightarrow> rstr" where
  "show_u32 w = show_nat (unat w)"

text \<open>The source location shared by the renderings: \<open>[file:line:column @ function]\<close>.\<close>

definition loc_pieces :: "rstr \<Rightarrow> log_data \<Rightarrow> rstr list" where
  "loc_pieces fn d =
     [file_name d, lit '':'', show_u32 (line d), lit '':'', show_u32 (column d), lit '' @ '', fn]"

text \<open>
  \<open>LogData::format\<close>, and the pieces that \<open>writeln!\<close> hands to the writer one by one in
  \<open>write_to_io\<close> and \<open>write_compact_to_io\<close>.
\<close>

definition log_format :: "'z env_scheme \<Rightarrow> log_data \<Rightarrow> rstr" where
  "log_format E d =
     level_display (level d) @ lit '' '' @ chrono_format E (timestamp d) @ lit '' ['' @
     unwrap_or (tag d) DEFAULT_TAG @ lit ''] ['' @
     concat (loc_pieces (unwrap_or (function_name d) (lit ''default'')) d) @ lit ''] '' @ message d"

definition full_pieces :: "'z env_scheme \<Rightarrow> log_data \<Rightarrow> rstr list" where
  "full_pieces E d =
     [[level_short (level d)], lit '' '', chrono_format E (timestamp d), lit '' ['',
      unwrap_or (tag d) DEFAULT_TAG, lit ''] [''] @
     loc_pieces (unwrap_or (function_name d) (lit ''default'')) d @ [lit ''] '', message d, [10]]"

definition compact_pieces :: "'z env_scheme \<Rightarrow> log_data \<Rightarrow> rstr list" where
  "compact_pieces E d =
     [[level_short (level d)], lit '' '', chrono_format E (timestamp d), lit '' [''] @
     loc_pieces (unwrap_or (function_name d) (lit ''default'')) d @ [lit ''] '', message d, [10]]"

definition write_to_io :: "'z env_scheme \<Rightarrow> log_data \<Rightarrow> (fs \<times> bufw, io_error, unit) act" where
  "write_to_io E d = for_each (\<lambda>p. bw_write_all E (utf8 p)) (full_pieces E d)"

definition write_compact_to_io :: "'z env_scheme \<Rightarrow> log_data \<Rightarrow> (fs \<times> bufw, io_error, unit) act" where
  "write_compact_to_io E d = for_each (\<lambda>p. bw_write_all E (utf8 p)) (compact_pieces E d)"

text \<open>The bytes of one record on the global file and on a context file.\<close>

definition full_line :: "'z env_scheme \<Rightarrow> log_data \<Rightarrow> byte list" where
  "full_line E d = utf8 (concat (full_pieces E d))"

definition compact_line :: "'z env_scheme \<Rightarrow> log_data \<Rightarrow> byte list" where
  "compact_line E d = utf8 (concat (compact_pieces E d))"

lemma for_each_map: "for_each (\<lambda>p. f (g p)) ps = for_each f (map g ps)"
  by (induction ps) simp_all

lemma write_to_io_appends: "bw_appends (full_line E d) (write_to_io E d)"
  unfolding write_to_io_def for_each_map full_line_def utf8_concat by (rule bw_pieces_appends)

lemma write_compact_to_io_appends: "bw_appends (compact_line E d) (write_compact_to_io E d)"
  unfolding write_compact_to_io_def for_each_map compact_line_def utf8_concat
  by (rule bw_pieces_appends)

text \<open>The line on disk is the \<open>format\<close> rendering with the level cut to its first letter.\<close>

lemma full_line_format:
  "full_line E d = utf8 (level_short (level d) #
     drop (length (level_display (level d))) (log_format E d) @ [10])"
  by (simp add: full_line_def full_pieces_def log_format_def)

text \<open>A record whose parts are valid strings.\<close>

definition log_data_ok :: "log_data \<Rightarrow> bool" where
  "log_data_ok d \<longleftrightarrow> rust_str (message d) \<and> rust_str (file_name d) \<and>
     (\<forall>t. tag d = Some t \<longrightarrow> rust_str t) \<and> (\<forall>f. function_name d = Some f \<longrightarrow> rust_str f)"

end
