(* ===== verification/Vec_Pool.thy ===== *)
theory Vec_Pool
  imports Prelude
begin

text \<open>
  \<open>src/vec_pool.rs\<close>: a pool of reusable vectors.  A \<open>Vec\<close> is its elements and its
  capacity, since the pool is about capacities.  \<open>take_vec\<close> hands out a guard; dropping
  the guard gives the vector back, cleared.  The locale \<open>buffer_pool\<close> is what the log
  thread needs: a vector taken from a sound pool is empty and comes back to the pool.
\<close>

record 'a rvec =
  elems :: "'a list"
  capacity :: nat

definition vec_with_capacity :: "nat \<Rightarrow> 'a rvec" where
  "vec_with_capacity n = \<lparr>elems = [], capacity = n\<rparr>"

definition vec_clear :: "'a rvec \<Rightarrow> 'a rvec" where
  "vec_clear v = v\<lparr>elems := []\<rparr>"

text \<open>
  \<open>Vec::reserve(n)\<close>: room for at least \<open>n\<close> more elements.  How much more is up to the
  allocator, a parameter \<open>grow\<close> of the model (current capacity, required capacity).
\<close>

definition vec_reserve :: "(nat \<Rightarrow> nat \<Rightarrow> nat) \<Rightarrow> nat \<Rightarrow> 'a rvec \<Rightarrow> 'a rvec" where
  "vec_reserve grow n v =
     (let need = length (elems v) + n
      in if need \<le> capacity v then v
         else v\<lparr>capacity := max need (grow (capacity v) need)\<rparr>)"

record 'a vec_pool =
  pool :: "'a rvec list"
  inner_capacity :: nat

definition pool_len :: "'a vec_pool \<Rightarrow> nat" where
  "pool_len p = length (pool p)"

definition with_initial_amount :: "nat \<Rightarrow> nat \<Rightarrow> 'a vec_pool" where
  "with_initial_amount n c = \<lparr>pool = replicate n (vec_with_capacity c), inner_capacity = c\<rparr>"

definition take_vec :: "'a vec_pool \<Rightarrow> 'a rvec \<times> 'a vec_pool" where
  "take_vec p =
     (case pool p of
        [] \<Rightarrow> (vec_with_capacity (inner_capacity p), p)
      | v # vs \<Rightarrow> (v, p\<lparr>pool := vs\<rparr>))"

definition resize_all :: "(nat \<Rightarrow> nat \<Rightarrow> nat) \<Rightarrow> nat \<Rightarrow> 'a vec_pool \<Rightarrow> 'a vec_pool" where
  "resize_all grow n p =
     p\<lparr>inner_capacity := n, pool := map (\<lambda>v. vec_reserve grow (n - capacity v) v) (pool p)\<rparr>"

definition return_vec :: "'a rvec \<Rightarrow> 'a vec_pool \<Rightarrow> 'a vec_pool" where
  "return_vec v p = p\<lparr>pool := pool p @ [vec_clear v]\<rparr>"

text \<open>Dropping the guard returns the vector it holds.\<close>

definition guard_drop :: "'a rvec \<Rightarrow> 'a vec_pool \<Rightarrow> 'a vec_pool" where
  "guard_drop v p = return_vec v p"

text \<open>
  The guard owns the vector and borrows the pool until it is dropped.  \<open>deref\<close> reads its
  vector, \<open>deref_mut\<close> lends it to a writer \<open>f\<close>, and the drop takes the vector out.
\<close>

record 'a vec_pool_guard =
  guard_vec :: "'a rvec"
  guard_pool :: "'a vec_pool"

definition take_guard :: "'a vec_pool \<Rightarrow> 'a vec_pool_guard" where
  "take_guard p = (case take_vec p of (v, q) \<Rightarrow> \<lparr>guard_vec = v, guard_pool = q\<rparr>)"

definition guard_deref :: "'a vec_pool_guard \<Rightarrow> 'a rvec" where
  "guard_deref g = guard_vec g"

definition guard_deref_mut :: "('a rvec \<Rightarrow> 'a rvec) \<Rightarrow> 'a vec_pool_guard \<Rightarrow> 'a vec_pool_guard" where
  "guard_deref_mut f g = g\<lparr>guard_vec := f (guard_vec g)\<rparr>"

definition guard_end :: "'a vec_pool_guard \<Rightarrow> 'a vec_pool" where
  "guard_end g = guard_drop (guard_vec g) (guard_pool g)"

section \<open>Soundness of the pool\<close>

definition pool_ok :: "'a vec_pool \<Rightarrow> bool" where
  "pool_ok p \<longleftrightarrow> (\<forall>v\<in>set (pool p). elems v = [])"

lemma pool_ok_initial: "pool_ok (with_initial_amount n c)"
  by (simp add: pool_ok_def with_initial_amount_def vec_with_capacity_def)

lemma pool_ok_take: "pool_ok p \<Longrightarrow> take_vec p = (v, q) \<Longrightarrow> pool_ok q \<and> elems v = []"
  by (auto simp: pool_ok_def take_vec_def vec_with_capacity_def split: list.splits)

lemma pool_ok_return: "pool_ok p \<Longrightarrow> pool_ok (return_vec v p)"
  by (auto simp: pool_ok_def return_vec_def vec_clear_def)

lemma pool_ok_resize: "pool_ok p \<Longrightarrow> pool_ok (resize_all grow n p)"
  by (auto simp: pool_ok_def resize_all_def vec_reserve_def Let_def)

lemma pool_len_take_return:
  "take_vec p = (v, q) \<Longrightarrow> pool_len (guard_drop w q) = max 1 (pool_len p)"
  by (auto simp: take_vec_def guard_drop_def return_vec_def pool_len_def split: list.splits)

text \<open>
  \<open>reserve\<close> counts from the length, and the pooled vectors are empty, so
  \<open>resize_all\<close> asks for the difference of the capacities and not for the new capacity:
  a vector grows only when the new capacity is more than twice its own.
\<close>

lemma reserve_difference:
  assumes "elems v = []"
  shows "capacity (vec_reserve grow (n - capacity v) v) =
     (if n \<le> 2 * capacity v then capacity v
      else max (n - capacity v) (grow (capacity v) (n - capacity v)))"
proof -
  have "n - capacity v \<le> capacity v \<longleftrightarrow> n \<le> 2 * capacity v" by linarith
  then show ?thesis using assms by (simp add: vec_reserve_def Let_def)
qed

section \<open>The interface of the log thread\<close>

locale buffer_pool =
  fixes take_buf :: "'p \<Rightarrow> 'v \<times> 'p"
    and give_back :: "'v \<Rightarrow> 'p \<Rightarrow> 'p"
    and contents :: "'v \<Rightarrow> 'a list"
    and inv :: "'p \<Rightarrow> bool"
    and stock :: "'p \<Rightarrow> nat"
  assumes take_empty: "inv p \<Longrightarrow> take_buf p = (v, q) \<Longrightarrow> contents v = []"
    and take_inv: "inv p \<Longrightarrow> take_buf p = (v, q) \<Longrightarrow> inv q"
    and give_inv: "inv p \<Longrightarrow> inv (give_back v p)"
    and stock_cycle: "take_buf p = (v, q) \<Longrightarrow> stock (give_back w q) = max 1 (stock p)"
begin

text \<open>One use of a buffer: taken, filled, given back.\<close>

definition cycle :: "('v \<Rightarrow> 'v) \<Rightarrow> 'p \<Rightarrow> 'p" where
  "cycle f p = (case take_buf p of (v, q) \<Rightarrow> give_back (f v) q)"

lemma cycle_inv: "inv p \<Longrightarrow> inv (cycle f p)"
  by (auto simp: cycle_def take_inv give_inv split: prod.splits)

lemma cycle_stock: "stock (cycle f p) = max 1 (stock p)"
  by (auto simp: cycle_def stock_cycle split: prod.splits)

lemma cycles_inv: "inv p \<Longrightarrow> inv ((cycle f ^^ n) p)"
  by (induction n) (simp_all add: cycle_inv)

lemma cycles_stock: "0 < stock p \<Longrightarrow> stock ((cycle f ^^ n) p) = stock p"
  by (induction n) (simp_all add: cycle_stock)

end

interpretation vp: buffer_pool take_vec guard_drop elems pool_ok pool_len
  by unfold_locales
    (auto simp: guard_drop_def pool_ok_return pool_len_take_return[unfolded guard_drop_def]
      dest: pool_ok_take)

text \<open>Any number of uses keeps the stock, and the next vector is empty.\<close>

theorem pool_reuse:
  fixes f :: "'a rvec \<Rightarrow> 'a rvec"
  assumes "0 < n"
  shows "pool_len (((\<lambda>p. case take_vec p of (v, q) \<Rightarrow> guard_drop (f v) q) ^^ k) (with_initial_amount n c)) = n \<and>
    elems (fst (take_vec (((\<lambda>p. case take_vec p of (v, q) \<Rightarrow> guard_drop (f v) q) ^^ k) (with_initial_amount n c)))) = []"
proof -
  have c: "(\<lambda>p. case take_vec p of (v, q) \<Rightarrow> guard_drop (f v) q) = vp.cycle f"
    by (simp add: fun_eq_iff vp.cycle_def)
  have n: "pool_len (with_initial_amount n c :: 'a vec_pool) = n" by (simp add: pool_len_def with_initial_amount_def)
  let ?p = "(vp.cycle f ^^ k) (with_initial_amount n c)"
  have ok: "pool_ok ?p" by (rule vp.cycles_inv) (rule pool_ok_initial)
  obtain v q where "take_vec ?p = (v, q)" by (meson surj_pair)
  then have "elems (fst (take_vec ?p)) = []" using vp.take_empty [OF ok] by simp
  then show ?thesis unfolding c using vp.cycles_stock [where p = "with_initial_amount n c" and f = f and n = k] n assms by simp
qed

text \<open>A guard taken, written through any number of times and dropped is one use of a buffer.\<close>

definition guard_use :: "('a rvec \<Rightarrow> 'a rvec) list \<Rightarrow> 'a vec_pool \<Rightarrow> 'a vec_pool" where
  "guard_use fs p = guard_end (fold guard_deref_mut fs (take_guard p))"

lemma guard_writes:
  "guard_deref (fold guard_deref_mut fs g) = fold (\<lambda>f. f) fs (guard_deref g) \<and>
   guard_pool (fold guard_deref_mut fs g) = guard_pool g"
  by (induction fs arbitrary: g) (simp_all add: guard_deref_def guard_deref_mut_def)

lemma guard_use_cycle: "guard_use fs = vp.cycle (fold (\<lambda>f. f) fs)"
  using guard_writes [of fs]
  by (simp add: fun_eq_iff guard_use_def vp.cycle_def guard_end_def guard_deref_def take_guard_def
      split: prod.splits)

lemma guards_keep_stock:
  assumes "0 < n"
  shows "pool_len ((guard_use fs ^^ k) (with_initial_amount n c)) = n \<and>
    elems (guard_deref (take_guard ((guard_use fs ^^ k) (with_initial_amount n c)))) = []"
proof -
  let ?p = "(vp.cycle (fold (\<lambda>f. f) fs) ^^ k) (with_initial_amount n c)"
  have n: "pool_len (with_initial_amount n c :: 'a vec_pool) = n" by (simp add: pool_len_def with_initial_amount_def)
  have ok: "pool_ok ?p" by (rule vp.cycles_inv) (rule pool_ok_initial)
  obtain v q where t: "take_vec ?p = (v, q)" by (meson surj_pair)
  then have "elems v = []" using vp.take_empty [OF ok] by simp
  then show ?thesis
    using vp.cycles_stock [where p = "with_initial_amount n c" and f = "fold (\<lambda>f. f) fs" and n = k] n assms t
    by (simp add: guard_use_cycle take_guard_def guard_deref_def)
qed

theorem resize_does_not_grow:
  assumes "pool_ok p" "\<forall>v\<in>set (pool p). n \<le> 2 * capacity v"
  shows "map capacity (pool (resize_all grow n p)) = map capacity (pool p)"
  using assms by (auto simp: resize_all_def pool_ok_def reserve_difference)

end
