(* ===== verification/Semaphore_Lite.thy ===== *)
theory Semaphore_Lite
  imports Prelude
begin

text \<open>
  \<open>src/semaphore_lite.rs\<close>: a flag under a mutex and a condition variable.  Two levels:
  the critical sections of the operations as functions of the flag
  (\<open>sem_signal\<close>, \<open>sem_poll\<close>), and a step relation \<open>sem_step\<close> of any number of
  threads inside \<open>wait\<close> and \<open>wait_timeout\<close>, with the blocking and waking of the
  condition variable.  The mutex makes each critical section one step.
\<close>

section \<open>The critical sections\<close>

text \<open>\<open>signal\<close> sets the flag; \<open>wait\<close> consumes it when it is set.\<close>

definition sem_new :: bool where
  "sem_new = False"

definition sem_signal :: "bool \<Rightarrow> bool" where
  "sem_signal f = True"

definition sem_poll :: "bool \<Rightarrow> bool \<times> bool" where
  "sem_poll f = (if f then (True, False) else (False, f))"

section \<open>Threads waiting\<close>

text \<open>
  Where a thread is in \<open>wait\<close> or \<open>wait_timeout\<close>: outside, about to take the mutex,
  asleep in the condition variable, woken by a notification and about to take the mutex
  again, woken by the timeout, or returned (with the flag, or without it).
\<close>

datatype wait_pc = Outside | Entering | Asleep | Notified | Expired | Passed | GaveUp

record sem_sys =
  sem_flag :: bool
  timed :: "nat \<Rightarrow> bool"
  pcs :: "nat \<Rightarrow> wait_pc"
  signals :: nat
  passes :: nat

definition sem_init :: "sem_sys \<Rightarrow> bool" where
  "sem_init s \<longleftrightarrow> sem_flag s = sem_new \<and> pcs s = (\<lambda>_. Outside) \<and> signals s = 0 \<and> passes s = 0"

definition wake :: "wait_pc \<Rightarrow> wait_pc" where
  "wake p = (if p = Asleep then Notified else p)"

text \<open>\<open>signal\<close>: set the flag and \<open>notify_all\<close>, under the mutex.\<close>

definition signal_step :: "sem_sys \<Rightarrow> sem_sys" where
  "signal_step s = s\<lparr>sem_flag := sem_signal (sem_flag s), pcs := wake \<circ> pcs s,
     signals := Suc (signals s)\<rparr>"

text \<open>
  The loop head of \<open>wait\<close> and \<open>wait_timeout\<close>, with the mutex held: leave with the flag,
  or sleep, which releases the mutex.
\<close>

definition check_step :: "nat \<Rightarrow> sem_sys \<Rightarrow> sem_sys" where
  "check_step i s =
     (case sem_poll (sem_flag s) of
        (True, f) \<Rightarrow> s\<lparr>sem_flag := f, pcs := (pcs s)(i := Passed), passes := Suc (passes s)\<rparr>
      | (False, f) \<Rightarrow> s\<lparr>sem_flag := f, pcs := (pcs s)(i := Asleep)\<rparr>)"

inductive sem_step :: "sem_sys \<Rightarrow> sem_sys \<Rightarrow> bool" where
  call_wait: "pcs s i \<in> {Outside, Passed, GaveUp} \<Longrightarrow>
     sem_step s (s\<lparr>pcs := (pcs s)(i := Entering), timed := (timed s)(i := b)\<rparr>)"
| signal: "sem_step s (signal_step s)"
| check: "pcs s i \<in> {Entering, Notified} \<Longrightarrow> sem_step s (check_step i s)"
| expire: "pcs s i = Asleep \<Longrightarrow> timed s i \<Longrightarrow> sem_step s (s\<lparr>pcs := (pcs s)(i := Expired)\<rparr>)"
| give_up: "pcs s i = Expired \<Longrightarrow> sem_step s (s\<lparr>pcs := (pcs s)(i := GaveUp)\<rparr>)"

lemma sem_poll_simps [simp]:
  "sem_poll True = (True, False)" "sem_poll False = (False, False)"
  by (simp_all add: sem_poll_def)

lemma check_step_simps:
  "sem_flag s \<Longrightarrow> check_step i s =
     s\<lparr>sem_flag := False, pcs := (pcs s)(i := Passed), passes := Suc (passes s)\<rparr>"
  "\<not> sem_flag s \<Longrightarrow> check_step i s = s\<lparr>sem_flag := False, pcs := (pcs s)(i := Asleep)\<rparr>"
  by (simp_all add: check_step_def)

section \<open>Invariants\<close>

text \<open>
  A set flag leaves nobody asleep, and every completed wait has consumed a signal of its
  own.
\<close>

definition sem_inv :: "sem_sys \<Rightarrow> bool" where
  "sem_inv s \<longleftrightarrow> (sem_flag s \<longrightarrow> (\<forall>i. pcs s i \<noteq> Asleep)) \<and>
     passes s + (if sem_flag s then 1 else 0) \<le> signals s"

lemma sem_inv_check: "sem_inv s \<Longrightarrow> sem_inv (check_step i s)"
  by (cases "sem_flag s") (simp_all add: sem_inv_def check_step_simps)

interpretation sem: inductive_invariant sem_init sem_step sem_inv
proof unfold_locales
  show "sem_inv s" if "sem_init s" for s
    using that by (simp add: sem_init_def sem_inv_def sem_new_def)
  show "sem_inv t" if "sem_inv s" "sem_step s t" for s t
    using that(2)
  proof (cases rule: sem_step.cases)
    case signal
    with that(1) show ?thesis
      by (auto simp: sem_inv_def signal_step_def sem_signal_def wake_def split: if_splits)
  next
    case (check i)
    with that(1) show ?thesis by (simp add: sem_inv_check)
  qed (use that(1) in \<open>auto simp: sem_inv_def split: if_splits\<close>)
qed

lemma set_flag_wakes: "reach sem_init sem_step s \<Longrightarrow> sem_flag s \<Longrightarrow> pcs s i \<noteq> Asleep"
  using sem.reach_inv [of s] by (simp add: sem_inv_def)

lemma passes_le_signals: "reach sem_init sem_step s \<Longrightarrow> passes s \<le> signals s"
  using sem.reach_inv [of s] by (simp add: sem_inv_def)

section \<open>Refinement of an atomic binary semaphore\<close>

text \<open>
  The abstraction a client reasons with: a flag and, for each thread, whether it is idle,
  waiting, or has returned; waiting is left by taking a set flag in one step, or, for a
  timed wait, at any time.
\<close>

datatype apc = AIdle | AWaiting | APassed | AGaveUp

fun abs_pc :: "wait_pc \<Rightarrow> apc" where
  "abs_pc Outside = AIdle"
| "abs_pc Entering = AWaiting"
| "abs_pc Asleep = AWaiting"
| "abs_pc Notified = AWaiting"
| "abs_pc Expired = AWaiting"
| "abs_pc Passed = APassed"
| "abs_pc GaveUp = AGaveUp"

record abs_sem =
  a_flag :: bool
  a_pcs :: "nat \<Rightarrow> apc"
  a_timed :: "nat \<Rightarrow> bool"

definition abs_of :: "sem_sys \<Rightarrow> abs_sem" where
  "abs_of s = \<lparr>a_flag = sem_flag s, a_pcs = abs_pc \<circ> pcs s, a_timed = timed s\<rparr>"

inductive abs_step :: "abs_sem \<Rightarrow> abs_sem \<Rightarrow> bool" where
  a_call: "a_pcs a i \<noteq> AWaiting \<Longrightarrow>
     abs_step a (a\<lparr>a_pcs := (a_pcs a)(i := AWaiting), a_timed := (a_timed a)(i := b)\<rparr>)"
| a_signal: "abs_step a (a\<lparr>a_flag := True\<rparr>)"
| a_take: "a_pcs a i = AWaiting \<Longrightarrow> a_flag a \<Longrightarrow>
     abs_step a (a\<lparr>a_flag := False, a_pcs := (a_pcs a)(i := APassed)\<rparr>)"
| a_expire: "a_pcs a i = AWaiting \<Longrightarrow> a_timed a i \<Longrightarrow>
     abs_step a (a\<lparr>a_pcs := (a_pcs a)(i := AGaveUp)\<rparr>)"

lemma abs_pc_wake [simp]: "abs_pc (wake p) = abs_pc p"
  by (cases p) (simp_all add: wake_def)

text \<open>An expired wait was a timed one: the extra fact the simulation needs.\<close>

definition expired_timed :: "sem_sys \<Rightarrow> bool" where
  "expired_timed s \<longleftrightarrow> (\<forall>i. pcs s i = Expired \<longrightarrow> timed s i)"

lemma expired_timed_check: "expired_timed s \<Longrightarrow> expired_timed (check_step i s)"
  by (cases "sem_flag s") (simp_all add: expired_timed_def check_step_simps)

interpretation sem_timed: inductive_invariant sem_init sem_step expired_timed
proof unfold_locales
  show "expired_timed s" if "sem_init s" for s
    using that by (simp add: sem_init_def expired_timed_def)
  show "expired_timed t" if "expired_timed s" "sem_step s t" for s t
    using that(2)
  proof (cases rule: sem_step.cases)
    case signal
    with that(1) show ?thesis
      by (auto simp: expired_timed_def signal_step_def wake_def split: if_splits)
  next
    case (check i)
    with that(1) show ?thesis by (simp add: expired_timed_check)
  qed (use that(1) in \<open>auto simp: expired_timed_def\<close>)
qed

lemma comp_upd: "f \<circ> g(i := x) = (f \<circ> g)(i := f x)"
  by auto

lemma abs_of_check:
  assumes "pcs s i \<in> {Entering, Notified}"
  shows "abs_step (abs_of s) (abs_of (check_step i s)) \<or> abs_of (check_step i s) = abs_of s"
proof (cases "sem_flag s")
  case True
  have "abs_of (check_step i s) = (abs_of s)\<lparr>a_flag := False,
      a_pcs := (a_pcs (abs_of s))(i := APassed)\<rparr>"
    using True by (simp add: abs_of_def check_step_simps comp_upd)
  moreover have "a_pcs (abs_of s) i = AWaiting" "a_flag (abs_of s)"
    using assms True by (auto simp: abs_of_def)
  ultimately show ?thesis using a_take by metis
next
  case False
  then have "abs_of (check_step i s) = abs_of s"
    using assms by (auto simp: abs_of_def check_step_simps comp_upd fun_eq_iff)
  then show ?thesis ..
qed

lemma sem_refines:
  assumes "expired_timed s" "sem_step s t"
  shows "abs_step (abs_of s) (abs_of t) \<or> abs_of t = abs_of s"
  using assms(2)
proof (cases rule: sem_step.cases)
  case (call_wait i b)
  then have "abs_of t = (abs_of s)\<lparr>a_pcs := (a_pcs (abs_of s))(i := AWaiting),
      a_timed := (a_timed (abs_of s))(i := b)\<rparr>" "a_pcs (abs_of s) i \<noteq> AWaiting"
    by (auto simp: abs_of_def comp_upd)
  then show ?thesis using a_call by metis
next
  case signal
  then have "abs_of t = (abs_of s)\<lparr>a_flag := True\<rparr>"
    by (simp add: abs_of_def signal_step_def sem_signal_def comp_def)
  then show ?thesis using a_signal by metis
next
  case (check i)
  then show ?thesis using abs_of_check by blast
next
  case (expire i)
  then have "abs_of t = abs_of s" by (auto simp: abs_of_def fun_eq_iff)
  then show ?thesis ..
next
  case (give_up i)
  then have "abs_of t = (abs_of s)\<lparr>a_pcs := (a_pcs (abs_of s))(i := AGaveUp)\<rparr>"
      "a_pcs (abs_of s) i = AWaiting" "a_timed (abs_of s) i"
    using assms(1) by (auto simp: abs_of_def comp_upd expired_timed_def)
  then show ?thesis using a_expire by metis
qed

text \<open>The runs of the implementation are runs of the atomic semaphore.\<close>

definition abs_init :: "abs_sem \<Rightarrow> bool" where
  "abs_init a \<longleftrightarrow> \<not> a_flag a \<and> (\<forall>i. a_pcs a i \<noteq> AWaiting)"

interpretation sem_sim: simulation sem_init sem_step "\<lambda>s a. expired_timed s \<and> a = abs_of s" abs_init abs_step
proof unfold_locales
  show "\<exists>a. abs_init a \<and> expired_timed s \<and> a = abs_of s" if "sem_init s" for s
    using that sem_timed.inv_init [OF that] by (simp add: sem_init_def abs_init_def abs_of_def sem_new_def)
  show "\<exists>b. abs_step\<^sup>*\<^sup>* a b \<and> expired_timed t \<and> b = abs_of t"
    if "expired_timed s \<and> a = abs_of s" "sem_step s t" for s t a
    using that sem_refines [of s t] sem_timed.inv_step [of s t] r_into_rtranclp [of abs_step] by fastforce
qed

section \<open>The interface of the clients\<close>

text \<open>
  A binary flag with memory: a post is remembered until one poll takes it, and any number
  of posts before that poll count as one.
\<close>

locale binary_flag =
  fixes post :: "'f \<Rightarrow> 'f"
    and poll :: "'f \<Rightarrow> bool \<times> 'f"
    and pending :: "'f \<Rightarrow> bool"
  assumes pending_post: "pending (post f)"
    and poll_pending: "fst (poll f) \<longleftrightarrow> pending f"
    and poll_clears: "\<not> pending (snd (poll f))"
begin

lemma pending_posts: "0 < n \<Longrightarrow> pending ((post ^^ n) f)"
  by (cases n) (simp_all add: pending_post)

lemma posts_coalesce:
  assumes "0 < n"
  shows "fst (poll ((post ^^ n) f)) \<and> \<not> fst (poll (snd (poll ((post ^^ n) f))))"
  using assms by (simp add: poll_pending pending_posts poll_clears)

end

interpretation flag: binary_flag sem_signal sem_poll "\<lambda>f. f"
  by unfold_locales (simp_all add: sem_signal_def sem_poll_def)

text \<open>Every completed wait has consumed a signal of its own.\<close>

theorem waits_need_signals:
  assumes "reach sem_init sem_step s"
  shows "passes s + (if sem_flag s then 1 else 0) \<le> signals s"
  using sem.reach_inv [OF assms] by (simp add: sem_inv_def)

end
