(* ===== verification/Logger_Ctx.thy ===== *)
theory Logger_Ctx
  imports Log_Data Vec_Pool Semaphore_Lite
begin

text \<open>
  The logger's state and its operations (\<open>src/logger/logger_thread_ctx.rs\<close>), with the
  error type of \<open>src/lib.rs\<close>.  The state is the pair of the \<open>LoggerThreadCtx\<close> fields
  (\<open>ctx\<close>) and of everything outside the process's own data (\<open>world\<close>): the file
  store, what was handed to logcat, standard output and \<open>tracing\<close>, the state of the
  user's sinks, and the threads and panic hook installed.  The \<open>file\<close> feature is on,
  as in the default features; the other backends are switched by \<open>features\<close>.
\<close>

section \<open>Errors\<close>

datatype logger_error =
    LogError rstr
  | FlushError io_error
  | IoError io_error
  | IoSpecificError io_error "rstr option" rstr
  | AlreadyInitialized

text \<open>
  The messages of the error type.  How an I/O error prints is the operating system's
  business (\<open>show_io\<close>); the contexts that occur are plain text, which \<open>Debug\<close> prints
  unescaped between quotes.
\<close>

definition debug_opt :: "rstr option \<Rightarrow> rstr" where
  "debug_opt x = (case x of None \<Rightarrow> lit ''None'' | Some s \<Rightarrow> lit ''Some('' @ [34] @ s @ [34] @ lit '')'')"

fun show_error :: "(io_error \<Rightarrow> rstr) \<Rightarrow> logger_error \<Rightarrow> rstr" where
  "show_error show_io (LogError s) = lit ''Unknown Error occurred in logging thread: '' @ s"
| "show_error show_io (FlushError e) =
     lit ''Error occurred during flush in logging thread: '' @ show_io e"
| "show_error show_io (IoError e) = lit ''IO Error occurred in logging thread: '' @ show_io e"
| "show_error show_io (IoSpecificError e c p) =
     lit ''IO Error at '' @ p @ lit '' occurred in logging thread: Context '' @ debug_opt c @
     lit '' '' @ show_io e"
| "show_error show_io AlreadyInitialized = lit ''Logger already initialized''"

section \<open>State\<close>

record features =
  ft_logcat :: bool
  ft_api30 :: bool
  ft_stdout :: bool
  ft_sinks :: bool
  ft_tracing :: bool

text \<open>What the program asks of \<open>tracing\<close> and of Android's logcat.\<close>

datatype t_level = T_ERROR | T_WARN | T_INFO | T_DEBUG | T_TRACE

text \<open>\<open>Buffer\<close>: the log buffer of Android a message is for.\<close>

datatype logcat_buffer =
    B_Default | B_Main | B_Crash | B_Stats | B_Events | B_Security | B_System | B_Kernel | B_Radio

datatype logcat_call =
    LogWrite nat "byte list" "byte list"
  | LogMessage logcat_buffer nat "byte list" "byte list" "32 word" "byte list"

record 'w world =
  w_fs :: fs
  w_logcat :: "logcat_call list"
  w_cbuf :: "byte list"
  w_stdout :: "rstr list"
  w_events :: "(t_level \<times> rstr) list"
  w_user :: 'w
  w_threads :: nat
  w_hook :: bool

type_synonym 'w sink = "log_data \<Rightarrow> ('w, logger_error, unit) act"

record 'w ctx =
  config :: logger_config
  log_queue :: "log_data list"
  log_sem :: bool
  flush_sem :: bool
  inited :: bool
  global_file :: bufw
  context_map :: "rstr \<Rightarrow> bufw option"
  sinks :: "'w sink list"

type_synonym 'w st = "'w ctx \<times> 'w world"

section \<open>Creation and start\<close>

definition ctx_init :: "logger_config \<Rightarrow> bufw \<Rightarrow> 'w ctx" where
  "ctx_init cfg g =
     \<lparr>config = cfg, log_queue = [], log_sem = sem_new, flush_sem = sem_new, inited = False,
      global_file = g, context_map = Map.empty, sinks = []\<rparr>"

text \<open>\<open>LoggerThreadCtx::new\<close>: both directories, then the global file.\<close>

definition ctx_new ::
  "'z os_scheme \<Rightarrow> logger_config \<Rightarrow> rstr \<Rightarrow> (fs, logger_error, 'w ctx) act" where
  "ctx_new E cfg log_path =
     seq_act
       (conv_err (\<lambda>e. IoSpecificError e
            (Some (lit ''Unable to make logging directory for contexts'')) (context_log_path cfg))
          (create_dir_all E (context_log_path cfg)))
       (seq_act
         (case path_parent log_path of
            None \<Rightarrow> ret ()
          | Some parent \<Rightarrow>
              conv_err (\<lambda>e. IoSpecificError e
                 (Some (lit ''Unable to make logging directory for global'')) parent)
                (create_dir_all E parent))
         (bind_act
           (conv_err (\<lambda>e. IoSpecificError e (Some (lit ''Unable to create global file'')) log_path)
             (file_create E log_path))
           (\<lambda>h. ret (ctx_init cfg (bw_new h)))))"

text \<open>\<open>LoggerThreadCtx::init\<close>: refuses a second start, installs the hook, spawns the thread.\<close>

definition ctx_start :: "bool \<Rightarrow> ('w st, logger_error, unit) act" where
  "ctx_start install_panic_hook s =
     (case s of (c, w) \<Rightarrow>
        if inited c then (Err AlreadyInitialized, s)
        else (Ok (), (c\<lparr>inited := True\<rparr>,
                w\<lparr>w_hook := w_hook w \<or> install_panic_hook, w_threads := Suc (w_threads w)\<rparr>)))"

definition is_inited :: "'w ctx \<Rightarrow> bool" where
  "is_inited c = inited c"

section \<open>The queue\<close>

text \<open>The two critical sections of \<open>queue_log\<close>, and the whole.\<close>

definition queue_push :: "log_data \<Rightarrow> 'w ctx \<Rightarrow> 'w ctx" where
  "queue_push d c = c\<lparr>log_queue := log_queue c @ [d]\<rparr>"

definition queue_signal :: "'w ctx \<Rightarrow> 'w ctx" where
  "queue_signal c = c\<lparr>log_sem := sem_signal (log_sem c)\<rparr>"

definition queue_log :: "log_data \<Rightarrow> 'w ctx \<Rightarrow> 'w ctx" where
  "queue_log d c = queue_signal (queue_push d c)"

definition queue_logs :: "log_data list \<Rightarrow> 'w ctx \<Rightarrow> 'w ctx" where
  "queue_logs ds c = queue_signal (fold queue_push ds c)"

text \<open>
  The log thread's \<open>mem::replace(&mut *locked, vec.to_vec())\<close>: takes the queue and leaves
  a copy of the pooled vector.
\<close>

definition queue_replace :: "log_data rvec \<Rightarrow> 'w ctx \<Rightarrow> log_data list \<times> 'w ctx" where
  "queue_replace v c = (log_queue c, c\<lparr>log_queue := elems v\<rparr>)"

text \<open>\<open>wait_for_flush\<close> and \<open>wait_for_flush_timeout\<close> poll the semaphore of the queue.\<close>

definition wait_for_flush_poll :: "'w ctx \<Rightarrow> bool \<times> 'w ctx" where
  "wait_for_flush_poll c = (case sem_poll (log_sem c) of (b, f) \<Rightarrow> (b, c\<lparr>log_sem := f\<rparr>))"

text \<open>\<open>backtrace\<close> queues the captured backtrace; file, line and column are its call site.\<close>

definition ctx_backtrace :: "rstr \<Rightarrow> instant \<Rightarrow> 'w ctx \<Rightarrow> 'w ctx" where
  "ctx_backtrace captured now c =
     queue_log ((log_data_default now)\<lparr>level := Error, tag := None, message := captured,
       file_name := lit ''src/logger/logger_thread_ctx.rs'', line := 228, column := 21,
       function_name := None\<rparr>) c"

section \<open>Contexts and sinks\<close>

definition context_path :: "'w ctx \<Rightarrow> rstr \<Rightarrow> rstr" where
  "context_path c t = with_extension (path_join (context_log_path (config c)) t) (lit ''log'')"

definition drop_opt :: "'z os_scheme \<Rightarrow> bufw option \<Rightarrow> fs \<Rightarrow> fs" where
  "drop_opt E b f = (case b of None \<Rightarrow> f | Some w \<Rightarrow> bw_drop E w f)"

text \<open>
  \<open>add_context\<close>: the file is created before the map is updated, and a writer the map held
  for the tag is dropped, so flushed, after that.
\<close>

definition add_context :: "'z os_scheme \<Rightarrow> rstr \<Rightarrow> ('w st, logger_error, unit) act" where
  "add_context E t s =
     (case s of (c, w) \<Rightarrow>
        let p = context_path c t in
        (case file_create E p (w_fs w) of
          (Ok h, f) \<Rightarrow>
            (Ok (), (c\<lparr>context_map := (context_map c)(t \<mapsto> bw_new h)\<rparr>,
                     w\<lparr>w_fs := drop_opt E (context_map c t) f\<rparr>))
        | (Err e, f) \<Rightarrow>
            (Err (IoSpecificError e (Some (lit ''Unable to create context file'')) p),
             (c, w\<lparr>w_fs := f\<rparr>))
        | (Panic x, f) \<Rightarrow> (Panic x, (c, w\<lparr>w_fs := f\<rparr>))))"

definition remove_context :: "'z os_scheme \<Rightarrow> rstr \<Rightarrow> 'w st \<Rightarrow> 'w st" where
  "remove_context E t s =
     (case s of (c, w) \<Rightarrow>
        (c\<lparr>context_map := (context_map c)(t := None)\<rparr>,
         w\<lparr>w_fs := drop_opt E (context_map c t) (w_fs w)\<rparr>))"

definition add_sink :: "'w sink \<Rightarrow> 'w ctx \<Rightarrow> 'w ctx" where
  "add_sink k c = c\<lparr>sinks := sinks c @ [k]\<rparr>"

section \<open>Well-formed states and their abstraction\<close>

definition w_ino :: "bufw \<Rightarrow> nat" where
  "w_ino b = f_ino (bw_file b)"

text \<open>
  Every writer is sound and no two writers share an inode.  Then the logger is abstractly
  one byte stream for the global file and one per registered context.
\<close>

definition ctx_ok :: "'w st \<Rightarrow> bool" where
  "ctx_ok s \<longleftrightarrow>
     finite (dom (context_map (fst s))) \<and> fs_ok (w_fs (snd s)) \<and>
     bw_ok (w_fs (snd s), global_file (fst s)) \<and>
     (\<forall>t b. context_map (fst s) t = Some b \<longrightarrow>
        bw_ok (w_fs (snd s), b) \<and> w_ino b \<noteq> w_ino (global_file (fst s))) \<and>
     (\<forall>t u b d. context_map (fst s) t = Some b \<longrightarrow> context_map (fst s) u = Some d \<longrightarrow>
        t \<noteq> u \<longrightarrow> w_ino b \<noteq> w_ino d)"

definition global_stream :: "'w st \<Rightarrow> byte list" where
  "global_stream s = bw_stream (w_fs (snd s), global_file (fst s))"

definition ctx_stream :: "'w st \<Rightarrow> rstr \<Rightarrow> byte list option" where
  "ctx_stream s t = map_option (\<lambda>b. bw_stream (w_fs (snd s), b)) (context_map (fst s) t)"

definition global_disk :: "'w st \<Rightarrow> byte list" where
  "global_disk s = bw_disk (w_fs (snd s), global_file (fst s))"

definition ctx_disk :: "'w st \<Rightarrow> rstr \<Rightarrow> byte list option" where
  "ctx_disk s t = map_option (\<lambda>b. bw_disk (w_fs (snd s), b)) (context_map (fst s) t)"

text \<open>The fields no backend touches.\<close>

definition ctl_view ::
  "'w st \<Rightarrow> logger_config \<times> log_data list \<times> bool \<times> bool \<times> bool \<times> 'w sink list \<times> rstr set" where
  "ctl_view s = (config (fst s), log_queue (fst s), log_sem (fst s), flush_sem (fst s),
     inited (fst s), sinks (fst s), dom (context_map (fst s)))"

section \<open>The contract of a backend\<close>

text \<open>
  What the dispatcher and the log thread need of every backend: whatever its result, it
  keeps the invariant and leaves a view of the state alone.  Logging many records, or
  running one backend after another, then does too.
\<close>

locale log_backend =
  fixes run :: "'d \<Rightarrow> ('s, 'e, unit) act"
    and inv :: "'s \<Rightarrow> bool"
    and view :: "'s \<Rightarrow> 'v"
  assumes run_inv: "keeps inv (run d)"
    and run_frame: "frames view (run d)"
begin

lemma runs_inv: "keeps inv (for_each run ds)"
  by (intro keeps_rules run_inv)

lemma runs_frame: "frames view (for_each run ds)"
  by (intro frame_rules run_frame)

lemma then_inv: "keeps inv m \<Longrightarrow> keeps inv (seq_act (conv_err f (run d)) m)"
  by (intro keeps_rules run_inv)

lemma then_frame: "frames view m \<Longrightarrow> frames view (seq_act (conv_err f (run d)) m)"
  by (intro frame_rules run_frame)

end

text \<open>Backends that only hand data to the outside leave the files as they are.\<close>

definition world_only :: "('w st, 'e, unit) act \<Rightarrow> bool" where
  "world_only m \<longleftrightarrow> (\<forall>s. fst (snd (m s)) = fst s \<and> w_fs (snd (snd (m s))) = w_fs (snd s))"

lemma world_only_keeps: "world_only m \<Longrightarrow> keeps ctx_ok m"
  by (simp add: keeps_def world_only_def ctx_ok_def)

lemma world_only_frames: "world_only m \<Longrightarrow> frames ctl_view m"
  by (simp add: frames_def world_only_def ctl_view_def)

lemma world_only_ret: "world_only (ret ())"
  by (simp add: world_only_def)

lemma world_only_seq: "world_only m \<Longrightarrow> world_only n \<Longrightarrow> world_only (seq_act m n)"
  unfolding world_only_def seq_act_def bind_act_def
  by (auto split: prod.splits res.splits) (metis fst_conv snd_conv)+

lemma world_only_for_each: "(\<And>x. world_only (f x)) \<Longrightarrow> world_only (for_each f xs)"
  by (induction xs) (simp_all add: world_only_ret world_only_seq)

section \<open>The queue as a mailbox\<close>

text \<open>
  The contract between the producers and the log thread: messages come out once, in the
  order they went in.
\<close>

locale mailbox =
  fixes push :: "'m \<Rightarrow> 'q \<Rightarrow> 'q"
    and drain :: "'q \<Rightarrow> 'm list \<times> 'q"
    and items :: "'q \<Rightarrow> 'm list"
  assumes items_push: "items (push x q) = items q @ [x]"
    and drain_all: "fst (drain q) = items q"
    and drain_empties: "items (snd (drain q)) = []"
begin

lemma items_pushes: "items (fold push xs q) = items q @ xs"
  by (induction xs arbitrary: q) (simp_all add: items_push)

lemma drain_pushes: "fst (drain (fold push xs q)) = items q @ xs"
  by (simp add: drain_all items_pushes)

text \<open>A schedule of pushes and drains delivers every message exactly once, in order.\<close>

fun deliver :: "'m option list \<Rightarrow> 'q \<Rightarrow> 'm list \<times> 'q" where
  "deliver [] q = ([], q)"
| "deliver (Some x # es) q = deliver es (push x q)"
| "deliver (None # es) q =
     (case drain q of (xs, q1) \<Rightarrow> case deliver es q1 of (ys, q2) \<Rightarrow> (xs @ ys, q2))"

lemma deliver_fifo:
  "fst (deliver es q) @ items (snd (deliver es q)) = items q @ List.map_filter (\<lambda>e. e) es"
proof (induction es q rule: deliver.induct)
  case (1 q)
  then show ?case by simp
next
  case (2 x es q)
  then show ?case by (simp add: items_push)
next
  case (3 es q)
  obtain xs q1 where d: "drain q = (xs, q1)" by (meson surj_pair)
  then have "xs = items q" "items q1 = []"
    using drain_all [of q] drain_empties [of q] by simp_all
  with 3 [OF d [symmetric]] d show ?case
    by (cases "deliver es q1") simp
qed

end

text \<open>The pooled vector the thread leaves behind is empty, so taking the queue empties it.\<close>

interpretation mb: mailbox queue_push "queue_replace (vec_with_capacity n)" log_queue
  by unfold_locales (simp_all add: queue_push_def queue_replace_def vec_with_capacity_def)

end
