(* ===== verification/File_Logger.thy ===== *)
theory File_Logger
  imports Logger_Ctx "HOL-Library.Sublist"
begin

text \<open>
  \<open>src/logger/file_logger.rs\<close>: the global file gets every record in full, the file of the
  record's tag, when one is registered, gets it in compact form.  \<open>file_do_log\<close> takes the
  write lock for one record, \<open>file_do_log_batch\<close> once for many.  The lemmas relate both to
  the abstract streams of \<open>Logger_Ctx\<close>, on success and on a failing disk.
\<close>

section \<open>The code\<close>

text \<open>Running an operation of a writer on the global file, or on the file of a context.\<close>

definition on_global :: "(fs \<times> bufw, 'e, unit) act \<Rightarrow> ('w st, 'e, unit) act" where
  "on_global m s =
     (case s of (c, w) \<Rightarrow>
        case m (w_fs w, global_file c) of
          (r, (f, b)) \<Rightarrow> (r, (c\<lparr>global_file := b\<rparr>, w\<lparr>w_fs := f\<rparr>)))"

definition on_context :: "rstr \<Rightarrow> (fs \<times> bufw, 'e, unit) act \<Rightarrow> ('w st, 'e, unit) act" where
  "on_context t m s =
     (case s of (c, w) \<Rightarrow>
        (case context_map c t of
          None \<Rightarrow> (Ok (), s)
        | Some b0 \<Rightarrow>
            (case m (w_fs w, b0) of
               (r, (f, b)) \<Rightarrow>
                 (r, (c\<lparr>context_map := (context_map c)(t \<mapsto> b)\<rparr>, w\<lparr>w_fs := f\<rparr>)))))"

definition file_do_log :: "'z env_scheme \<Rightarrow> log_data \<Rightarrow> ('w st, io_error, unit) act" where
  "file_do_log E d =
     seq_act (on_global (write_to_io E d))
       (case tag d of
          None \<Rightarrow> ret ()
        | Some t \<Rightarrow> on_context t (write_compact_to_io E d))"

text \<open>The batch: one pass over the records, stopping at the first error.\<close>

fun file_do_log_batch :: "'z env_scheme \<Rightarrow> log_data list \<Rightarrow> ('w st, io_error, unit) act" where
  "file_do_log_batch E [] s = (Ok (), s)"
| "file_do_log_batch E (d # ds) s =
     (case on_global (write_to_io E d) s of
        (Ok u, s1) \<Rightarrow>
          (case tag d of
             None \<Rightarrow> file_do_log_batch E ds s1
           | Some t \<Rightarrow>
               (case on_context t (write_compact_to_io E d) s1 of
                  (Ok u, s2) \<Rightarrow> file_do_log_batch E ds s2
                | (Err e, s2) \<Rightarrow> (Err e, s2)
                | (Panic p, s2) \<Rightarrow> (Panic p, s2)))
      | (Err e, s1) \<Rightarrow> (Err e, s1)
      | (Panic p, s1) \<Rightarrow> (Panic p, s1))"

text \<open>The batch does what logging the records one after the other does.\<close>

lemma batch_is_for_each: "file_do_log_batch E ds = for_each (file_do_log E) ds"
proof
  fix s show "file_do_log_batch E ds s = for_each (file_do_log E) ds s"
    by (induction ds arbitrary: s)
      (auto simp: file_do_log_def seq_act_def bind_act_def split: prod.splits res.splits option.splits)
qed

section \<open>Frames\<close>

definition out_view :: "'w st \<Rightarrow> logcat_call list \<times> byte list \<times> rstr list \<times> (t_level \<times> rstr) list \<times>
    'w \<times> nat \<times> bool" where
  "out_view s = (w_logcat (snd s), w_cbuf (snd s), w_stdout (snd s), w_events (snd s),
     w_user (snd s), w_threads (snd s), w_hook (snd s))"

lemma on_global_frame [frame_rules]:
  "frames ctl_view (on_global m)" "frames out_view (on_global m)"
  by (auto intro!: framesI simp: on_global_def ctl_view_def out_view_def split: prod.splits)

lemma on_context_frame [frame_rules]:
  "frames ctl_view (on_context t m)" "frames out_view (on_context t m)"
  by (auto intro!: framesI simp: on_context_def ctl_view_def out_view_def dom_def
      split: prod.splits option.splits)

lemma file_do_log_frame [frame_rules]:
  "frames ctl_view (file_do_log E d)" "frames out_view (file_do_log E d)"
  unfolding file_do_log_def by (cases "tag d"; simp add: frame_rules)+

section \<open>Streams\<close>

text \<open>What one operation on the global file, or on a context file, does to the streams.\<close>

lemma on_global_spec:
  assumes m: "bw_appends bs m" and ok: "ctx_ok s" and run: "on_global m s = (r, t)"
  shows "ctx_ok t \<and> ctx_stream t = ctx_stream s \<and> (\<forall>p. r \<noteq> Panic p) \<and>
    (if is_ok r then global_stream t = global_stream s @ bs
     else \<exists>k. global_stream t = global_stream s @ take k bs)"
proof -
  obtain c w where s: "s = (c, w)" by (cases s)
  obtain f b where mb: "m (w_fs w, global_file c) = (r, (f, b))"
      "t = (c\<lparr>global_file := b\<rparr>, w\<lparr>w_fs := f\<rparr>)"
    using run by (auto simp: on_global_def s split: prod.splits)
  have gok: "bw_ok (w_fs w, global_file c)" using ok by (simp add: ctx_ok_def s)
  note spec = m [unfolded bw_appends_def, rule_format, OF gok mb(1)]
  have loc: "bw_local (w_fs w, global_file c) (f, b)" using spec by blast
  have other: "bw_stream (f, d) = bw_stream (w_fs w, d)" "bw_ok (f, d) = bw_ok (w_fs w, d)"
    if "w_ino d \<noteq> w_ino (global_file c)" for d
    using loc that by (simp_all add: bw_local_def bw_stream_def bw_ok_def at_end_def w_ino_def)
  have ino: "w_ino b = w_ino (global_file c)" using loc by (simp add: bw_local_def w_ino_def)
  have fok: "fs_ok f = fs_ok (w_fs w)" using loc by (simp add: bw_local_def fs_ok_def)
  have "ctx_ok t"
    unfolding ctx_ok_def mb(2)
    using ok spec ino fok other by (simp add: ctx_ok_def s)
  moreover have "ctx_stream t = ctx_stream s"
    using ok other by (auto simp: ctx_stream_def s mb(2) fun_eq_iff ctx_ok_def map_option_case
        split: option.splits)
  ultimately show ?thesis
    using spec by (simp add: global_stream_def s mb(2))
qed

lemma on_context_spec:
  assumes m: "bw_appends bs m" and ok: "ctx_ok s" and run: "on_context tg m s = (r, t)"
  shows "ctx_ok t \<and> global_stream t = global_stream s \<and> (\<forall>p. r \<noteq> Panic p) \<and>
    (\<forall>u. u \<noteq> tg \<longrightarrow> ctx_stream t u = ctx_stream s u) \<and>
    (if is_ok r then ctx_stream t tg = map_option (\<lambda>x. x @ bs) (ctx_stream s tg)
     else \<exists>k. ctx_stream t tg = map_option (\<lambda>x. x @ take k bs) (ctx_stream s tg))"
proof -
  obtain c w where s: "s = (c, w)" by (cases s)
  show ?thesis
  proof (cases "context_map c tg")
    case None
    then show ?thesis using run ok by (auto simp: on_context_def s ctx_stream_def)
  next
    case (Some b0)
    obtain f b where mb: "m (w_fs w, b0) = (r, (f, b))"
        "t = (c\<lparr>context_map := (context_map c)(tg \<mapsto> b)\<rparr>, w\<lparr>w_fs := f\<rparr>)"
      using run Some by (auto simp: on_context_def s split: prod.splits)
    have bok: "bw_ok (w_fs w, b0)" using ok Some by (auto simp: ctx_ok_def s)
    note spec = m [unfolded bw_appends_def, rule_format, OF bok mb(1)]
    have loc: "bw_local (w_fs w, b0) (f, b)" using spec by blast
    have other: "bw_stream (f, d) = bw_stream (w_fs w, d)" "bw_ok (f, d) = bw_ok (w_fs w, d)"
      if "w_ino d \<noteq> w_ino b0" for d
      using loc that by (simp_all add: bw_local_def bw_stream_def bw_ok_def at_end_def w_ino_def)
    have ino: "w_ino b = w_ino b0" using loc by (simp add: bw_local_def w_ino_def)
    have fok: "fs_ok f = fs_ok (w_fs w)" using loc by (simp add: bw_local_def fs_ok_def)
    have g: "w_ino (global_file c) \<noteq> w_ino b0" using ok Some by (metis ctx_ok_def fst_conv s)
    have u: "w_ino d \<noteq> w_ino b0" if "context_map c v = Some d" "v \<noteq> tg" for v d
      using ok Some that by (metis ctx_ok_def fst_conv s)
    have "ctx_ok t"
      unfolding ctx_ok_def mb(2)
      using ok spec ino fok other g u Some by (auto simp: ctx_ok_def s)
    moreover have "ctx_stream t v = ctx_stream s v" if "v \<noteq> tg" for v
      using that other u by (auto simp: ctx_stream_def s mb(2) map_option_case split: option.splits)
    moreover have "global_stream t = global_stream s"
      using g other by (simp add: global_stream_def s mb(2))
    ultimately show ?thesis
      using spec Some by (auto simp: ctx_stream_def s mb(2))
  qed
qed

text \<open>
  \<open>grows s t G C\<close>: the global stream has grown by \<open>G\<close> and the stream of each
  registered context \<open>u\<close> by \<open>C u\<close>.
\<close>

definition grows :: "'w st \<Rightarrow> 'w st \<Rightarrow> byte list \<Rightarrow> (rstr \<Rightarrow> byte list) \<Rightarrow> bool" where
  "grows s t G C \<longleftrightarrow> global_stream t = global_stream s @ G \<and>
     (\<forall>u. ctx_stream t u = map_option (\<lambda>x. x @ C u) (ctx_stream s u))"

lemma grows_refl [simp]: "grows s s [] (\<lambda>u. [])"
  by (simp add: grows_def option.map_ident)

lemma grows_cong: "grows s t G C \<Longrightarrow> (\<And>u. C u = C' u) \<Longrightarrow> grows s t G C'"
  by (simp add: grows_def)

lemma grows_trans:
  "grows s t G C \<Longrightarrow> grows t u G' C' \<Longrightarrow> grows s u (G @ G') (\<lambda>v. C v @ C' v)"
  by (simp add: grows_def option.map_comp comp_def)

definition full_lines :: "'z env_scheme \<Rightarrow> log_data list \<Rightarrow> byte list" where
  "full_lines E ds = concat (map (full_line E) ds)"

definition context_lines :: "'z env_scheme \<Rightarrow> log_data list \<Rightarrow> rstr \<Rightarrow> byte list" where
  "context_lines E ds u = concat (map (compact_line E) (filter (\<lambda>d. tag d = Some u) ds))"

lemma full_lines_simps [simp]:
  "full_lines E [] = []" "full_lines E (d # ds) = full_line E d @ full_lines E ds"
  "full_lines E (ds @ es) = full_lines E ds @ full_lines E es"
  by (simp_all add: full_lines_def)

lemma context_lines_simps [simp]:
  "context_lines E [] u = []"
  "context_lines E (d # ds) u =
     (if tag d = Some u then compact_line E d else []) @ context_lines E ds u"
  "context_lines E (ds @ es) u = context_lines E ds u @ context_lines E es u"
  by (simp_all add: context_lines_def)

text \<open>
  An action that is to write the records \<open>ds\<close>: it keeps the state well-formed and never
  panics, it writes exactly their lines when it succeeds, and a prefix of their lines to
  each stream when it fails.
\<close>

definition writes :: "'z env_scheme \<Rightarrow> log_data list \<Rightarrow> ('w st, 'e, unit) act \<Rightarrow> bool" where
  "writes E ds m \<longleftrightarrow> (\<forall>s r t. ctx_ok s \<longrightarrow> m s = (r, t) \<longrightarrow>
     ctx_ok t \<and> (\<forall>p. r \<noteq> Panic p) \<and>
     (\<exists>G C. grows s t G C \<and> prefix G (full_lines E ds) \<and> (\<forall>u. prefix (C u) (context_lines E ds u)) \<and>
        (is_ok r \<longrightarrow> G = full_lines E ds \<and> C = context_lines E ds)))"

lemma take_prefix: "prefix (take k xs) xs"
  by (rule take_is_prefix)

lemma full_part:
  assumes "ctx_ok s" "on_global (write_to_io E d) s = (r, t)"
  shows "ctx_ok t \<and> (\<forall>p. r \<noteq> Panic p) \<and>
    (\<exists>G. grows s t G (\<lambda>u. []) \<and> prefix G (full_line E d) \<and> (is_ok r \<longrightarrow> G = full_line E d))"
  using on_global_spec [OF write_to_io_appends assms]
  by (cases "is_ok r") (auto simp: grows_def option.map_ident intro: take_prefix)

lemma compact_part:
  assumes "ctx_ok s" "on_context u (write_compact_to_io E d) s = (r, t)"
  shows "ctx_ok t \<and> (\<forall>p. r \<noteq> Panic p) \<and>
    (\<exists>c. grows s t [] (\<lambda>v. if v = u then c else []) \<and> prefix c (compact_line E d) \<and>
       (is_ok r \<longrightarrow> c = compact_line E d))"
proof -
  note spec = on_context_spec [OF write_compact_to_io_appends assms]
  obtain c where c: "ctx_stream t u = map_option (\<lambda>x. x @ c) (ctx_stream s u)"
      "prefix c (compact_line E d)" "is_ok r \<longrightarrow> c = compact_line E d"
    using spec take_prefix by (cases "is_ok r") auto
  then have "grows s t [] (\<lambda>v. if v = u then c else [])"
    using spec by (auto simp: grows_def option.map_ident)
  with spec c show ?thesis by blast
qed

lemma file_do_log_writes: "writes E [d] (file_do_log E d)"
  unfolding writes_def
proof (intro allI impI)
  fix s r t assume ok: "ctx_ok s" and run: "file_do_log E d s = (r, t)"
  obtain r1 s1 where g: "on_global (write_to_io E d) s = (r1, s1)" by (meson surj_pair)
  from full_part [OF ok g] obtain G where G: "ctx_ok s1" "\<forall>p. r1 \<noteq> Panic p"
      "grows s s1 G (\<lambda>u. [])" "prefix G (full_line E d)" "is_ok r1 \<longrightarrow> G = full_line E d"
    by blast
  let ?goal = "ctx_ok t \<and> (\<forall>p. r \<noteq> Panic p) \<and>
     (\<exists>G C. grows s t G C \<and> prefix G (full_lines E [d]) \<and> (\<forall>u. prefix (C u) (context_lines E [d] u)) \<and>
        (is_ok r \<longrightarrow> G = full_lines E [d] \<and> C = context_lines E [d]))"
  show ?goal
  proof (cases r1)
    case (Ok x)
    show ?goal
    proof (cases "tag d")
      case None
      then have "r = Ok ()" "t = s1" using run g Ok by (simp_all add: file_do_log_def)
      moreover have "context_lines E [d] = (\<lambda>u. [])" using None by (simp add: fun_eq_iff)
      ultimately show ?goal using G Ok by auto
    next
      case (Some u)
      then have c: "on_context u (write_compact_to_io E d) s1 = (r, t)"
        using run g Ok by (simp add: file_do_log_def)
      obtain c where C: "ctx_ok t" "\<forall>p. r \<noteq> Panic p" "grows s1 t [] (\<lambda>v. if v = u then c else [])"
          "prefix c (compact_line E d)" "is_ok r \<longrightarrow> c = compact_line E d"
        using compact_part [OF G(1) c] by blast
      have "grows s t (full_line E d) (\<lambda>v. if v = u then c else [])"
        using grows_trans [OF G(3) C(3)] G(5) Ok by simp
      moreover have "is_ok r \<longrightarrow> (\<lambda>v. if v = u then c else []) = context_lines E [d]"
        using Some C(5) by (auto simp: fun_eq_iff)
      moreover have "\<forall>v. prefix (if v = u then c else []) (context_lines E [d] v)"
        using Some C(4) by simp
      ultimately show ?goal using C(1,2) by (intro conjI exI) auto
    qed
  next
    case (Err e)
    then have "r = Err e" "t = s1" using run g by (simp_all add: file_do_log_def)
    then show ?goal using G by (intro conjI exI [of _ G] exI [of _ "\<lambda>u. []"]) auto
  next
    case (Panic p)
    then show ?goal using G(2) by simp
  qed
qed

lemma writes_Nil: "writes E [] (ret ())"
  unfolding writes_def
  by (intro allI impI conjI exI [of _ "[]"] exI [of _ "\<lambda>u. []"]) (auto simp: fun_eq_iff)

lemma writes_seq:
  assumes m: "writes E ds m" and n: "writes E es n"
  shows "writes E (ds @ es) (seq_act m n)"
  unfolding writes_def
proof (intro allI impI)
  fix s r t assume ok: "ctx_ok s" and run: "seq_act m n s = (r, t)"
  obtain r1 s1 where g: "m s = (r1, s1)" by (meson surj_pair)
  from m [unfolded writes_def, rule_format, OF ok g] obtain G C where
    G: "ctx_ok s1" "\<forall>p. r1 \<noteq> Panic p" "grows s s1 G C" "prefix G (full_lines E ds)"
      "\<forall>u. prefix (C u) (context_lines E ds u)"
      "is_ok r1 \<longrightarrow> G = full_lines E ds \<and> C = context_lines E ds"
    by blast
  let ?goal = "ctx_ok t \<and> (\<forall>p. r \<noteq> Panic p) \<and>
     (\<exists>G C. grows s t G C \<and> prefix G (full_lines E (ds @ es)) \<and>
        (\<forall>u. prefix (C u) (context_lines E (ds @ es) u)) \<and>
        (is_ok r \<longrightarrow> G = full_lines E (ds @ es) \<and> C = context_lines E (ds @ es)))"
  show ?goal
  proof (cases r1)
    case (Ok x)
    then have "n s1 = (r, t)" using run g by simp
    from n [unfolded writes_def, rule_format, OF G(1) this] obtain G' C' where
      G': "ctx_ok t" "\<forall>p. r \<noteq> Panic p" "grows s1 t G' C'" "prefix G' (full_lines E es)"
        "\<forall>u. prefix (C' u) (context_lines E es u)"
        "is_ok r \<longrightarrow> G' = full_lines E es \<and> C' = context_lines E es"
      by blast
    have eq: "G = full_lines E ds" "C = context_lines E ds" using G(6) Ok by auto
    show ?goal
      using G' grows_trans [OF G(3) G'(3)]
      by (intro conjI exI [of _ "G @ G'"] exI [of _ "\<lambda>v. C v @ C' v"]) (auto simp: eq fun_eq_iff)
  next
    case (Err e)
    then have "r = Err e" "t = s1" using run g by simp_all
    then show ?goal using G
      by (intro conjI exI [of _ G] exI [of _ C]) (auto intro: prefix_prefix)
  next
    case (Panic p)
    then show ?goal using G(2) by simp
  qed
qed

lemma file_batch_writes: "writes E ds (file_do_log_batch E ds)"
  unfolding batch_is_for_each
proof (induction ds)
  case (Cons d ds)
  then show ?case using writes_seq [OF file_do_log_writes Cons, of d] by simp
qed (simp add: writes_Nil)

lemma writes_keeps: "writes E ds m \<Longrightarrow> keeps ctx_ok m"
  by (rule keeps_pairI) (auto simp: writes_def)

interpretation file_be: log_backend "file_do_log E" ctx_ok ctl_view
  by unfold_locales (auto intro: writes_keeps file_do_log_writes file_do_log_frame)


section \<open>On a reliable disk\<close>

lemma on_global_reliable: "never_fails m \<Longrightarrow> never_fails (on_global m)"
  by (auto simp: never_fails_def on_global_def split: prod.splits) (metis fst_conv)

lemma on_context_reliable: "never_fails m \<Longrightarrow> never_fails (on_context t m)"
  by (auto simp: never_fails_def on_context_def split: prod.splits option.splits) (metis fst_conv)

lemma file_do_log_reliable:
  assumes "reliable E"
  shows "never_fails (file_do_log E d)"
proof -
  have "never_fails (write_to_io E d)" "never_fails (write_compact_to_io E d)"
    using bw_write_all_reliable [OF assms]
    by (auto simp: write_to_io_def write_compact_to_io_def intro: ok_rules)
  then show ?thesis
    unfolding file_do_log_def
    by (cases "tag d") (auto intro!: ok_rules on_global_reliable on_context_reliable)
qed

lemma file_batch_reliable: "reliable E \<Longrightarrow> never_fails (file_do_log_batch E ds)"
  unfolding batch_is_for_each by (intro ok_rules file_do_log_reliable)

end
