(* ===== verification/Sink_Logger.thy ===== *)
theory Sink_Logger
  imports Logger_Ctx
begin

text \<open>
  \<open>src/logger/sink_logger.rs\<close>: every registered sink is called with the record, in the
  order of registration, until one fails.  A sink is client code: a state transformer on
  a user state of any type.
\<close>

definition on_user :: "('w, 'e, unit) act \<Rightarrow> ('w st, 'e, unit) act" where
  "on_user m s = (case s of (c, w) \<Rightarrow> case m (w_user w) of (r, u) \<Rightarrow> (r, (c, w\<lparr>w_user := u\<rparr>)))"

definition sink_do_log :: "log_data \<Rightarrow> ('w st, logger_error, unit) act" where
  "sink_do_log d s = for_each (\<lambda>k. on_user (k d)) (sinks (fst s)) s"

lemma on_user_world_only: "world_only (on_user m)"
  by (simp add: world_only_def on_user_def split: prod.splits)

lemma sink_world_only: "world_only (sink_do_log d :: ('w st, logger_error, unit) act)"
proof -
  have "world_only (for_each (\<lambda>k. on_user (k d)) ks)" for ks :: "'w sink list"
    by (rule world_only_for_each) (rule on_user_world_only)
  then show ?thesis by (simp add: world_only_def sink_do_log_def)
qed

interpretation sink_be: log_backend sink_do_log ctx_ok ctl_view
  by unfold_locales (intro world_only_keeps world_only_frames sink_world_only)+

text \<open>The sinks see nothing but their own state: the run is a run over that state.\<close>

lemma on_user_for_each:
  "for_each (\<lambda>k. on_user (k d)) ks s = on_user (for_each (\<lambda>k. k d) ks) s"
proof (induction ks arbitrary: s)
  case Nil
  then show ?case by (simp add: on_user_def ret_def split: prod.splits)
next
  case (Cons k ks)
  obtain c w where s: "s = (c, w)" by (cases s)
  obtain r u where k: "k d (w_user w) = (r, u)" by (meson surj_pair)
  then have o1: "on_user (k d) s = (r, (c, w\<lparr>w_user := u\<rparr>))" by (simp add: on_user_def s)
  show ?case
    using o1 k Cons.IH [of "(c, w\<lparr>w_user := u\<rparr>)"]
    by (cases r) (auto simp: s on_user_def split: prod.splits)
qed

lemma sink_do_log_eq: "sink_do_log d s = on_user (for_each (\<lambda>k. k d) (sinks (fst s))) s"
  by (simp add: sink_do_log_def on_user_for_each)

text \<open>Sinks that never fail are all called, once each and in order.\<close>

lemma sinks_all_called:
  "(\<And>k u. k \<in> set ks \<Longrightarrow> fst (k d u) = Ok ()) \<Longrightarrow>
   for_each (\<lambda>k. k d) ks u = (Ok (), fold (\<lambda>k v. snd (k d v)) ks u)"
proof (induction ks arbitrary: u)
  case (Cons k ks)
  then have "k d u = (Ok (), snd (k d u))" by (metis list.set_intros(1) prod.collapse)
  then show ?case using Cons by simp
qed simp

text \<open>After a sink that fails no later sink is called.\<close>

lemma sinks_stop:
  assumes "\<And>k u. k \<in> set ks \<Longrightarrow> fst (k d u) = Ok ()"
    "k d (fold (\<lambda>k v. snd (k d v)) ks u) = (Err e, v)"
  shows "for_each (\<lambda>k. k d) (ks @ k # ls) u = (Err e, v)"
  using assms by (simp add: for_each_append sinks_all_called)


text \<open>Sinks that never fail, as those registered through the C interface.\<close>

definition safe_sinks :: "'w st \<Rightarrow> bool" where
  "safe_sinks s \<longleftrightarrow> (\<forall>k\<in>set (sinks (fst s)). \<forall>d. never_fails (k d))"

lemma safe_sinks_succeed: "succeeds safe_sinks (sink_do_log d :: ('w st, logger_error, unit) act)"
  unfolding succeeds_def
proof (intro allI impI)
  fix s :: "'w st" assume safe: "safe_sinks s"
  have "fst (k d u) = Ok ()" if "k \<in> set (sinks (fst s))" for k u
  proof -
    have "is_ok (fst (k d u))" using safe that unfolding safe_sinks_def never_fails_def by blast
    then show ?thesis by (cases "fst (k d u)") simp_all
  qed
  then have "for_each (\<lambda>k. k d) (sinks (fst s)) (w_user (snd s)) =
      (Ok (), fold (\<lambda>k v. snd (k d v)) (sinks (fst s)) (w_user (snd s)))"
    by (rule sinks_all_called)
  then show "is_ok (fst (sink_do_log d s)) \<and> safe_sinks (snd (sink_do_log d s))"
    using safe by (cases s) (simp add: sink_do_log_eq on_user_def safe_sinks_def)
qed

text \<open>Sinks that do not fail are all called; the first that fails ends the call.\<close>

theorem every_sink_called:
  assumes "\<And>k u. k \<in> set (sinks (fst s)) \<Longrightarrow> fst (k d u) = Ok ()"
  shows "sink_do_log d s =
    (Ok (), (fst s, (snd s)\<lparr>w_user := fold (\<lambda>k v. snd (k d v)) (sinks (fst s)) (w_user (snd s))\<rparr>))"
  using sinks_all_called [of "sinks (fst s)" d "w_user (snd s)"] assms
  by (cases s) (simp add: sink_do_log_eq on_user_def)

theorem failing_sink_stops:
  assumes "sinks (fst s) = ks @ k # ls" "\<And>j u. j \<in> set ks \<Longrightarrow> fst (j d u) = Ok ()"
    and "k d (fold (\<lambda>k v. snd (k d v)) ks (w_user (snd s))) = (Err e, v)"
  shows "sink_do_log d s = (Err e, (fst s, (snd s)\<lparr>w_user := v\<rparr>))"
  using sinks_stop [of ks d k "w_user (snd s)" e v ls] assms
  by (cases s) (simp add: sink_do_log_eq on_user_def)

end
