(* ===== verification/Logcat_Logger.thy ===== *)
theory Logcat_Logger
  imports Logger_Ctx
begin

text \<open>
  \<open>src/logger/logcat_logger.rs\<close>: on Android a record is laid out in a thread-local byte
  buffer as three zero-terminated strings (tag, file, message) and handed to liblog.  The
  priority codes of the NDK and \<open>__android_log_is_loggable\<close> are parameters.  Slicing out
  of range is a panic of the model; a C reader takes the bytes up to the terminator.
\<close>

datatype priority =
  P_Verbose | P_Debug | P_Info | P_Warn | P_Error | P_Fatal | P_Silent

text \<open>The derived order is the order of declaration.\<close>

fun prio_rank :: "priority \<Rightarrow> nat" where
  "prio_rank P_Verbose = 0"
| "prio_rank P_Debug = 1"
| "prio_rank P_Info = 2"
| "prio_rank P_Warn = 3"
| "prio_rank P_Error = 4"
| "prio_rank P_Fatal = 5"
| "prio_rank P_Silent = 6"

lemma prio_rank_inj: "prio_rank a = prio_rank b \<longleftrightarrow> a = b"
  by (cases a; cases b) simp_all

instantiation priority :: linorder
begin

definition less_eq_priority :: "priority \<Rightarrow> priority \<Rightarrow> bool" where
  "less_eq_priority a b \<longleftrightarrow> prio_rank a \<le> prio_rank b"

definition less_priority :: "priority \<Rightarrow> priority \<Rightarrow> bool" where
  "less_priority a b \<longleftrightarrow> prio_rank a < prio_rank b"

instance
  by intro_classes (auto simp: less_eq_priority_def less_priority_def prio_rank_inj)

end

fun priority_of :: "log_level \<Rightarrow> priority" where
  "priority_of Crit = P_Fatal"
| "priority_of Off = P_Silent"
| "priority_of Info = P_Info"
| "priority_of Warn = P_Warn"
| "priority_of Error = P_Error"
| "priority_of Debug = P_Debug"

text \<open>The build that the \<open>compile_error!\<close> of the file lets through.\<close>

definition logcat_builds :: "features \<Rightarrow> bool" where
  "logcat_builds F \<longleftrightarrow> (ft_logcat F \<longrightarrow> \<not> ft_tracing F)"

record aenv = env +
  prio_code :: "priority \<Rightarrow> nat"
  is_loggable :: "nat \<Rightarrow> byte list \<Rightarrow> bool"

definition logcat_message :: "log_data \<Rightarrow> rstr" where
  "logcat_message d =
     lit ''['' @ concat (loc_pieces (unwrap_or (function_name d) []) d) @ lit ''] '' @ message d"

text \<open>\<open>&buffer[i..j]\<close>, and a C string read from an offset of the buffer.\<close>

definition slice :: "nat \<Rightarrow> nat \<Rightarrow> byte list \<Rightarrow> byte list option" where
  "slice i j bs = (if i \<le> j \<and> j \<le> length bs then Some (take (j - i) (drop i bs)) else None)"

definition c_read :: "byte list \<Rightarrow> nat \<Rightarrow> byte list" where
  "c_read bs i = takeWhile (\<lambda>b. b \<noteq> 0) (drop i bs)"

definition logcat_tag :: "log_data \<Rightarrow> byte list" where
  "logcat_tag d = utf8 (unwrap_or (tag d) (lit ''default''))"

definition logcat_layout :: "log_data \<Rightarrow> byte list" where
  "logcat_layout d = logcat_tag d @ 0 # utf8 (file_name d) @ 0 # utf8 (logcat_message d) @ [0]"

definition tag_len :: "log_data \<Rightarrow> nat" where
  "tag_len d = length (logcat_tag d) + 1"

definition file_len :: "log_data \<Rightarrow> nat" where
  "file_len d = tag_len d + length (utf8 (file_name d)) + 1"

definition message_len :: "log_data \<Rightarrow> nat" where
  "message_len d = length (utf8 (logcat_message d)) + 1"

text \<open>
  The closure run with the thread-local buffer: the result, the buffer it leaves and the
  call made.  The slice of the message ends at \<open>message_len\<close>, as in the source.
\<close>

definition logcat_body ::
  "'z aenv_scheme \<Rightarrow> bool \<Rightarrow> log_data \<Rightarrow> byte list \<Rightarrow>
     (logger_error, unit) res \<times> byte list \<times> logcat_call option" where
  "logcat_body E api30 d buffer =
     (let buf = buffer @ logcat_layout d;
          p = prio_code E (priority_of (level d));
          ctag = c_read buf 0;
          cfile = c_read buf (tag_len d);
          cmsg = c_read buf (file_len d)
      in if slice 0 (tag_len d) buf = None \<or> slice (tag_len d) (file_len d) buf = None \<or>
            slice (file_len d) (message_len d) buf = None
         then (Panic ''slice index out of range'', buf, None)
         else if \<not> api30 then (Ok (), [], Some (LogWrite p ctag cmsg))
         else if \<not> is_loggable E p ctag then (Ok (), buf, None)
         else (Ok (), [], Some (LogMessage B_Main p ctag cfile (line d) cmsg)))"

definition logcat_do_log ::
  "'z aenv_scheme \<Rightarrow> bool \<Rightarrow> log_data \<Rightarrow> ('w st, logger_error, unit) act" where
  "logcat_do_log E api30 d s =
     (case s of (c, w) \<Rightarrow>
        case logcat_body E api30 d (w_cbuf w) of
          (r, buf, call) \<Rightarrow>
            (r, (c, w\<lparr>w_cbuf := buf,
                     w_logcat := w_logcat w @ (case call of None \<Rightarrow> [] | Some x \<Rightarrow> [x])\<rparr>)))"

text \<open>\<open>log_error\<close> and \<open>log_info\<close>: one direct call, nothing for a text with a zero byte.\<close>

definition logcat_direct ::
  "'z aenv_scheme \<Rightarrow> priority \<Rightarrow> rstr \<Rightarrow> 'w world \<Rightarrow> 'w world" where
  "logcat_direct E p m w =
     (case cstring_new (utf8 m) of
        None \<Rightarrow> w
      | Some bs \<Rightarrow>
          w\<lparr>w_logcat := w_logcat w @ [LogWrite (prio_code E p) (utf8 (lit ''Paper2'')) bs]\<rparr>)"

definition logcat_log_error :: "'z aenv_scheme \<Rightarrow> rstr \<Rightarrow> 'w world \<Rightarrow> 'w world" where
  "logcat_log_error E = logcat_direct E P_Error"

definition logcat_log_info :: "'z aenv_scheme \<Rightarrow> rstr \<Rightarrow> 'w world \<Rightarrow> 'w world" where
  "logcat_log_info E = logcat_direct E P_Info"

section \<open>Lemmas\<close>

lemma logcat_world_only: "world_only (logcat_do_log E api30 d)"
  by (simp add: world_only_def logcat_do_log_def split: prod.splits)

interpretation logcat_be: log_backend "logcat_do_log E api30" ctx_ok ctl_view
  by unfold_locales (intro world_only_keeps world_only_frames logcat_world_only)+

lemma length_layout: "length (logcat_layout d) = file_len d + message_len d"
  by (simp add: logcat_layout_def file_len_def message_len_def tag_len_def)

text \<open>The first two slices are always in range; the third is when the message is long enough.\<close>

lemma slices_in_range:
  "slice 0 (tag_len d) (buffer @ logcat_layout d) \<noteq> None"
  "slice (tag_len d) (file_len d) (buffer @ logcat_layout d) \<noteq> None"
  "slice (file_len d) (message_len d) (buffer @ logcat_layout d) = None \<longleftrightarrow>
     message_len d < file_len d"
  by (auto simp: slice_def length_layout file_len_def)

lemma takeWhile_zero: "0 \<notin> set xs \<Longrightarrow> takeWhile (\<lambda>b. b \<noteq> 0) (xs @ 0 # ys) = (xs :: byte list)"
  by (subst takeWhile_append2) auto

text \<open>The length of the message text, in bytes, before the user's text.\<close>

lemma length_utf8_ascii: "\<forall>c\<in>set s. c < 128 \<Longrightarrow> length (utf8 s) = length s"
  by (induction s) (simp_all add: enc_char_def)

lemma ascii_show_u32: "\<forall>c\<in>set (show_u32 w). c < 128"
  using show_nat_digits [of "unat w"] by (fastforce simp: show_u32_def)

lemma length_logcat_message:
  "length (utf8 (logcat_message d)) =
     8 + length (utf8 (file_name d)) + length (show_u32 (line d)) + length (show_u32 (column d)) +
     length (utf8 (unwrap_or (function_name d) [])) + length (utf8 (message d))"
  by (simp add: logcat_message_def loc_pieces_def length_utf8_ascii ascii_show_u32)
    (simp add: length_utf8_ascii lit_def enc_char_def)


text \<open>The record makes the thread panic exactly when its tag is longer than the rest of the message.\<close>

lemma logcat_panics:
  "(\<exists>p. fst (logcat_body E api30 d buffer) = Panic p) \<longleftrightarrow> message_len d < file_len d"
  using slices_in_range [of d buffer] by (auto simp: logcat_body_def Let_def)

lemma file_len_message_len:
  "message_len d < file_len d \<longleftrightarrow>
     7 + length (show_u32 (line d)) + length (show_u32 (column d)) +
       length (utf8 (unwrap_or (function_name d) [])) + length (utf8 (message d))
     < length (logcat_tag d)"
  by (auto simp: message_len_def file_len_def tag_len_def length_logcat_message)

lemma c_read_layout:
  assumes "0 \<notin> set (logcat_tag d)" "0 \<notin> set (utf8 (file_name d))" "0 \<notin> set (utf8 (logcat_message d))"
  shows "c_read (logcat_layout d) 0 = logcat_tag d"
    "c_read (logcat_layout d) (tag_len d) = utf8 (file_name d)"
    "c_read (logcat_layout d) (file_len d) = utf8 (logcat_message d)"
  using assms
  by (simp_all add: c_read_def logcat_layout_def tag_len_def file_len_def takeWhile_zero)

text \<open>A fresh buffer, strings without U+0000 and a long enough message: the call is as meant.\<close>

lemma logcat_body_call:
  assumes "file_len d \<le> message_len d" "rust_str (unwrap_or (tag d) [])" "0 \<notin> set (unwrap_or (tag d) [])"
    "rust_str (file_name d)" "0 \<notin> set (file_name d)"
    "rust_str (logcat_message d)" "0 \<notin> set (logcat_message d)"
  shows "logcat_body E False d [] =
    (Ok (), [], Some (LogWrite (prio_code E (priority_of (level d))) (logcat_tag d)
       (utf8 (logcat_message d))))"
proof -
  have "0 \<notin> set (logcat_tag d)"
  proof (cases "tag d")
    case None
    have "0 \<notin> set (utf8 (lit ''default''))" by (subst zero_utf8) (simp_all add: lit_def scalar_ascii)
    then show ?thesis using None by (simp add: logcat_tag_def)
  next
    case (Some t)
    then show ?thesis using assms(2,3) by (simp add: logcat_tag_def zero_utf8)
  qed
  then have c: "c_read (logcat_layout d) 0 = logcat_tag d"
    "c_read (logcat_layout d) (file_len d) = utf8 (logcat_message d)"
    using c_read_layout [of d] assms(4-7) by (simp_all add: zero_utf8)
  have "\<not> message_len d < file_len d" using assms(1) by simp
  then show ?thesis using slices_in_range [of d "[]"] c by (auto simp: logcat_body_def Let_def)
qed

text \<open>The early return of API 30 leaves the record in the buffer, in front of the next one.\<close>

lemma logcat_stale:
  assumes "file_len d \<le> message_len d" "\<not> is_loggable E (prio_code E (priority_of (level d))) (c_read (buffer @ logcat_layout d) 0)"
  shows "logcat_body E True d buffer = (Ok (), buffer @ logcat_layout d, None)"
proof -
  have "\<not> message_len d < file_len d" using assms(1) by simp
  then show ?thesis using slices_in_range [of d buffer] assms(2) by (auto simp: logcat_body_def Let_def)
qed

lemma c_read_stale:
  "0 \<notin> set (logcat_tag d) \<Longrightarrow> c_read (logcat_layout d @ buf) 0 = logcat_tag d"
  by (simp add: c_read_def logcat_layout_def takeWhile_zero)

text \<open>
  A record without U+0000 whose message is long enough is handed to __android_log_write with
  its priority, its tag and the formatted message, and the buffer is left empty.
\<close>

theorem logcat_writes_record:
  assumes "file_len d \<le> message_len d" "rust_str (unwrap_or (tag d) [])" "0 \<notin> set (unwrap_or (tag d) [])"
    and "rust_str (file_name d)" "0 \<notin> set (file_name d)"
    and "rust_str (logcat_message d)" "0 \<notin> set (logcat_message d)" and "w_cbuf (snd s) = []"
  shows "logcat_do_log E False d s = (Ok (), (fst s, (snd s)\<lparr>w_cbuf := [],
    w_logcat := w_logcat (snd s) @ [LogWrite (prio_code E (priority_of (level d))) (logcat_tag d)
      (utf8 (logcat_message d))]\<rparr>))"
  using logcat_body_call [OF assms(1-7), of E] assms(8) by (cases s) (simp add: logcat_do_log_def)

end
