(* ===== verification/Tracing_Logger.thy ===== *)
theory Tracing_Logger
  imports Logger_Ctx
begin

text \<open>
  \<open>src/logger/tracing_logger.rs\<close> and \<open>src/logger/stdout_logger.rs\<close>: a record is formatted
  and given to the \<open>tracing\<close> macro of its level, or printed.  The events and the printed
  lines are recorded in the world.  Only \<open>do_log\<close> reaches these two backends: the calls of
  \<open>log_thread\<close> do not resolve (\<open>log_thread_builds\<close> of \<open>Log_Thread\<close>).
\<close>

fun tracing_level_of :: "log_level \<Rightarrow> t_level" where
  "tracing_level_of Debug = T_DEBUG"
| "tracing_level_of Info = T_INFO"
| "tracing_level_of Warn = T_WARN"
| "tracing_level_of Error = T_ERROR"
| "tracing_level_of Crit = T_ERROR"
| "tracing_level_of Off = T_ERROR"

text \<open>The event \<open>do_log\<close> emits, if any: nothing for level \<open>Off\<close>.\<close>

fun tracing_event :: "log_level \<Rightarrow> rstr \<Rightarrow> (t_level \<times> rstr) list" where
  "tracing_event Info m = [(T_INFO, m)]"
| "tracing_event Warn m = [(T_WARN, m)]"
| "tracing_event Error m = [(T_ERROR, m)]"
| "tracing_event Debug m = [(T_DEBUG, m)]"
| "tracing_event Crit m = [(T_ERROR, m)]"
| "tracing_event Off m = []"

definition tracing_do_log :: "'z env_scheme \<Rightarrow> log_data \<Rightarrow> ('w st, logger_error, unit) act" where
  "tracing_do_log E d s =
     (case s of (c, w) \<Rightarrow>
        (Ok (), (c, w\<lparr>w_events := w_events w @ tracing_event (level d) (log_format E d)\<rparr>)))"

text \<open>The build that the \<open>compile_error!\<close> of \<open>stdout_logger.rs\<close> lets through.\<close>

definition stdout_builds :: "features \<Rightarrow> bool" where
  "stdout_builds F \<longleftrightarrow> (ft_stdout F \<longrightarrow> ft_tracing F)"

definition stdout_do_log :: "'z env_scheme \<Rightarrow> log_data \<Rightarrow> ('w st, logger_error, unit) act" where
  "stdout_do_log E d s =
     (case s of (c, w) \<Rightarrow> (Ok (), (c, w\<lparr>w_stdout := w_stdout w @ [log_format E d @ [10]]\<rparr>)))"

lemma tracing_world_only: "world_only (tracing_do_log E d)"
  by (simp add: world_only_def tracing_do_log_def split: prod.splits)

lemma stdout_world_only: "world_only (stdout_do_log E d)"
  by (simp add: world_only_def stdout_do_log_def split: prod.splits)

interpretation tracing_be: log_backend "tracing_do_log E" ctx_ok ctl_view
  by unfold_locales (intro world_only_keeps world_only_frames tracing_world_only)+

interpretation stdout_be: log_backend "stdout_do_log E" ctx_ok ctl_view
  by unfold_locales (intro world_only_keeps world_only_frames stdout_world_only)+

text \<open>An emitted event has the converted level of the record.\<close>

lemma tracing_event_level: "e \<in> set (tracing_event l m) \<Longrightarrow> e = (tracing_level_of l, m)"
  by (cases l) simp_all

end
