(* ===== verification/Log_Thread.thy ===== *)
theory Log_Thread
  imports File_Logger Sink_Logger Logcat_Logger Tracing_Logger
begin

text \<open>
  The processing side of \<open>src/logger/logger_thread_ctx.rs\<close>: splitting messages, the
  dispatch of a record to the backends, flushing, one iteration of the log thread, what
  happens when the thread fails, and the panic hook.  Only the thread's own actions are
  here; their interleaving with other threads is in \<open>Log_Pipeline\<close>.
\<close>

section \<open>Splitting messages\<close>

text \<open>
  \<open>split_str_into_chunks\<close>: a message is split at newlines and each line into chunks of at
  most \<open>max\<close> characters by itertools' \<open>chunks\<close> (\<open>None\<close> is its panic); each
  chunk becomes a record of its own.
\<close>

definition split_log :: "'z env_scheme \<Rightarrow> nat \<Rightarrow> log_data \<Rightarrow> log_data list option" where
  "split_log E mx d =
     map_option (\<lambda>cs. map (\<lambda>c. d\<lparr>message := c\<rparr>) (concat cs))
       (those (map (it_chunks E mx) (split_on 10 (message d))))"

definition split_str_into_chunks ::
  "'z env_scheme \<Rightarrow> log_data list \<Rightarrow> nat \<Rightarrow> log_data list option" where
  "split_str_into_chunks E ds mx = map_option concat (those (map (split_log E mx) ds))"

text \<open>What itertools documents of \<open>chunks\<close>.\<close>

locale chunker =
  fixes chunks :: "nat \<Rightarrow> 'a list \<Rightarrow> 'a list list option"
  assumes chunks_zero: "chunks 0 xs = None"
    and chunks_pos: "0 < n \<Longrightarrow> chunks n xs \<noteq> None"
    and chunks_join: "chunks n xs = Some ys \<Longrightarrow> concat ys = xs"
    and chunks_size: "chunks n xs = Some ys \<Longrightarrow> y \<in> set ys \<Longrightarrow> y \<noteq> [] \<and> length y \<le> n"
    and chunks_full: "chunks n xs = Some ys \<Longrightarrow> Suc i < length ys \<Longrightarrow> length (ys ! i) = n"
begin

lemma chunks_Nil: "chunks n [] = Some ys \<Longrightarrow> ys = []"
  using chunks_join [of n "[]" ys] chunks_size [of n "[]" ys] by (cases ys) auto

lemma those_chunks:
  "0 < n \<Longrightarrow> \<exists>ys. those (map (chunks n) xs) = Some ys \<and> concat (concat ys) = concat xs \<and>
     (\<forall>y\<in>set (concat ys). y \<noteq> [] \<and> length y \<le> n)"
proof (induction xs)
  case (Cons x xs)
  then obtain ys where ys: "those (map (chunks n) xs) = Some ys" "concat (concat ys) = concat xs"
      "\<forall>y\<in>set (concat ys). y \<noteq> [] \<and> length y \<le> n"
    by blast
  obtain y where y: "chunks n x = Some y" using chunks_pos [OF Cons.prems] by blast
  have "concat (concat (y # ys)) = concat (x # xs)" using ys(2) chunks_join [OF y] by simp
  moreover have "\<forall>z\<in>set (concat (y # ys)). z \<noteq> [] \<and> length z \<le> n"
    using ys(3) chunks_size [OF y] by auto
  ultimately show ?case using y ys(1) by (intro exI [of _ "y # ys"]) simp
qed simp

lemma those_chunks_zero: "xs \<noteq> [] \<Longrightarrow> those (map (chunks 0) xs) = None"
  by (cases xs) (simp_all add: chunks_zero)

end

text \<open>A concrete chunking, for evaluation.\<close>

fun chop :: "nat \<Rightarrow> nat \<Rightarrow> 'a list \<Rightarrow> 'a list list" where
  "chop 0 n xs = []"
| "chop (Suc fuel) n xs = (if xs = [] then [] else take n xs # chop fuel n (drop n xs))"

definition chunks_ref :: "nat \<Rightarrow> 'a list \<Rightarrow> 'a list list option" where
  "chunks_ref n xs = (if n = 0 then None else Some (chop (length xs) n xs))"

lemma chop_join: "0 < n \<Longrightarrow> length xs \<le> fuel \<Longrightarrow> concat (chop fuel n xs) = xs"
  by (induction fuel n xs rule: chop.induct) auto

lemma chop_size: "0 < n \<Longrightarrow> y \<in> set (chop fuel n xs) \<Longrightarrow> y \<noteq> [] \<and> length y \<le> n"
  by (induction fuel n xs rule: chop.induct) (auto split: if_splits)

lemma chop_full: "Suc i < length (chop fuel n xs) \<Longrightarrow> length (chop fuel n xs ! i) = n"
proof (induction fuel n xs arbitrary: i rule: chop.induct)
  case (2 fuel n xs)
  show ?case
  proof (cases i)
    case 0
    have "n < length xs" if "chop fuel n (drop n xs) \<noteq> []"
      using that by (cases fuel) (auto split: if_splits)
    with 0 2(2) show ?thesis by (auto split: if_splits)
  next
    case (Suc j)
    with 2 show ?thesis by (auto split: if_splits)
  qed
qed simp

interpretation ref_chunker: chunker chunks_ref
  by unfold_locales
    (auto simp: chunks_ref_def chop_join dest: chop_size chop_full split: if_splits)

text \<open>The laws leave no other.\<close>

lemma chop_Nil [simp]: "chop fuel n [] = []"
  by (cases fuel) simp_all

lemma chop_concat:
  "0 < n \<Longrightarrow> \<forall>y\<in>set ys. y \<noteq> [] \<and> length y \<le> n \<Longrightarrow> \<forall>i. Suc i < length ys \<longrightarrow> length (ys ! i) = n \<Longrightarrow>
   length (concat ys) \<le> fuel \<Longrightarrow> chop fuel n (concat ys) = ys"
proof (induction ys arbitrary: fuel)
  case (Cons y ys)
  obtain k where k: "fuel = Suc k" using Cons.prems by (cases fuel) auto
  have "length (ys ! i) = n" if "Suc i < length ys" for i
    using Cons.prems(3) that by (metis Suc_less_eq length_Cons nth_Cons_Suc)
  moreover have "length (concat ys) \<le> k" using Cons.prems(2,4) k by (cases y) simp_all
  ultimately have ih: "chop k n (concat ys) = ys" using Cons.prems(1,2) by (intro Cons.IH) simp_all
  show ?case
  proof (cases ys)
    case Nil
    then show ?thesis using Cons.prems k by simp
  next
    case (Cons z zs)
    then have "length y = n" using Cons.prems(3) by (metis Suc_less_eq length_Cons nth_Cons_0 zero_less_Suc)
    then show ?thesis using ih Cons.prems k by simp
  qed
qed simp

context chunker
begin

lemma chunks_are_ref: "chunks n xs = chunks_ref n xs"
proof (cases "n = 0")
  case False
  then obtain ys where ys: "chunks n xs = Some ys" using chunks_pos by blast
  have "chop (length xs) n (concat ys) = ys"
    by (rule chop_concat) (use False chunks_size [OF ys] chunks_full [OF ys] chunks_join [OF ys] in simp_all)
  then show ?thesis using False chunks_join [OF ys] by (simp add: ys chunks_ref_def)
qed (simp add: chunks_zero chunks_ref_def)

end

section \<open>Dispatch\<close>

text \<open>
  The backends other than files, in the order of the log thread.  Its calls of the standard-output
  and the \<open>tracing\<close> backend are by paths that do not resolve in that function, so no build with one
  of these features exists: the log thread that can run calls logcat and the sinks.
\<close>

definition log_thread_builds :: "features \<Rightarrow> bool" where
  "log_thread_builds F \<longleftrightarrow> \<not> ft_stdout F \<and> \<not> ft_tracing F"

definition other_backends ::
  "'z aenv_scheme \<Rightarrow> features \<Rightarrow> log_data \<Rightarrow> ('w st, logger_error, unit) act" where
  "other_backends E F d =
     seq_act (guarded (ft_logcat F) (logcat_do_log E (ft_api30 F) d)) (guarded (ft_sinks F) (sink_do_log d))"

text \<open>No build has both the logcat and the standard-output backend.\<close>

lemma stdout_excludes_logcat:
  "logcat_builds F \<Longrightarrow> stdout_builds F \<Longrightarrow> \<not> (ft_logcat F \<and> ft_stdout F)"
  by (auto simp: logcat_builds_def stdout_builds_def)

text \<open>\<open>do_log\<close>: one record to every enabled backend, stopping at the first error.\<close>

definition do_log ::
  "'z aenv_scheme \<Rightarrow> features \<Rightarrow> log_data \<Rightarrow> ('w st, logger_error, unit) act" where
  "do_log E F d =
     seq_act (guarded (ft_logcat F) (logcat_do_log E (ft_api30 F) d))
       (seq_act (conv_err IoError (file_do_log E d))
         (seq_act (guarded (ft_stdout F) (stdout_do_log E d))
           (seq_act (guarded (ft_sinks F) (sink_do_log d))
             (guarded (ft_tracing F) (tracing_do_log E d)))))"

text \<open>Its part up to the file backend, which takes the write lock, and the part after it.\<close>

definition do_log_files ::
  "'z aenv_scheme \<Rightarrow> features \<Rightarrow> log_data \<Rightarrow> ('w st, logger_error, unit) act" where
  "do_log_files E F d =
     seq_act (guarded (ft_logcat F) (logcat_do_log E (ft_api30 F) d)) (conv_err IoError (file_do_log E d))"

definition do_log_rest ::
  "'z aenv_scheme \<Rightarrow> features \<Rightarrow> log_data \<Rightarrow> ('w st, logger_error, unit) act" where
  "do_log_rest E F d =
     seq_act (guarded (ft_stdout F) (stdout_do_log E d))
       (seq_act (guarded (ft_sinks F) (sink_do_log d)) (guarded (ft_tracing F) (tracing_do_log E d)))"

lemma do_log_parts: "do_log E F d = seq_act (do_log_files E F d) (do_log_rest E F d)"
  by (simp add: fun_eq_iff do_log_def do_log_files_def do_log_rest_def seq_act_def bind_act_def
      split: prod.splits res.splits)

lemma do_log_builds:
  assumes "log_thread_builds F"
  shows "do_log_rest E F d = guarded (ft_sinks F) (sink_do_log d)"
  using assms by (auto simp: fun_eq_iff do_log_rest_def log_thread_builds_def guarded_def seq_act_def bind_act_def ret_def
      split: prod.splits res.splits)

lemma world_only_guarded: "world_only m \<Longrightarrow> world_only (guarded b m)"
  by (cases b) (simp_all add: world_only_ret)

lemma rest_world_only: "world_only (do_log_rest E F d)"
  unfolding do_log_rest_def
  by (intro world_only_seq world_only_guarded stdout_world_only sink_world_only tracing_world_only)

lemma other_world_only: "world_only (other_backends E F d)"
  unfolding other_backends_def by (intro world_only_seq world_only_guarded logcat_world_only sink_world_only)

interpretation other_be: log_backend "other_backends E F" ctx_ok ctl_view
  by unfold_locales (intro world_only_keeps world_only_frames other_world_only)+

lemma do_log_keeps: "keeps ctx_ok (do_log E F d)"
  unfolding do_log_def
  by (intro keeps_rules logcat_be.run_inv file_be.run_inv stdout_be.run_inv sink_be.run_inv
      tracing_be.run_inv)

lemma do_log_frame: "frames ctl_view (do_log E F d)"
  unfolding do_log_def
  by (intro frame_rules logcat_be.run_frame file_be.run_frame stdout_be.run_frame
      sink_be.run_frame tracing_be.run_frame)

interpretation all_be: log_backend "do_log E F" ctx_ok ctl_view
  by unfold_locales (rule do_log_keeps do_log_frame)+

interpretation files_be: log_backend "do_log_files E F" ctx_ok ctl_view
  by unfold_locales (unfold do_log_files_def, (intro keeps_rules frame_rules logcat_be.run_inv file_be.run_inv
    logcat_be.run_frame file_be.run_frame)+)

interpretation rest_be: log_backend "do_log_rest E F" ctx_ok ctl_view
  by unfold_locales (intro world_only_keeps world_only_frames rest_world_only)+

section \<open>Flushing\<close>

text \<open>
  \<open>flush\<close>: the global file, then the files of the contexts in the order in which the
  hash map yields them (the argument \<open>ks\<close>), then the completion signal.
\<close>

definition flush_files :: "'z os_scheme \<Rightarrow> rstr list \<Rightarrow> ('w st, io_error, unit) act" where
  "flush_files E ks =
     seq_act (on_global (bw_flush E)) (for_each (\<lambda>t. on_context t (bw_flush E)) ks)"

definition signal_flush :: "('w st, io_error, unit) act" where
  "signal_flush s = (case s of (c, w) \<Rightarrow> (Ok (), (c\<lparr>flush_sem := sem_signal (flush_sem c)\<rparr>, w)))"

definition flush :: "'z os_scheme \<Rightarrow> rstr list \<Rightarrow> ('w st, io_error, unit) act" where
  "flush E ks = seq_act (flush_files E ks) signal_flush"

text \<open>An order of iteration visits every registered context.\<close>

definition visits :: "rstr list \<Rightarrow> 'w st \<Rightarrow> bool" where
  "visits ks s \<longleftrightarrow> set ks = dom (context_map (fst s))"

section \<open>The log thread\<close>

record thr =
  log_pool :: "log_data vec_pool"
  logged :: nat

definition thr_init :: thr where
  "thr_init = \<lparr>log_pool = with_initial_amount 2 1024, logged = 0\<rparr>"

text \<open>
  The steps of one iteration.  \<open>lt_take\<close>: take a vector from the pool and swap a copy of
  it with the queue; the guard is held until the end of the iteration.
\<close>

definition lt_take :: "thr \<Rightarrow> 'w ctx \<Rightarrow> log_data list \<times> log_data rvec \<times> thr \<times> 'w ctx" where
  "lt_take th c =
     (case take_vec (log_pool th) of
        (v, p) \<Rightarrow>
          case queue_replace v c of
            (q, c') \<Rightarrow> (q, v, th\<lparr>log_pool := p, logged := logged th + length q\<rparr>, c'))"

definition lt_write ::
  "'z aenv_scheme \<Rightarrow> features \<Rightarrow> log_data list \<Rightarrow> ('w st, logger_error, unit) act" where
  "lt_write E F logs =
     seq_act (conv_err IoError (file_do_log_batch E logs)) (for_each (other_backends E F) logs)"

definition lt_process ::
  "'z aenv_scheme \<Rightarrow> features \<Rightarrow> log_data list \<Rightarrow> ('w st, logger_error, unit) act" where
  "lt_process E F q s =
     (if q = [] then (Ok (), s)
      else case split_str_into_chunks E q (max_string_len (config (fst s))) of
             None \<Rightarrow> (Panic ''assertion failed: size != 0'', s)
           | Some logs \<Rightarrow> lt_write E F logs s)"

definition lt_should_flush :: "thr \<Rightarrow> 'w ctx \<Rightarrow> bool" where
  "lt_should_flush th c \<longleftrightarrow> log_queue c = [] \<or> 100 \<le> logged th"

definition lt_flush :: "'z os_scheme \<Rightarrow> rstr list \<Rightarrow> ('w st, logger_error, unit) act" where
  "lt_flush E ks = conv_err FlushError (flush E ks)"

definition lt_release :: "log_data rvec \<Rightarrow> thr \<Rightarrow> thr" where
  "lt_release v th = th\<lparr>log_pool := guard_drop v (log_pool th)\<rparr>"

text \<open>
  One iteration with nobody else running in between; the result is the thread's new local
  state, and whether it goes on to wait is \<open>log_queue = []\<close>.
\<close>

definition log_iter ::
  "'z aenv_scheme \<Rightarrow> features \<Rightarrow> rstr list \<Rightarrow> thr \<Rightarrow> ('w st, logger_error, thr) act" where
  "log_iter E F ks th s =
     (case s of (c, w) \<Rightarrow>
        case lt_take th c of
          (q, v, th1, c1) \<Rightarrow>
            bind_act (lt_process E F q)
              (\<lambda>_ s2. if lt_should_flush th1 (fst s2)
                      then seq_act (lt_flush E ks) (ret (lt_release v (th1\<lparr>logged := 0\<rparr>))) s2
                      else ret (lt_release v th1) s2)
              (c1, w))"

text \<open>A statement whose result is dropped (\<open>let _ = ...\<close>); a panic still propagates.\<close>

definition ignore_err :: "('s, 'e, unit) act \<Rightarrow> ('s, 'f, unit) act" where
  "ignore_err m s =
     (case m s of (Ok u, t) \<Rightarrow> (Ok (), t) | (Err e, t) \<Rightarrow> (Ok (), t) | (Panic p, t) \<Rightarrow> (Panic p, t))"

text \<open>The record built by \<open>log_data_to!\<close> at a line and column of the file.\<close>

definition macro_record ::
  "rstr \<Rightarrow> rstr \<Rightarrow> 32 word \<Rightarrow> 32 word \<Rightarrow> instant \<Rightarrow> log_data" where
  "macro_record tg msg ln col now =
     \<lparr>level = Error, tag = Some tg, message = msg, timestamp = now,
      file_name = lit ''src/logger/logger_thread_ctx.rs'', line = ln, column = col,
      function_name = None\<rparr>"

definition log_data_to ::
  "'z aenv_scheme \<Rightarrow> features \<Rightarrow> log_data \<Rightarrow> ('w st, logger_error, unit) act" where
  "log_data_to E F d = ignore_err (do_log E F d)"

text \<open>The end of the spawned thread: after an error, flush and report it; a panic just ends it.\<close>

definition exit_report :: "(io_error \<Rightarrow> rstr) \<Rightarrow> instant \<Rightarrow> logger_error \<Rightarrow> log_data" where
  "exit_report show_io now e = macro_record (lit ''Paper2'')
     (lit ''Error occurred in logging thread: '' @ show_error show_io e) 168 17 now"

definition thread_exit ::
  "'z aenv_scheme \<Rightarrow> features \<Rightarrow> (io_error \<Rightarrow> rstr) \<Rightarrow> rstr list \<Rightarrow> instant \<Rightarrow> logger_error \<Rightarrow>
     ('w st, logger_error, unit) act" where
  "thread_exit E F show_io ks now e =
     seq_act (ignore_err (flush E ks)) (log_data_to E F (exit_report show_io now e))"

section \<open>The panic hook\<close>

datatype payload = StaticStr rstr | OwnedString rstr | OtherPayload

fun payload_text :: "payload \<Rightarrow> rstr" where
  "payload_text (StaticStr s) = s"
| "payload_text (OwnedString s) = s"
| "payload_text OtherPayload = lit ''Box<dyn Any>''"

text \<open>
  The hook writes directly to the backends: the panic, the backtrace if asked for, and the
  span trace when \<open>tracing\<close> is on.  It does not flush.
\<close>

definition panic_hook ::
  "'z aenv_scheme \<Rightarrow> features \<Rightarrow> bool \<Rightarrow> bool \<Rightarrow> rstr \<Rightarrow> rstr \<Rightarrow> rstr \<Rightarrow> instant \<Rightarrow> payload \<Rightarrow>
     ('w st, logger_error, unit) act" where
  "panic_hook E F backtrace spantrace location bt st now p =
     seq_act
       (log_data_to E F (macro_record (lit ''panic'')
          (lit ''panicked at '' @ [39] @ payload_text p @ [39] @ lit '', '' @ location) 441 9 now))
       (seq_act
         (guarded backtrace (log_data_to E F (macro_record (lit ''panic'') bt 448 13 now)))
         (guarded (ft_tracing F \<and> spantrace)
           (log_data_to E F (macro_record (lit ''panic'') st 461 13 now))))"

section \<open>Lemmas on splitting\<close>

lemma split_log_spec:
  assumes "chunker (it_chunks E)" "0 < mx"
  shows "\<exists>ps. split_log E mx d = Some ps \<and>
    concat (map message ps) = filter (\<lambda>c. c \<noteq> 10) (message d) \<and>
    (\<forall>p\<in>set ps. p = d\<lparr>message := message p\<rparr> \<and> message p \<noteq> [] \<and> length (message p) \<le> mx)"
proof -
  obtain ys where ys: "those (map (it_chunks E mx) (split_on 10 (message d))) = Some ys"
      "concat (concat ys) = concat (split_on 10 (message d))"
      "\<forall>y\<in>set (concat ys). y \<noteq> [] \<and> length y \<le> mx"
    using chunker.those_chunks [OF assms] by blast
  let ?ps = "map (\<lambda>c. d\<lparr>message := c\<rparr>) (concat ys)"
  have "map message ?ps = concat ys" by (simp add: comp_def)
  then have "concat (map message ?ps) = filter (\<lambda>c. c \<noteq> 10) (message d)"
    using ys(2) by (simp add: concat_split_on)
  moreover have "split_log E mx d = Some ?ps" using ys(1) by (simp add: split_log_def)
  ultimately show ?thesis using ys(3) by (intro exI [of _ ?ps]) auto
qed

lemma those_map_Some:
  "(\<And>x. x \<in> set xs \<Longrightarrow> f x \<noteq> None) \<Longrightarrow> \<exists>ys. those (map f xs) = Some ys"
proof (induction xs)
  case (Cons x xs)
  then obtain y ys where "f x = Some y" "those (map f xs) = Some ys" by fastforce
  then show ?case by simp
qed simp

lemma split_chunks_Some:
  assumes "chunker (it_chunks E)" "0 < mx"
  shows "\<exists>ps. split_str_into_chunks E ds mx = Some ps"
proof -
  have "\<exists>ys. those (map (split_log E mx) ds) = Some ys"
    using split_log_spec [OF assms] by (intro those_map_Some) blast
  then show ?thesis by (auto simp: split_str_into_chunks_def)
qed

lemma split_chunks_simps:
  "split_str_into_chunks E [] mx = Some []"
  "split_str_into_chunks E (d # ds) mx =
     (case split_log E mx d of None \<Rightarrow> None
      | Some ps \<Rightarrow> map_option ((@) ps) (split_str_into_chunks E ds mx))"
  by (auto simp: split_str_into_chunks_def option.map_comp comp_def split: option.splits)

lemma split_chunks_append:
  "split_str_into_chunks E ds mx = Some ps \<Longrightarrow> split_str_into_chunks E es mx = Some qs \<Longrightarrow>
   split_str_into_chunks E (ds @ es) mx = Some (ps @ qs)"
  by (induction ds arbitrary: ps) (auto simp: split_chunks_simps split: option.splits)

lemma split_chunks_zero:
  assumes "chunker (it_chunks E)" "ds \<noteq> []"
  shows "split_str_into_chunks E ds 0 = None"
proof -
  obtain d es where ds: "ds = d # es" using assms(2) by (cases ds) auto
  have "split_log E 0 d = None"
    using chunker.those_chunks_zero [OF assms(1)] by (simp add: split_log_def)
  then show ?thesis by (simp add: ds split_chunks_simps)
qed

section \<open>Lemmas on flushing\<close>

lemma bw_flush_appends: "bw_appends [] (bw_flush E)"
  unfolding bw_appends_def bw_flush_def
  by (intro allI impI) (drule (1) bw_flush_buf_spec, auto)

lemma writes_flush_global: "writes E [] (on_global (bw_flush E'))"
  unfolding writes_def
proof (intro allI impI)
  fix s r t assume "ctx_ok s" "on_global (bw_flush E') s = (r, t)"
  note spec = on_global_spec [OF bw_flush_appends this]
  then have "grows s t [] (\<lambda>u. [])"
    by (cases "is_ok r") (auto simp: grows_def option.map_ident)
  with spec show "ctx_ok t \<and> (\<forall>p. r \<noteq> Panic p) \<and>
     (\<exists>G C. grows s t G C \<and> prefix G (full_lines E []) \<and> (\<forall>u. prefix (C u) (context_lines E [] u)) \<and>
        (is_ok r \<longrightarrow> G = full_lines E [] \<and> C = context_lines E []))"
    by (intro conjI exI [of _ "[]"] exI [of _ "\<lambda>u. []"]) (auto simp: fun_eq_iff)
qed

lemma writes_flush_context: "writes E [] (on_context k (bw_flush E'))"
  unfolding writes_def
proof (intro allI impI)
  fix s r t assume "ctx_ok s" "on_context k (bw_flush E') s = (r, t)"
  note spec = on_context_spec [OF bw_flush_appends this]
  then have "ctx_stream t u = ctx_stream s u" for u
    by (cases "u = k"; cases "is_ok r") (auto simp: option.map_ident)
  with spec have "grows s t [] (\<lambda>u. [])" by (auto simp: grows_def option.map_ident)
  with spec show "ctx_ok t \<and> (\<forall>p. r \<noteq> Panic p) \<and>
     (\<exists>G C. grows s t G C \<and> prefix G (full_lines E []) \<and> (\<forall>u. prefix (C u) (context_lines E [] u)) \<and>
        (is_ok r \<longrightarrow> G = full_lines E [] \<and> C = context_lines E []))"
    by (intro conjI exI [of _ "[]"] exI [of _ "\<lambda>u. []"]) (auto simp: fun_eq_iff)
qed

lemma writes_signal: "writes E [] signal_flush"
  unfolding writes_def
  by (intro allI impI conjI exI [of _ "[]"] exI [of _ "\<lambda>u. []"])
    (auto simp: signal_flush_def grows_def option.map_ident global_stream_def ctx_stream_def
      ctx_ok_def fun_eq_iff split: prod.splits)

lemma writes_flush_contexts: "writes E [] (for_each (\<lambda>t. on_context t (bw_flush E')) ks)"
proof (induction ks)
  case (Cons k ks)
  then show ?case using writes_seq [OF writes_flush_context Cons] by simp
qed (simp add: writes_Nil)

lemma writes_flush: "writes E [] (flush E' ks)"
  unfolding flush_def flush_files_def
  using writes_seq [OF writes_seq [OF writes_flush_global writes_flush_contexts] writes_signal]
  by simp

text \<open>Empty buffers, which make the disk agree with the accepted stream.\<close>

definition clean_global :: "'w st \<Rightarrow> bool" where
  "clean_global s \<longleftrightarrow> bw_buf (global_file (fst s)) = []"

definition clean_ctx :: "'w st \<Rightarrow> rstr \<Rightarrow> bool" where
  "clean_ctx s u \<longleftrightarrow> (\<forall>b. context_map (fst s) u = Some b \<longrightarrow> bw_buf b = [])"

definition all_clean :: "'w st \<Rightarrow> bool" where
  "all_clean s \<longleftrightarrow> clean_global s \<and> (\<forall>u. clean_ctx s u)"

lemma clean_disk:
  assumes "all_clean s"
  shows "global_disk s = global_stream s" "ctx_disk s u = ctx_stream s u"
  using assms
  by (auto simp: all_clean_def clean_global_def clean_ctx_def global_disk_def global_stream_def
      ctx_disk_def ctx_stream_def bw_disk_def bw_stream_def split: option.splits
      intro!: map_option_cong)

lemma flush_global_clean:
  assumes "ctx_ok s" "on_global (bw_flush E) s = (Ok (), t)"
  shows "clean_global t"
proof -
  obtain c w where s: "s = (c, w)" by (cases s)
  obtain f b where m: "bw_flush E (w_fs w, global_file c) = (Ok (), (f, b))" "global_file (fst t) = b"
    using assms(2) by (auto simp: on_global_def s split: prod.splits)
  have "bw_ok (w_fs w, global_file c)" using assms(1) by (simp add: ctx_ok_def s)
  from bw_flush_buf_spec [OF this, of E] m show ?thesis by (simp add: clean_global_def bw_flush_def)
qed

lemma flush_context_clean:
  assumes "ctx_ok s" "on_context k (bw_flush E) s = (Ok (), t)"
  shows "clean_ctx t k" "clean_ctx s u \<Longrightarrow> clean_ctx t u" "clean_global s \<Longrightarrow> clean_global t"
proof -
  obtain c w where s: "s = (c, w)" by (cases s)
  have "clean_ctx t k \<and> (clean_ctx s u \<longrightarrow> clean_ctx t u) \<and> (clean_global s \<longrightarrow> clean_global t)"
  proof (cases "context_map c k")
    case None
    then show ?thesis using assms(2) by (auto simp: on_context_def s clean_ctx_def)
  next
    case (Some b0)
    obtain f b where m: "bw_flush E (w_fs w, b0) = (Ok (), (f, b))"
        "t = (c\<lparr>context_map := (context_map c)(k \<mapsto> b)\<rparr>, w\<lparr>w_fs := f\<rparr>)"
      using assms(2) Some by (auto simp: on_context_def s split: prod.splits)
    have "bw_ok (w_fs w, b0)" using assms(1) Some by (auto simp: ctx_ok_def s)
    from bw_flush_buf_spec [OF this, of E] m have "bw_buf b = []" by (simp add: bw_flush_def)
    then show ?thesis by (auto simp: m(2) clean_ctx_def clean_global_def s)
  qed
  then show "clean_ctx t k" "clean_ctx s u \<Longrightarrow> clean_ctx t u" "clean_global s \<Longrightarrow> clean_global t"
    by blast+
qed

lemma flush_contexts_clean:
  "ctx_ok s \<Longrightarrow> for_each (\<lambda>t. on_context t (bw_flush E)) ks s = (Ok (), t) \<Longrightarrow>
   (clean_global s \<longrightarrow> clean_global t) \<and> (\<forall>u. u \<in> set ks \<or> clean_ctx s u \<longrightarrow> clean_ctx t u)"
proof (induction ks arbitrary: s)
  case (Cons k ks)
  from Cons.prems(2) obtain s1 where k: "on_context k (bw_flush E) s = (Ok (), s1)"
      "for_each (\<lambda>t. on_context t (bw_flush E)) ks s1 = (Ok (), t)"
    by (auto elim: seq_act_OkE)
  have "ctx_ok s1" using keepsD [OF writes_keeps [OF writes_flush_context] Cons.prems(1) k(1)] .
  from Cons.IH [OF this k(2)] flush_context_clean [OF Cons.prems(1) k(1)] show ?case by auto
qed simp

lemma flush_files_frame: "frames ctl_view (flush_files E ks)"
  unfolding flush_files_def by (intro frame_rules)

lemma ctl_view_dom: "ctl_view s = ctl_view t \<Longrightarrow> dom (context_map (fst s)) = dom (context_map (fst t))"
  by (simp add: ctl_view_def)

lemma flush_clean:
  assumes ok: "ctx_ok s" and ks: "visits ks s" and run: "flush E ks s = (Ok (), t)"
  shows "all_clean t \<and> flush_sem (fst t)"
proof -
  obtain s1 s2 where r: "on_global (bw_flush E) s = (Ok (), s1)"
      "for_each (\<lambda>t. on_context t (bw_flush E)) ks s1 = (Ok (), s2)" "signal_flush s2 = (Ok (), t)"
    using run unfolding flush_def flush_files_def by (auto elim!: seq_act_OkE)
  have ok1: "ctx_ok s1" using keepsD [OF writes_keeps [OF writes_flush_global] ok r(1)] .
  have fl: "flush_files E ks s = (Ok (), s2)" using r(1,2) by (simp add: flush_files_def)
  have dom: "dom (context_map (fst s2)) = set ks"
    using ctl_view_dom [OF framesD [OF flush_files_frame fl]] ks by (simp add: visits_def)
  have "clean_ctx s2 u" for u
  proof (cases "u \<in> set ks")
    case True
    then show ?thesis using flush_contexts_clean [OF ok1 r(2)] by blast
  next
    case False
    then show ?thesis using dom by (auto simp: clean_ctx_def)
  qed
  moreover have "clean_global s2"
    using flush_contexts_clean [OF ok1 r(2)] flush_global_clean [OF ok r(1)] by blast
  ultimately show ?thesis
    using r(3) by (auto simp: signal_flush_def all_clean_def clean_global_def clean_ctx_def
        sem_signal_def split: prod.splits)
qed

section \<open>Lemmas on an iteration\<close>

lemma world_only_state: "world_only m \<Longrightarrow> m s = (r, t) \<Longrightarrow> fst t = fst s \<and> w_fs (snd t) = w_fs (snd s)"
  unfolding world_only_def by (metis snd_conv)

lemma world_only_grows: "world_only m \<Longrightarrow> m s = (r, t) \<Longrightarrow> grows s t [] (\<lambda>u. [])"
  by (drule (1) world_only_state)
    (simp add: grows_def global_stream_def ctx_stream_def option.map_ident)

lemma batch_frame: "frames ctl_view (file_do_log_batch E ds)"
  unfolding batch_is_for_each by (rule file_be.runs_frame)

lemma lt_write_frame: "frames ctl_view (lt_write E F logs)"
  unfolding lt_write_def by (intro frame_rules batch_frame other_be.run_frame)

lemma lt_write_keeps: "keeps ctx_ok (lt_write E F logs)"
  unfolding lt_write_def by (intro keeps_rules writes_keeps [OF file_batch_writes] other_be.run_inv)

lemma lt_process_cases:
  "snd (lt_process E F q s) = s \<or> (\<exists>logs. snd (lt_process E F q s) = snd (lt_write E F logs s))"
  by (auto simp: lt_process_def split: option.splits)

lemma lt_process_frame: "frames ctl_view (lt_process E F q)"
  using lt_process_cases [of E F q] lt_write_frame unfolding frames_def by metis

lemma lt_process_keeps: "keeps ctx_ok (lt_process E F q)"
  using lt_process_cases [of E F q] lt_write_keeps unfolding keeps_def by metis

lemma lt_process_ok:
  assumes "ctx_ok s" "split_str_into_chunks E q (max_string_len (config (fst s))) = Some logs"
    and "lt_process E F q s = (Ok (), t)"
  shows "grows s t (full_lines E logs) (context_lines E logs)"
proof (cases "q = []")
  case True
  then have "logs = []" "t = s" using assms(2,3) by (simp_all add: split_chunks_simps lt_process_def)
  moreover have "context_lines E [] = (\<lambda>u. [])" by (simp add: fun_eq_iff)
  ultimately show ?thesis by simp
next
  case False
  then obtain u where u: "file_do_log_batch E logs s = (Ok (), u)"
      "for_each (other_backends E F) logs u = (Ok (), t)"
    using assms(2,3) by (auto simp: lt_process_def lt_write_def elim!: seq_act_OkE)
  have "grows s u (full_lines E logs) (context_lines E logs)"
    using file_batch_writes [of E logs, unfolded writes_def, rule_format, OF assms(1) u(1)] by auto
  from grows_trans [OF this world_only_grows [OF world_only_for_each [OF other_world_only] u(2)]]
  show ?thesis by simp
qed

lemma lt_take_spec:
  assumes "pool_ok (log_pool th)" "lt_take th c = (q, v, th1, c1)"
  shows "q = log_queue c" "c1 = c\<lparr>log_queue := []\<rparr>" "pool_ok (log_pool th1)"
    "logged th1 = logged th + length q" "elems v = []"
    "pool_len (log_pool (lt_release w th1)) = max 1 (pool_len (log_pool th))"
proof -
  obtain v' p where tv: "take_vec (log_pool th) = (v', p)" by (meson surj_pair)
  have "lt_take th c = (log_queue c, v',
      th\<lparr>log_pool := p, logged := logged th + length (log_queue c)\<rparr>, c\<lparr>log_queue := elems v'\<rparr>)"
    by (simp add: lt_take_def queue_replace_def tv)
  note eqs = trans [OF this [symmetric] assms(2), unfolded prod.inject]
  have v: "v' = v" and q: "q = log_queue c" using eqs by blast+
  have p: "take_vec (log_pool th) = (v, p)" using tv v by simp
  have th1: "th1 = th\<lparr>log_pool := p, logged := logged th + length q\<rparr>"
    unfolding q using eqs by blast
  have c1: "c1 = c\<lparr>log_queue := elems v\<rparr>"
    unfolding v [symmetric] using eqs by blast
  note p = p th1 q c1
  note e = vp.take_empty [OF assms(1) p(1)]
  show "q = log_queue c" "c1 = c\<lparr>log_queue := []\<rparr>" "pool_ok (log_pool th1)"
    "logged th1 = logged th + length q" "elems v = []"
    using p(2-4) e vp.take_inv [OF assms(1) p(1)] by simp_all
  show "pool_len (log_pool (lt_release w th1)) = max 1 (pool_len (log_pool th))"
    using vp.stock_cycle [OF p(1)] by (simp add: lt_release_def p(2))
qed

lemma ctx_ok_queue: "ctx_ok (c\<lparr>log_queue := q\<rparr>, w) = ctx_ok (c, w)"
  by (simp add: ctx_ok_def)

lemma grows_queue: "grows (c\<lparr>log_queue := q\<rparr>, w) t G C = grows (c, w) t G C"
  by (simp add: grows_def global_stream_def ctx_stream_def)

text \<open>
  One iteration that returns has written the lines of everything queued, emptied the
  queue, flushed every file and signalled the flush.
\<close>

lemma log_iter_ok:
  assumes ok: "ctx_ok s" and pool: "pool_ok (log_pool th)" and ks: "visits ks s"
    and split: "split_str_into_chunks E (log_queue (fst s)) (max_string_len (config (fst s))) = Some logs"
    and run: "log_iter E F ks th s = (Ok th', t)"
  shows "ctx_ok t \<and> log_queue (fst t) = [] \<and> all_clean t \<and> flush_sem (fst t) \<and>
    grows s t (full_lines E logs) (context_lines E logs) \<and>
    pool_ok (log_pool th') \<and> pool_len (log_pool th') = max 1 (pool_len (log_pool th)) \<and>
    visits ks t \<and> config (fst t) = config (fst s)"
proof -
  obtain c w where s: "s = (c, w)" by (cases s)
  obtain q v th1 c1 where tk: "lt_take th c = (q, v, th1, c1)" by (metis prod_cases4)
  note take = lt_take_spec [OF pool tk]
  obtain s2 where p: "lt_process E F q (c1, w) = (Ok (), s2)"
      and k: "(if lt_should_flush th1 (fst s2)
        then seq_act (lt_flush E ks) (ret (lt_release v (th1\<lparr>logged := 0\<rparr>))) s2
        else ret (lt_release v th1) s2) = (Ok th', t)"
    using run by (auto simp: log_iter_def s tk elim!: bind_act_OkE)
  have ok1: "ctx_ok (c1, w)" using ok by (simp add: s take(2) ctx_ok_queue)
  have ok2: "ctx_ok s2" using keepsD [OF lt_process_keeps ok1 p] .
  have v2: "ctl_view s2 = ctl_view (c1, w)" using framesD [OF lt_process_frame p] .
  have q2: "log_queue (fst s2) = []" using v2 take(2) by (simp add: ctl_view_def)
  then have f: "flush E ks s2 = (Ok (), t)" "th' = lt_release v (th1\<lparr>logged := 0\<rparr>)"
    using k by (auto simp: lt_should_flush_def lt_flush_def elim!: seq_act_OkE)
  have ks2: "visits ks s2" using ks ctl_view_dom [OF v2] by (simp add: visits_def s take(2))
  have g1: "grows s s2 (full_lines E logs) (context_lines E logs)"
    using lt_process_ok [OF ok1 _ p] split by (simp add: s take(1,2) grows_queue)
  have w3: "ctx_ok t" "grows s2 t [] (\<lambda>u. [])"
    using writes_flush [of E E ks, unfolded writes_def, rule_format, OF ok2 f(1)]
    by (auto elim: grows_cong)
  obtain s3 where s3: "flush_files E ks s2 = (Ok (), s3)" "signal_flush s3 = (Ok (), t)"
    using f(1) by (auto simp: flush_def elim!: seq_act_OkE)
  have e3: "ctl_view s3 = ctl_view (c1, w)" using framesD [OF flush_files_frame s3(1)] v2 by simp
  have sg: "log_queue (fst t) = log_queue (fst s3)" "config (fst t) = config (fst s3)"
      "context_map (fst t) = context_map (fst s3)"
    using s3(2) by (auto simp: signal_flush_def split: prod.splits)
  have v3: "log_queue (fst t) = []" "config (fst t) = config c"
      "dom (context_map (fst t)) = dom (context_map c)"
    using e3 ctl_view_dom [OF e3] take(2) by (simp_all add: sg) (simp_all add: ctl_view_def)
  have pl: "pool_ok (log_pool th')" "pool_len (log_pool th') = max 1 (pool_len (log_pool th))"
    using take(3,6) vp.give_inv by (simp_all add: f(2) lt_release_def)
  show ?thesis
    using w3(1) v3 pl flush_clean [OF ok2 ks2 f(1)] grows_trans [OF g1 w3(2)] ks
    by (simp add: visits_def s)
qed

section \<open>Runs\<close>

text \<open>
  A schedule of calls of \<open>queue_log\<close> (\<open>Some d\<close>) and of whole iterations (\<open>None\<close>).
\<close>

fun run_schedule ::
  "'z aenv_scheme \<Rightarrow> features \<Rightarrow> rstr list \<Rightarrow> log_data option list \<Rightarrow> thr \<Rightarrow>
     ('w st, logger_error, thr) act" where
  "run_schedule E F ks [] th s = (Ok th, s)"
| "run_schedule E F ks (Some d # es) th s =
     run_schedule E F ks es th (queue_log d (fst s), snd s)"
| "run_schedule E F ks (None # es) th s =
     bind_act (log_iter E F ks th) (run_schedule E F ks es) s"

definition queued :: "log_data option list \<Rightarrow> log_data list" where
  "queued es = List.map_filter (\<lambda>e. e) es"

lemma queued_simps [simp]:
  "queued [] = []" "queued (Some d # es) = d # queued es" "queued (None # es) = queued es"
  "queued (es @ fs) = queued es @ queued fs"
  by (simp_all add: queued_def map_filter_def)

lemma queue_log_simps:
  "log_queue (queue_log d c) = log_queue c @ [d]" "config (queue_log d c) = config c"
  "context_map (queue_log d c) = context_map c" "global_file (queue_log d c) = global_file c"
  by (simp_all add: queue_log_def queue_push_def queue_signal_def)

lemma queue_log_state:
  "ctx_ok (queue_log d (fst s), snd s) = ctx_ok s"
  "grows (queue_log d (fst s), snd s) t G C = grows s t G C"
  "visits ks (queue_log d (fst s), snd s) = visits ks s"
  by (simp_all add: ctx_ok_def grows_def global_stream_def ctx_stream_def visits_def queue_log_simps)

lemma run_schedule_ok:
  assumes ch: "chunker (it_chunks E)" and mx: "0 < mx"
  shows "ctx_ok s \<Longrightarrow> pool_ok (log_pool th) \<Longrightarrow> visits ks s \<Longrightarrow> max_string_len (config (fst s)) = mx \<Longrightarrow>
    run_schedule E F ks es th s = (Ok th', t) \<Longrightarrow>
    \<exists>done logs. done @ log_queue (fst t) = log_queue (fst s) @ queued es \<and>
      split_str_into_chunks E done mx = Some logs \<and>
      grows s t (full_lines E logs) (context_lines E logs) \<and> ctx_ok t \<and>
      pool_ok (log_pool th') \<and> visits ks t \<and> max_string_len (config (fst t)) = mx"
proof (induction es arbitrary: th s)
  case Nil
  then show ?case
    by (intro exI [of _ "[]"]) (auto simp: split_chunks_simps fun_eq_iff grows_def option.map_ident)
next
  case (Cons e es)
  show ?case
  proof (cases e)
    case (Some d)
    then show ?thesis
      using Cons.IH [of "(queue_log d (fst s), snd s)" th] Cons.prems
      by (simp add: queue_log_state queue_log_simps)
  next
    case None
    from Cons.prems(5) None obtain th1 s1 where i: "log_iter E F ks th s = (Ok th1, s1)"
        "run_schedule E F ks es th1 s1 = (Ok th', t)"
      by (auto elim: bind_act_OkE)
    obtain l1 where l1: "split_str_into_chunks E (log_queue (fst s)) mx = Some l1"
      using split_chunks_Some [OF ch mx] by blast
    note it = log_iter_ok [OF Cons.prems(1-3) _ i(1), unfolded Cons.prems(4), OF l1]
    obtain dn l2 where
      r: "dn @ log_queue (fst t) = queued es" "split_str_into_chunks E dn mx = Some l2"
        "grows s1 t (full_lines E l2) (context_lines E l2)" "ctx_ok t" "pool_ok (log_pool th')"
        "visits ks t" "max_string_len (config (fst t)) = mx"
      using Cons.IH [of s1 th1] it i(2) Cons.prems(4) by auto
    have "grows s t (full_lines E (l1 @ l2)) (context_lines E (l1 @ l2))"
      proof -
      have "grows s s1 (full_lines E l1) (context_lines E l1)" using it by blast
      from grows_cong [OF grows_trans [OF this r(3)]] show ?thesis by simp
    qed
    with r split_chunks_append [OF l1 r(2)] show ?thesis
      by - (rule exI [where x = "log_queue (fst s) @ dn"], rule exI [where x = "l1 @ l2"],
          simp add: None del: context_lines_simps)
  qed
qed


section \<open>Without failing backends\<close>

lemma flush_reliable: "reliable E \<Longrightarrow> never_fails (flush E ks)"
proof -
  assume "reliable E"
  note fl = bw_flush_reliable [OF this]
  have "never_fails signal_flush" by (simp add: never_fails_def signal_flush_def split: prod.splits)
  then show ?thesis
    unfolding flush_def flush_files_def
    by (intro ok_rules on_global_reliable on_context_reliable fl)
qed

text \<open>Logcat and the sinks are the backends besides the files that can fail.\<close>

lemma world_only_safe_sinks: "world_only m \<Longrightarrow> keeps safe_sinks m"
  by (simp add: keeps_def world_only_def safe_sinks_def)

lemma other_backends_safe:
  assumes "\<not> ft_logcat F"
  shows "succeeds safe_sinks (other_backends E F d)"
  unfolding other_backends_def by (intro succeeds_seq succeeds_guarded safe_sinks_succeed) (use assms in blast)

lemma ctl_view_sinks: "ctl_view t = ctl_view s \<Longrightarrow> safe_sinks t = safe_sinks s"
  by (simp add: ctl_view_def safe_sinks_def)

lemma frames_safe_sinks:
  fixes m :: "('w st, 'e, 'a) act"
  assumes "frames ctl_view m"
  shows "keeps safe_sinks m"
proof
  fix s :: "'w st" assume "safe_sinks s"
  moreover have "ctl_view (snd (m s)) = ctl_view s" using assms unfolding frames_def by blast
  ultimately show "safe_sinks (snd (m s))" using ctl_view_sinks by blast
qed

lemma batch_safe: "reliable E \<Longrightarrow> succeeds safe_sinks (file_do_log_batch E ds)"
proof (rule never_fails_keeps [OF file_batch_reliable])
  show "keeps safe_sinks (file_do_log_batch E ds)"
    unfolding batch_is_for_each by (intro frames_safe_sinks file_be.runs_frame)
qed

lemma lt_process_reliable:
  assumes "reliable E" "chunker (it_chunks E)" "0 < max_string_len (config (fst s))"
    and "\<not> ft_logcat F" "safe_sinks s"
  shows "is_ok (fst (lt_process E F q s))"
proof -
  obtain logs where logs: "split_str_into_chunks E q (max_string_len (config (fst s))) = Some logs"
    using split_chunks_Some [OF assms(2,3)] by blast
  have "succeeds safe_sinks (lt_write E F logs)"
    unfolding lt_write_def by (intro ok_rules batch_safe other_backends_safe assms(1,4))
  then have "is_ok (fst (lt_write E F logs s))" using assms(5) unfolding succeeds_def by blast
  then show ?thesis by (simp add: lt_process_def logs)
qed

text \<open>Then an iteration returns normally, so \<open>log_iter_ok\<close> applies to it.\<close>

lemma log_iter_reliable:
  assumes "reliable E" "chunker (it_chunks E)" "0 < max_string_len (config (fst s))"
    and "\<not> ft_logcat F" "safe_sinks s" "pool_ok (log_pool th)"
  obtains th' t where "log_iter E F ks th s = (Ok th', t)"
proof -
  obtain c w where s: "s = (c, w)" by (cases s)
  obtain q v th1 c1 where tk: "lt_take th c = (q, v, th1, c1)" by (metis prod_cases4)
  have c1: "config c1 = config c" "sinks c1 = sinks c" using lt_take_spec(2) [OF assms(6) tk] by simp_all
  obtain r u where p: "lt_process E F q (c1, w) = (r, u)" by (meson surj_pair)
  have "is_ok r" using lt_process_reliable [of E "(c1, w)" F q] assms p by (simp add: c1 s safe_sinks_def)
  then obtain x where r: "r = Ok x" by (cases r) auto
  have "never_fails (lt_flush E ks)" unfolding lt_flush_def by (intro ok_rules flush_reliable assms(1))
  then have "never_fails (seq_act (lt_flush E ks) (ret y))" for y :: thr by (intro ok_rules)
  then have "is_ok (fst (seq_act (lt_flush E ks) (ret y) u))" for y :: thr
    unfolding never_fails_def by blast
  then have "is_ok (fst (log_iter E F ks th s))"
    by (simp add: log_iter_def s tk bind_act_def p r)
  then show ?thesis using that
    by (cases "log_iter E F ks th s"; cases "fst (log_iter E F ks th s)") auto
qed

text \<open>With a chunk size of zero the first batch panics.\<close>

theorem zero_chunk_size_panics:
  assumes ch: "chunker (it_chunks E)" and q: "q \<noteq> []" and z: "max_string_len (config (fst s)) = 0"
  shows "\<exists>p. lt_process E F q s = (Panic p, s)"
  using split_chunks_zero [OF ch q] q z by (simp add: lt_process_def)

text \<open>What a flush that succeeds leaves on disk.\<close>

theorem flush_reaches_disk:
  assumes ok: "ctx_ok s" and ks: "visits ks s" and run: "flush E ks s = (Ok (), t)"
  shows "global_disk t = global_stream s \<and> (\<forall>u. ctx_disk t u = ctx_stream s u) \<and> flush_sem (fst t)"
proof -
  have "grows s t [] (\<lambda>u. [])"
    using writes_flush [of "undefined :: env" E ks, unfolded writes_def, rule_format, OF ok run] by (auto elim: grows_cong)
  moreover have "all_clean t" "flush_sem (fst t)" using flush_clean [OF ok ks run] by simp_all
  ultimately show ?thesis using clean_disk [of t] by (simp add: grows_def option.map_ident)
qed

end
