(* ===== verification/Contexts.thy ===== *)
theory Contexts
  imports Log_Thread
begin

text \<open>
  The files behind the contexts: what \<open>LoggerThreadCtx::new\<close>, \<open>add_context\<close> and
  \<open>remove_context\<close> of \<open>src/logger/logger_thread_ctx.rs\<close> do to the streams.  They keep the
  invariant of \<open>Logger_Ctx\<close> as long as the path of a new context is not the file of a
  writer still open; otherwise the new writer and the old one share a file.
\<close>

section \<open>Creating a file\<close>

definition creates :: "'z os_scheme \<Rightarrow> rstr \<Rightarrow> fs \<Rightarrow> bool" where
  "creates E p f \<longleftrightarrow> os_create E (ticks f) p = None"

definition ino_for :: "'z os_scheme \<Rightarrow> rstr \<Rightarrow> fs \<Rightarrow> nat" where
  "ino_for E p f = (case names f (os_resolve E p) of Some i \<Rightarrow> i | None \<Rightarrow> next_ino f)"

lemma file_create_Err:
  "\<not> creates E p f \<Longrightarrow> \<exists>e. os_create E (ticks f) p = Some e \<and>
     file_create E p f = (Err e, f\<lparr>ticks := Suc (ticks f)\<rparr>)"
  by (auto simp: creates_def file_create_def Let_def)

lemma file_create_Ok:
  assumes "creates E p f"
  obtains g where "file_create E p f = (Ok \<lparr>f_ino = ino_for E p f, f_pos = 0\<rparr>, g)"
    "inodes g = (inodes f)(ino_for E p f := [])" "next_ino f \<le> next_ino g"
    "ino_for E p f < next_ino g \<or> \<not> fs_ok f" "fs_ok f \<longrightarrow> fs_ok g"
proof (cases "names f (os_resolve E p)")
  case None
  show ?thesis
    by (rule that [of "f\<lparr>names := (names f)(os_resolve E p \<mapsto> next_ino f),
        inodes := (inodes f)(next_ino f := []), next_ino := Suc (next_ino f), ticks := Suc (ticks f)\<rparr>"])
      (use assms None in \<open>auto simp: creates_def file_create_def ino_for_def Let_def fs_ok_def less_Suc_eq\<close>)
next
  case (Some i)
  show ?thesis
    by (rule that [of "f\<lparr>inodes := (inodes f)(i := []), ticks := Suc (ticks f)\<rparr>"])
      (use assms Some in \<open>auto simp: creates_def file_create_def ino_for_def Let_def fs_ok_def\<close>)
qed

section \<open>A new logger\<close>

lemma create_dir_all_fs: "names (snd (create_dir_all E p f)) = names f"
    "inodes (snd (create_dir_all E p f)) = inodes f" "next_ino (snd (create_dir_all E p f)) = next_ino f"
  by (simp_all add: create_dir_all_def split: option.splits)

lemma create_dir_all_fs_ok: "keeps fs_ok (create_dir_all E p)"
  by (simp add: keeps_def fs_ok_def create_dir_all_fs)

lemma ctx_new_ok:
  assumes run: "ctx_new E cfg p f = (Ok c, g)" and ok: "fs_ok f"
  shows "ctx_ok (c, w\<lparr>w_fs := g\<rparr>) \<and> config c = cfg \<and> log_queue c = [] \<and> \<not> inited c \<and>
    context_map c = Map.empty \<and> sinks c = [] \<and> all_clean (c, w\<lparr>w_fs := g\<rparr>) \<and>
    global_stream (c, w\<lparr>w_fs := g\<rparr>) = []"
proof -
  obtain f1 u1 where 1: "create_dir_all E (context_log_path cfg) f = (Ok u1, f1)"
    and 2: "seq_act (case path_parent p of None \<Rightarrow> ret ()
          | Some parent \<Rightarrow>
              conv_err (\<lambda>e. IoSpecificError e
                 (Some (lit ''Unable to make logging directory for global'')) parent)
                (create_dir_all E parent))
         (bind_act
           (conv_err (\<lambda>e. IoSpecificError e (Some (lit ''Unable to create global file'')) p)
             (file_create E p))
           (\<lambda>h. ret (ctx_init cfg (bw_new h)))) f1 = (Ok c, g)"
    using run unfolding ctx_new_def by (auto elim!: seq_act_OkE)
  have ok1: "fs_ok f1" using keepsD [OF create_dir_all_fs_ok ok 1] .
  obtain f2 where ok2: "fs_ok f2" and 3: "bind_act
           (conv_err (\<lambda>e. IoSpecificError e (Some (lit ''Unable to create global file'')) p)
             (file_create E p)) (\<lambda>h. ret (ctx_init cfg (bw_new h))) f2 = (Ok c, g)"
  proof (cases "path_parent p")
    case None
    then show ?thesis using that [OF ok1] 2 by simp
  next
    case (Some q)
    obtain f2 where "create_dir_all E q f1 = (Ok (), f2)" "bind_act
           (conv_err (\<lambda>e. IoSpecificError e (Some (lit ''Unable to create global file'')) p)
             (file_create E p)) (\<lambda>h. ret (ctx_init cfg (bw_new h))) f2 = (Ok c, g)"
      using 2 Some by (auto elim!: seq_act_OkE)
    then show ?thesis using that keepsD [OF create_dir_all_fs_ok ok1] by blast
  qed
  obtain h where h: "file_create E p f2 = (Ok h, g)" "c = ctx_init cfg (bw_new h)"
    using 3 by (auto elim!: bind_act_OkE)
  have "creates E p f2" using h(1) file_create_Err [of E p f2] by auto
  then obtain g' where g: "file_create E p f2 = (Ok \<lparr>f_ino = ino_for E p f2, f_pos = 0\<rparr>, g')"
      "inodes g' = (inodes f2)(ino_for E p f2 := [])" "next_ino f2 \<le> next_ino g'"
      "ino_for E p f2 < next_ino g' \<or> \<not> fs_ok f2"
      "fs_ok f2 \<longrightarrow> fs_ok g'"
    by (rule file_create_Ok)
  then have "h = \<lparr>f_ino = ino_for E p f2, f_pos = 0\<rparr>" "g = g'" using h(1) by auto
  with g ok2 h(2) show ?thesis
    by (simp add: ctx_init_def bw_new_def ctx_ok_def bw_ok_def at_end_def global_stream_def
        bw_stream_def all_clean_def clean_global_def clean_ctx_def)
qed

section \<open>Registering a context\<close>

text \<open>No open writer is on the file the path leads to.\<close>

definition unused :: "'z os_scheme \<Rightarrow> rstr \<Rightarrow> 'w st \<Rightarrow> bool" where
  "unused E p s \<longleftrightarrow>
     ino_for E p (w_fs (snd s)) \<noteq> w_ino (global_file (fst s)) \<and>
     (\<forall>u b. context_map (fst s) u = Some b \<longrightarrow> ino_for E p (w_fs (snd s)) \<noteq> w_ino b)"

lemma new_file_writer:
  assumes "file_create E p f = (Ok h, g)" "inodes g = (inodes f)(ino_for E p f := [])"
    "next_ino f \<le> next_ino g" "w_ino b \<noteq> ino_for E p f"
  shows "bw_ok (f, b) \<Longrightarrow> bw_ok (g, b)" "bw_stream (g, b) = bw_stream (f, b)"
  using assms by (auto simp: bw_ok_def at_end_def w_ino_def bw_stream_def)

lemma dropped_writer:
  assumes "bw_ok (f, b)" "drop_opt E (Some b) f = g"
  shows "bw_local (f, b) (g, b)"
proof -
  obtain r t where t: "bw_flush_buf E (f, b) = (r, t)" by (meson surj_pair)
  then have "g = fst t" using assms(2) by (simp add: drop_opt_def bw_drop_def)
  then show ?thesis using bw_flush_buf_spec [OF assms(1) t] by (simp add: bw_local_def)
qed

lemma dropped_other:
  assumes "bw_local (f, b) (g, b)" "w_ino d \<noteq> w_ino b"
  shows "bw_ok (g, d) = bw_ok (f, d)" "bw_stream (g, d) = bw_stream (f, d)" "fs_ok g = fs_ok f"
  using assms by (simp_all add: bw_local_def bw_ok_def at_end_def bw_stream_def w_ino_def fs_ok_def)

text \<open>Dropping the writer of a tag that has been taken out of the map.\<close>

lemma drop_context:
  fixes E :: "'z os_scheme" and t :: rstr
  assumes ok: "ctx_ok (c, w)"
  defines "s \<equiv> (c\<lparr>context_map := (context_map c)(t := None)\<rparr>,
                 w\<lparr>w_fs := drop_opt E (context_map c t) (w_fs w)\<rparr>)"
  shows "ctx_ok s \<and> global_stream s = global_stream (c, w) \<and>
    ctx_stream s = (ctx_stream (c, w))(t := None)"
proof (cases "context_map c t")
  case None
  then have "s = (c, w)" by (simp add: s_def drop_opt_def fun_upd_idem)
  then show ?thesis using ok None by (simp add: ctx_stream_def fun_eq_iff)
next
  case (Some b)
  have b: "bw_ok (w_fs w, b)" "w_ino (global_file c) \<noteq> w_ino b"
      "\<And>u d. context_map c u = Some d \<Longrightarrow> u \<noteq> t \<Longrightarrow> w_ino d \<noteq> w_ino b"
    using ok Some unfolding ctx_ok_def fst_conv snd_conv by metis+
  let ?g = "drop_opt E (Some b) (w_fs w)"
  have loc: "bw_local (w_fs w, b) (?g, b)" by (rule dropped_writer [OF b(1) refl])
  note o = dropped_other [OF loc]
  have "ctx_ok s" using ok b o by (auto simp: ctx_ok_def s_def Some)
  moreover have "global_stream s = global_stream (c, w)"
    using o(2) [OF b(2)] by (simp add: global_stream_def s_def Some)
  moreover have "ctx_stream s u = ((ctx_stream (c, w))(t := None)) u" for u
    using o(2) b(3) by (auto simp: ctx_stream_def s_def Some map_option_case split: option.splits)
  ultimately show ?thesis by blast
qed

lemma remove_context_spec:
  assumes "ctx_ok s"
  shows "ctx_ok (remove_context E t s) \<and>
    global_stream (remove_context E t s) = global_stream s \<and>
    ctx_stream (remove_context E t s) = (ctx_stream s)(t := None)"
  using drop_context [of "fst s" "snd s" t E] assms
  by (cases s) (simp add: remove_context_def)

text \<open>On a disk that accepts writes the dropped writer leaves everything it was given in its file.\<close>

lemma removed_on_disk:
  assumes rel: "reliable E" and ok: "ctx_ok s" and b: "context_map (fst s) t = Some b"
  shows "ctx_stream s t = Some (inodes (w_fs (snd (remove_context E t s))) (w_ino b))"
proof -
  obtain c w where s: "s = (c, w)" by (cases s)
  have bok: "bw_ok (w_fs w, b)" using ok b by (auto simp: ctx_ok_def s)
  obtain r f k where run: "bw_flush_buf E (w_fs w, b) = (r, (f, k))" by (metis prod_cases3)
  have "is_ok r" using bw_flush_reliable [OF rel, unfolded bw_flush_def] run
    by (metis fst_conv never_failsD)
  then have k: "bw_buf k = []" "bw_stream (f, k) = bw_stream (w_fs w, b)" "bw_local (w_fs w, b) (f, k)"
    using bw_flush_buf_spec [OF bok run] by auto
  have "w_ino k = w_ino b" using k(3) by (simp add: bw_local_def w_ino_def)
  then show ?thesis
    using k(1,2) b run by (simp add: s remove_context_def drop_opt_def bw_drop_def ctx_stream_def
        bw_stream_def w_ino_def)
qed

lemma ctx_ok_insert:
  assumes ok: "ctx_ok (c\<lparr>context_map := (context_map c)(t := None)\<rparr>, w)" and n: "bw_ok (w_fs w, n)"
    and g: "w_ino n \<noteq> w_ino (global_file c)"
    and o: "\<And>u b. context_map c u = Some b \<Longrightarrow> w_ino b \<noteq> w_ino n"
  shows "ctx_ok (c\<lparr>context_map := (context_map c)(t \<mapsto> n)\<rparr>, w)"
proof -
  let ?m = "(context_map c)(t := None)"
  have m: "\<And>u b. ?m u = Some b \<Longrightarrow> bw_ok (w_fs w, b) \<and> w_ino b \<noteq> w_ino (global_file c)"
    "\<And>u v b d. ?m u = Some b \<Longrightarrow> ?m v = Some d \<Longrightarrow> u \<noteq> v \<Longrightarrow> w_ino b \<noteq> w_ino d"
    using ok unfolding ctx_ok_def fst_conv snd_conv by simp_all
  have cases: "u = t \<and> b = n \<or> u \<noteq> t \<and> ?m u = Some b \<and> context_map c u = Some b"
    if "((context_map c)(t \<mapsto> n)) u = Some b" for u b
    using that by (auto split: if_splits)
  have "bw_ok (w_fs w, b) \<and> w_ino b \<noteq> w_ino (global_file c)"
    if "((context_map c)(t \<mapsto> n)) u = Some b" for u b
    using cases [OF that] m(1) n g by blast
  moreover have "w_ino b \<noteq> w_ino d"
    if "((context_map c)(t \<mapsto> n)) u = Some b" "((context_map c)(t \<mapsto> n)) v = Some d" "u \<noteq> v" for u v b d
    using cases [OF that(1)] cases [OF that(2)] that(3) m(2) o by metis
  ultimately show ?thesis using ok by (simp add: ctx_ok_def)
qed

text \<open>
  Registering: the file is created, and in a state where its file is unused the context
  starts with an empty stream while every other stream is as before.
\<close>

lemma add_context_spec:
  assumes ok: "ctx_ok s" and free: "unused E (context_path (fst s) t) s"
    and create: "creates E (context_path (fst s) t) (w_fs (snd s))"
    and run: "add_context E t s = (r, s')"
  shows "r = Ok () \<and> ctx_ok s' \<and> global_stream s' = global_stream s \<and>
    ctx_stream s' = (ctx_stream s)(t \<mapsto> [])"
proof -
  obtain c w where s: "s = (c, w)" by (cases s)
  let ?p = "context_path c t"
  let ?i = "ino_for E ?p (w_fs w)"
  obtain g where g: "file_create E ?p (w_fs w) = (Ok \<lparr>f_ino = ?i, f_pos = 0\<rparr>, g)"
    "inodes g = (inodes (w_fs w))(?i := [])" "next_ino (w_fs w) \<le> next_ino g"
    "?i < next_ino g \<or> \<not> fs_ok (w_fs w)" "fs_ok (w_fs w) \<longrightarrow> fs_ok g"
    using file_create_Ok create by (metis fst_conv s snd_conv)
  have fok: "fs_ok (w_fs w)" using ok by (simp add: ctx_ok_def s)
  note nf = new_file_writer [OF g(1-3)]
  have gi: "w_ino (global_file c) \<noteq> ?i" "\<And>u b. context_map c u = Some b \<Longrightarrow> w_ino b \<noteq> ?i"
    using free unfolding unused_def s fst_conv snd_conv by metis+
  let ?w = "w\<lparr>w_fs := g\<rparr>"
  have ok1: "ctx_ok (c, ?w)" using ok nf(1) gi g(5) by (auto simp: ctx_ok_def s)
  have st: "global_stream (c, ?w) = global_stream s" "ctx_stream (c, ?w) = ctx_stream s"
    using nf(2) gi by (auto simp: global_stream_def ctx_stream_def s map_option_case fun_eq_iff
        split: option.splits)
  let ?d = "(c\<lparr>context_map := (context_map c)(t := None)\<rparr>,
              ?w\<lparr>w_fs := drop_opt E (context_map c t) (w_fs ?w)\<rparr>)"
  note dc = drop_context [OF ok1, of t E]
  let ?n = "bw_new \<lparr>f_ino = ?i, f_pos = 0\<rparr>"
  have s': "r = Ok ()" "s' = (c\<lparr>context_map := (context_map c)(t \<mapsto> ?n)\<rparr>,
      w\<lparr>w_fs := drop_opt E (context_map c t) g\<rparr>)"
    using run by (simp_all add: add_context_def s g(1) Let_def)
  have n: "bw_ok (g, ?n)" "bw_stream (g, ?n) = []" "w_ino ?n = ?i"
    using g(2,4) fok by (simp_all add: bw_ok_def at_end_def bw_new_def bw_stream_def w_ino_def)
  have n': "bw_ok (drop_opt E (context_map c t) g, ?n)"
    "bw_stream (drop_opt E (context_map c t) g, ?n) = []"
  proof -
    have "bw_ok (drop_opt E (context_map c t) g, ?n) \<and>
        bw_stream (drop_opt E (context_map c t) g, ?n) = []"
    proof (cases "context_map c t")
      case None
      then show ?thesis using n by (simp add: drop_opt_def)
    next
      case (Some b)
      have "bw_ok (g, b)" using ok1 Some by (auto simp: ctx_ok_def)
      from dropped_writer [OF this refl] have loc: "bw_local (g, b) (drop_opt E (Some b) g, b)" .
      have "w_ino ?n \<noteq> w_ino b" using gi(2) [OF Some] n(3) by metis
      with dropped_other(1,2) [OF loc this] n show ?thesis by (simp add: Some)
    qed
    then show "bw_ok (drop_opt E (context_map c t) g, ?n)"
      "bw_stream (drop_opt E (context_map c t) g, ?n) = []" by simp_all
  qed
  have "ctx_ok s'"
    unfolding s'(2)
    by (rule ctx_ok_insert) (use dc n'(1) gi n(3) in \<open>auto simp del: fun_upd_apply\<close>)
  moreover have "global_stream s' = global_stream s"
    using dc st(1) by (simp add: global_stream_def s'(2))
  moreover have "ctx_stream s' u = ((ctx_stream s)(t \<mapsto> [])) u" for u
  proof (cases "u = t")
    case True
    then show ?thesis using n'(2) by (simp add: ctx_stream_def s'(2))
  next
    case False
    then have "ctx_stream s' u = ctx_stream ?d u" by (simp add: ctx_stream_def s'(2))
    then show ?thesis using dc st(2) False by simp
  qed
  ultimately show ?thesis using s'(1) by (simp add: fun_eq_iff)
qed

lemma add_context_error:
  assumes "\<not> creates E (context_path (fst s) t) (w_fs (snd s))" "add_context E t s = (r, s')"
  shows "(\<exists>e. r = Err (IoSpecificError e (Some (lit ''Unable to create context file''))
      (context_path (fst s) t))) \<and>
    fst s' = fst s \<and> (ctx_ok s \<longrightarrow> ctx_ok s') \<and>
    global_stream s' = global_stream s \<and> ctx_stream s' = ctx_stream s"
proof -
  obtain c w where s: "s = (c, w)" by (cases s)
  obtain e where "file_create E (context_path c t) (w_fs w) =
      (Err e, (w_fs w)\<lparr>ticks := Suc (ticks (w_fs w))\<rparr>)"
    using file_create_Err assms(1) by (metis fst_conv s snd_conv)
  with assms(2) show ?thesis
    by (auto simp: add_context_def s Let_def ctx_ok_def bw_ok_def at_end_def fs_ok_def
        global_stream_def ctx_stream_def bw_stream_def)
qed


section \<open>Registering a context twice\<close>

lemma overwrite_Nil: "overwrite [] p ys = replicate p 0 @ ys"
  by (simp add: overwrite_def)

text \<open>Writing through a handle whose file has been truncated behind its back.\<close>

lemma write_loop_gap:
  assumes rel: "reliable E" and empty: "inodes f (f_ino h) = []" and bs: "bs \<noteq> []"
  obtains k g where "write_loop E h bs f = (Ok (), [], k, g)"
    "inodes g = (inodes f)(f_ino h := replicate (f_pos h) 0 @ bs)"
proof -
  obtain m where m: "0 < m" "os_write E (ticks f) (length bs) = Inr m"
    using rel bs unfolding reliable_def by (meson length_greater_0_conv)
  obtain n where n: "n = min m (length bs)" by blast
  let ?n = n
  let ?h = "h\<lparr>f_pos := f_pos h + ?n\<rparr>"
  let ?f = "f\<lparr>ticks := Suc (ticks f), inodes := (inodes f)(f_ino h := replicate (f_pos h) 0 @ take ?n bs)\<rparr>"
  have w: "file_write E h bs f = (Ok ?n, ?f)"
    using m(2) empty by (simp add: file_write_def Let_def overwrite_Nil n)
  have "?n \<noteq> 0" using m(1) bs by (simp add: n)
  then have eq: "write_loop E h bs f = write_loop E ?h (drop ?n bs) ?f"
    using bs w by (subst write_loop.simps) simp
  obtain r rem k g where l: "write_loop E ?h (drop ?n bs) ?f = (r, rem, k, g)" by (metis prod_cases4)
  have r: "r = Ok ()" using write_loop_reliable [OF rel, of ?h "drop ?n bs" ?f] l by simp
  have e: "at_end ?f ?h" by (simp add: at_end_def n)
  have d: "rem = []" "appended ?f ?h (drop ?n bs) g k"
    using write_loop_spec [OF l e] r by auto
  have "inodes g = (inodes f)(f_ino h := replicate (f_pos h) 0 @ bs)"
    using d(2) by (simp add: appended_def)
  then show ?thesis using that eq l r d(1) by simp
qed

text \<open>
  A registered tag is registered again while its file is still in place.  The file is
  truncated, the old writer is dropped afterwards and writes its buffer at its old offset,
  and the new writer starts at offset zero of a file that is not empty.
\<close>

lemma reregister_spec:
  assumes rel: "reliable E" and reg: "context_map c t = Some b" and buf: "bw_buf b \<noteq> []"
    and name: "names (w_fs w) (os_resolve E (context_path c t)) = Some (w_ino b)"
    and create: "creates E (context_path c t) (w_fs w)"
    and run: "add_context E t (c, w) = (r, (c', w'))"
  shows "r = Ok () \<and>
    context_map c' t = Some (bw_new \<lparr>f_ino = w_ino b, f_pos = 0\<rparr>) \<and>
    inodes (w_fs w') (w_ino b) = replicate (f_pos (bw_file b)) 0 @ bw_buf b \<and>
    \<not> ctx_ok (c', w')"
proof -
  let ?f = "(w_fs w)\<lparr>ticks := Suc (ticks (w_fs w)), inodes := (inodes (w_fs w))(w_ino b := [])\<rparr>"
  have fc: "file_create E (context_path c t) (w_fs w) = (Ok \<lparr>f_ino = w_ino b, f_pos = 0\<rparr>, ?f)"
    using create name by (simp add: file_create_def creates_def Let_def)
  have "inodes ?f (f_ino (bw_file b)) = []" by (simp add: w_ino_def)
  then obtain k g where g: "write_loop E (bw_file b) (bw_buf b) ?f = (Ok (), [], k, g)"
      "inodes g = (inodes ?f)(f_ino (bw_file b) := replicate (f_pos (bw_file b)) 0 @ bw_buf b)"
    using write_loop_gap [OF rel _ buf] by blast
  have dr: "drop_opt E (Some b) ?f = g"
    using g(1) by (simp add: drop_opt_def bw_drop_def bw_flush_buf_def)
  have res: "r = Ok ()" "c' = c\<lparr>context_map := (context_map c)(t \<mapsto> bw_new \<lparr>f_ino = w_ino b, f_pos = 0\<rparr>)\<rparr>"
      "w' = w\<lparr>w_fs := g\<rparr>"
    using run fc dr reg by (simp_all add: add_context_def Let_def)
  have i: "inodes (w_fs w') (w_ino b) = replicate (f_pos (bw_file b)) 0 @ bw_buf b"
    using g(2) by (simp add: res(3) w_ino_def)
  have "\<not> bw_ok (w_fs w', bw_new \<lparr>f_ino = w_ino b, f_pos = 0\<rparr>)"
    using i buf by (simp add: bw_ok_def at_end_def bw_new_def)
  then have "\<not> ctx_ok (c', w')" unfolding ctx_ok_def by (auto simp: res(2))
  with i res show ?thesis by simp
qed

text \<open>Two tags with the same stem are one file.\<close>

lemma context_path_same:
  assumes "dir_path (context_log_path (config c))" "plain_name t" "plain_name x"
  shows "context_path c (t @ 46 # x) = context_path c t"
  using assms by (simp add: context_path_def context_path_plain context_path_dotted)

lemma context_path_inj:
  assumes "dir_path (context_log_path (config c))" "plain_name t" "plain_name u"
  shows "context_path c t = context_path c u \<longleftrightarrow> t = u"
  using assms by (simp add: context_path_def context_path_plain)

text \<open>A file that cannot be created is reported with its path.\<close>

theorem context_creation_fails:
  assumes "os_create E (ticks (w_fs (snd s))) (context_path (fst s) t) = Some e" "add_context E t s = (r, s')"
  shows "r = Err (IoSpecificError e (Some (lit ''Unable to create context file'')) (context_path (fst s) t)) \<and>
    fst s' = fst s \<and> global_stream s' = global_stream s \<and> ctx_stream s' = ctx_stream s"
proof -
  have n: "\<not> creates E (context_path (fst s) t) (w_fs (snd s))" using assms(1) by (simp add: creates_def)
  have "file_create E (context_path (fst s) t) (w_fs (snd s)) =
      (Err e, (w_fs (snd s))\<lparr>ticks := Suc (ticks (w_fs (snd s)))\<rparr>)"
    using file_create_Err [OF n] assms(1) by auto
  then have "r = Err (IoSpecificError e (Some (lit ''Unable to create context file'')) (context_path (fst s) t))"
    using assms(2) by (auto simp: add_context_def Let_def split: prod.splits)
  then show ?thesis using add_context_error [OF n assms(2)] by blast
qed

section \<open>A context on the global file\<close>

text \<open>
  When the path of a new context leads to the global file, that file is truncated and has two
  writers: what it held is lost, and the next flush of the global writer leaves zero bytes in
  its place.
\<close>

lemma takes_global_file:
  assumes name: "names (w_fs w) (os_resolve E (context_path c t)) = Some (w_ino (global_file c))"
    and create: "creates E (context_path c t) (w_fs w)" and new: "context_map c t = None"
    and run: "add_context E t (c, w) = (r, (c', w'))"
  shows "r = Ok () \<and> global_file c' = global_file c \<and> global_disk (c', w') = [] \<and>
    (\<exists>b. context_map c' t = Some b \<and> w_ino b = w_ino (global_file c')) \<and> \<not> ctx_ok (c', w')"
proof -
  let ?f = "(w_fs w)\<lparr>ticks := Suc (ticks (w_fs w)), inodes := (inodes (w_fs w))(w_ino (global_file c) := [])\<rparr>"
  have fc: "file_create E (context_path c t) (w_fs w) = (Ok \<lparr>f_ino = w_ino (global_file c), f_pos = 0\<rparr>, ?f)"
    using create name by (simp add: file_create_def creates_def Let_def)
  let ?n = "bw_new \<lparr>f_ino = w_ino (global_file c), f_pos = 0\<rparr>"
  have res: "r = Ok ()" "c' = c\<lparr>context_map := (context_map c)(t \<mapsto> ?n)\<rparr>" "w' = w\<lparr>w_fs := ?f\<rparr>"
    using run fc new by (simp_all add: add_context_def Let_def drop_opt_def)
  have n: "context_map c' t = Some ?n" "w_ino ?n = w_ino (global_file c')"
    by (simp_all add: res(2) bw_new_def w_ino_def)
  then have "\<not> ctx_ok (c', w')" unfolding ctx_ok_def fst_conv by metis
  moreover have "global_disk (c', w') = []" by (simp add: global_disk_def bw_disk_def res(2,3) w_ino_def)
  ultimately show ?thesis using res(1) n by (simp add: res(2))
qed

lemma truncated_flush:
  assumes rel: "reliable E" and empty: "global_disk (c, w) = []" and buf: "bw_buf (global_file c) \<noteq> []"
    and run: "on_global (bw_flush E) (c, w) = (r, u)"
  shows "r = Ok () \<and> global_disk u = replicate (f_pos (bw_file (global_file c))) 0 @ bw_buf (global_file c)"
proof -
  have "inodes (w_fs w) (f_ino (bw_file (global_file c))) = []"
    using empty by (simp add: global_disk_def bw_disk_def)
  then obtain k g where g: "write_loop E (bw_file (global_file c)) (bw_buf (global_file c)) (w_fs w) = (Ok (), [], k, g)"
      "inodes g = (inodes (w_fs w))(f_ino (bw_file (global_file c)) :=
         replicate (f_pos (bw_file (global_file c))) 0 @ bw_buf (global_file c))"
    using write_loop_gap [OF rel _ buf] by blast
  have k: "f_ino k = f_ino (bw_file (global_file c))" using write_loop_local [OF g(1)] by blast
  show ?thesis using run g k by (auto simp: on_global_def bw_flush_def bw_flush_buf_def global_disk_def bw_disk_def)
qed

text \<open>
  In a configured directory, tags without dots and separators get distinct files, while a
  tag t.x shares the file of t.
\<close>

theorem context_file_names:
  assumes "dir_path (context_log_path (config c))" "plain_name t" "plain_name u"
  shows "(context_path c t = context_path c u \<longleftrightarrow> t = u) \<and> context_path c (t @ 46 # u) = context_path c t"
  using assms by (simp add: context_path_same context_path_inj)

text \<open>
  Registering a context whose file no open writer uses succeeds when the system creates the
  file: the context starts with an empty stream, all other streams are as before, and the
  state stays well-formed.
\<close>

theorem context_registered:
  assumes "ctx_ok s" "unused E (context_path (fst s) t) s" "creates E (context_path (fst s) t) (w_fs (snd s))"
    and "add_context E t s = (r, s')"
  shows "r = Ok () \<and> ctx_ok s' \<and> global_stream s' = global_stream s \<and> ctx_stream s' = (ctx_stream s)(t \<mapsto> [])"
  using add_context_spec [OF assms] .

end
