(* ===== verification/Global_Logger.thy ===== *)
theory Global_Logger
  imports Contexts
begin

text \<open>
  The process-wide logger of \<open>src/lib.rs\<close>: the \<open>OnceLock\<close> \<open>LOGGER\<close>, \<open>get_logger\<close> and
  \<open>init_logger\<close>.  The state of a process is the memory it shares with C, the logger if one
  has been set, and the world.  The calls of one process are taken one at a time here;
  their interleaving with the log thread is in \<open>Log_Pipeline\<close>.
\<close>

record 'w proc =
  p_heap :: heap
  p_logger :: "'w ctx option"
  p_world :: "'w world"

definition get_logger :: "'w proc \<Rightarrow> 'w ctx option" where
  "get_logger s = p_logger s"

text \<open>
  The closure of \<open>get_or_init\<close>: both \<open>expect\<close>s are panics.  Only \<open>new\<close> and \<open>init(false)\<close>
  run in it.
\<close>

definition make_logger ::
  "'z os_scheme \<Rightarrow> logger_config \<Rightarrow> rstr \<Rightarrow> ('w world, logger_error, 'w ctx) act" where
  "make_logger E cfg path w =
     (case ctx_new E cfg path (w_fs w) of
        (Ok c, f) \<Rightarrow>
          (case ctx_start False (c, w\<lparr>w_fs := f\<rparr>) of
             (Ok u, (c', w')) \<Rightarrow> (Ok c', w')
           | (Err e, (c', w')) \<Rightarrow> (Panic ''Unable to init logger'', w')
           | (Panic p, (c', w')) \<Rightarrow> (Panic p, w'))
      | (Err e, f) \<Rightarrow> (Panic ''Unable to create logger'', w\<lparr>w_fs := f\<rparr>)
      | (Panic p, f) \<Rightarrow> (Panic p, w\<lparr>w_fs := f\<rparr>))"

text \<open>A panic in the closure leaves the \<open>OnceLock\<close> empty.\<close>

definition init_logger ::
  "'z os_scheme \<Rightarrow> logger_config \<Rightarrow> rstr \<Rightarrow> ('w proc, logger_error, unit) act" where
  "init_logger E cfg path s =
     (case p_logger s of
        Some c \<Rightarrow> (Ok (), s)
      | None \<Rightarrow>
          (case make_logger E cfg path (p_world s) of
             (Ok c, w) \<Rightarrow> (Ok (), s\<lparr>p_logger := Some c, p_world := w\<rparr>)
           | (Err e, w) \<Rightarrow> (Err e, s\<lparr>p_world := w\<rparr>)
           | (Panic p, w) \<Rightarrow> (Panic p, s\<lparr>p_world := w\<rparr>)))"

section \<open>Well-formed processes\<close>

definition proc_ok :: "'w proc \<Rightarrow> bool" where
  "proc_ok s \<longleftrightarrow> heap_ok (p_heap s) \<and> fs_ok (w_fs (p_world s)) \<and>
     (\<forall>c. p_logger s = Some c \<longrightarrow> ctx_ok (c, p_world s) \<and> inited c)"

section \<open>Lemmas\<close>

lemma ctx_start_fresh:
  "\<not> inited c \<Longrightarrow> ctx_start b (c, w) =
     (Ok (), (c\<lparr>inited := True\<rparr>, w\<lparr>w_hook := w_hook w \<or> b, w_threads := Suc (w_threads w)\<rparr>))"
  by (simp add: ctx_start_def)

lemma ctx_new_no_panic: "fst (ctx_new E cfg p f) \<noteq> Panic m"
proof -
  have d: "fst (create_dir_all E q h) \<noteq> Panic x" for q h x
    by (simp add: create_dir_all_def split: option.splits)
  have c: "fst (file_create E q h) \<noteq> Panic x" for q h x
    by (simp add: file_create_def Let_def split: option.splits)
  have conv: "fst (conv_err k m h) \<noteq> Panic x" if "\<And>x. fst (m h) \<noteq> Panic x"
    for k :: "io_error \<Rightarrow> logger_error" and m :: "(fs, io_error, 'x) act" and h x
    using that by (cases "m h"; cases "fst (m h)") (auto simp: conv_err_def)
  have seq: "fst (seq_act m n h) \<noteq> Panic x"
    if "\<And>x. fst (m h) \<noteq> Panic x" "\<And>g x. fst (n g) \<noteq> Panic x"
    for m :: "(fs, logger_error, 'x) act" and n :: "(fs, logger_error, 'y) act" and h x
    using that by (cases "m h"; cases "fst (m h)") (auto simp: seq_act_def bind_act_def)
  have bind: "fst (bind_act m (\<lambda>a. ret (k a)) h) \<noteq> Panic x" if "\<And>x. fst (m h) \<noteq> Panic x"
    for m :: "(fs, logger_error, 'x) act" and k :: "'x \<Rightarrow> 'y" and h x
    using that by (cases "m h"; cases "fst (m h)") (auto simp: bind_act_def)
  show ?thesis
    unfolding ctx_new_def
    by (intro seq bind conv d c; simp split: option.splits) (intro impI conjI allI conv d)
qed

lemma make_logger_cases:
  fixes w :: "'w world"
  obtains (made) c f where "ctx_new E cfg p (w_fs w) = (Ok c, f)"
      "make_logger E cfg p w = (Ok (c\<lparr>inited := True\<rparr>), w\<lparr>w_fs := f, w_threads := Suc (w_threads w)\<rparr>)"
      "\<not> inited c"
  | (failed) e f where "ctx_new E cfg p (w_fs w) = (Err e :: (logger_error, 'w ctx) res, f)"
      "make_logger E cfg p w = (Panic ''Unable to create logger'', w\<lparr>w_fs := f\<rparr>)"
proof -
  obtain r :: "(logger_error, 'w ctx) res" and f where n: "ctx_new E cfg p (w_fs w) = (r, f)" by (meson surj_pair)
  show ?thesis
  proof (cases r)
    case (Ok c)
    have "\<not> inited c"
      using n Ok by (auto simp: ctx_new_def ctx_init_def elim!: seq_act_OkE bind_act_OkE)
    then show ?thesis using made [of c f] n Ok by (simp add: make_logger_def ctx_start_fresh)
  next
    case (Err e)
    then show ?thesis using failed [of e f] n by (simp add: make_logger_def)
  next
    case (Panic m)
    then show ?thesis using ctx_new_no_panic [of E cfg p "w_fs w" m] n by (metis fst_conv)
  qed
qed

text \<open>\<open>init_logger\<close> never returns an error: it returns a logger or panics.\<close>

lemma init_logger_no_Err: "init_logger E cfg p s \<noteq> (Err e, t)"
proof (cases "p_logger s")
  case None
  show ?thesis
    by (rule make_logger_cases [of E cfg p "p_world s"]) (simp_all add: init_logger_def None)
qed (simp add: init_logger_def)

lemma init_logger_again: "p_logger s = Some c \<Longrightarrow> init_logger E cfg p s = (Ok (), s)"
  by (simp add: init_logger_def)

lemma fs_ok_ctx_new:
  assumes "fs_ok f" "ctx_new E cfg p f = (r, g)"
  shows "fs_ok g"
proof -
  have c: "keeps fs_ok (file_create E q)" for q
  proof (rule keeps_pairI)
    fix h x k assume h: "fs_ok h" "file_create E q h = (x, k)"
    show "fs_ok k"
    proof (cases "creates E q h")
      case True
      then show ?thesis using h by (metis Pair_inject file_create_Ok)
    next
      case False
      then show ?thesis using h file_create_Err [of E q h] by (auto simp: fs_ok_def)
    qed
  qed
  have o: "keeps fs_ok (case x of None \<Rightarrow> ret () | Some q \<Rightarrow> conv_err (k q) (create_dir_all E q))"
    for x and k :: "rstr \<Rightarrow> io_error \<Rightarrow> logger_error"
    by (cases x) (simp_all add: keeps_ret keeps_conv create_dir_all_fs_ok)
  show ?thesis
    by (rule keepsD [where P = fs_ok and m = "ctx_new E cfg p", OF _ assms]) (unfold ctx_new_def, intro keeps_rules create_dir_all_fs_ok c o)
qed

text \<open>A first successful call sets a running logger with the given configuration.\<close>

lemma init_logger_Ok:
  assumes ok: "proc_ok s" and none: "p_logger s = None"
    and run: "init_logger E cfg p s = (Ok (), t)"
  shows "\<exists>c. p_logger t = Some c \<and> config c = cfg \<and> inited c \<and> log_queue c = [] \<and>
    context_map c = Map.empty \<and> all_clean (c, p_world t) \<and> global_stream (c, p_world t) = [] \<and>
    w_threads (p_world t) = Suc (w_threads (p_world s)) \<and> proc_ok t"
proof -
  have f: "fs_ok (w_fs (p_world s))" using ok by (simp add: proc_ok_def)
  show ?thesis
  proof (rule make_logger_cases [of E cfg p "p_world s"])
    fix c g
    assume n: "ctx_new E cfg p (w_fs (p_world s)) = (Ok c, g)"
      and m: "make_logger E cfg p (p_world s) =
        (Ok (c\<lparr>inited := True\<rparr>), (p_world s)\<lparr>w_fs := g, w_threads := Suc (w_threads (p_world s))\<rparr>)"
    have t: "t = s\<lparr>p_logger := Some (c\<lparr>inited := True\<rparr>),
        p_world := (p_world s)\<lparr>w_fs := g, w_threads := Suc (w_threads (p_world s))\<rparr>\<rparr>"
      using run none m by (simp add: init_logger_def)
    note spec = ctx_new_ok [OF n f, of "p_world s"]
    have g: "fs_ok g" using fs_ok_ctx_new [OF f n] .
    show ?thesis
      using spec g ok by (simp add: t proc_ok_def ctx_ok_def all_clean_def clean_global_def
          clean_ctx_def global_stream_def)
  next
    fix e g
    assume "make_logger E cfg p (p_world s) = (Panic ''Unable to create logger'', (p_world s)\<lparr>w_fs := g\<rparr>)"
    then show ?thesis using run none by (simp add: init_logger_def)
  qed
qed

end
