(* ===== verification/Ffi.thy ===== *)
theory Ffi
  imports Global_Logger
begin

text \<open>
  The C interface: \<open>src/ffi.rs\<close> and \<open>src/ffi/c_str_helper.rs\<close>.  Arguments are addresses in
  the shared memory, 0 for null.  Reading a C string that is not there is undefined
  behaviour, the error \<open>Undefined\<close>; a panic cannot unwind through \<open>extern "C"\<close> and
  aborts the process, the result \<open>Panic\<close>.  Words are those of a 64-bit target.
\<close>

datatype fault = Undefined

type_synonym ('w, 'a) ffi = "('w proc, fault, 'a) act"

section \<open>Reading arguments\<close>

definition read_cstr :: "addr \<Rightarrow> ('w, byte list) ffi" where
  "read_cstr p s = (case cstr (p_heap s) p of None \<Rightarrow> (Err Undefined, s) | Some bs \<Rightarrow> (Ok bs, s))"

definition read_lossy :: "addr \<Rightarrow> ('w, rstr) ffi" where
  "read_lossy p = bind_act (read_cstr p) (\<lambda>bs. ret (from_utf8_lossy bs))"

text \<open>A pointer that may be null.\<close>

definition read_opt :: "addr \<Rightarrow> ('w, rstr option) ffi" where
  "read_opt p = (if p = 0 then ret None else bind_act (read_lossy p) (\<lambda>t. ret (Some t)))"

section \<open>Data crossing the boundary\<close>

record config_ffi =
  cf_max_string_len :: "64 word"
  cf_log_max_buffer_count :: "64 word"
  cf_line_end :: byte
  cf_context_log_path :: addr

definition config_from :: "config_ffi \<Rightarrow> ('w, logger_config) ffi" where
  "config_from k =
     bind_act (read_lossy (cf_context_log_path k))
       (\<lambda>p. ret \<lparr>max_string_len = unat (cf_max_string_len k),
                 log_max_buffer_count = unat (cf_log_max_buffer_count k),
                 line_end = unat (cf_line_end k), context_log_path = p\<rparr>)"

text \<open>A \<open>StringRef\<close> is a pointer and a length; here the bytes it spans, or null.\<close>

type_synonym span = "byte list option"

definition string_ref :: "rstr \<Rightarrow> span" where
  "string_ref s = Some (utf8 s)"

definition string_ref_opt :: "rstr option \<Rightarrow> span" where
  "string_ref_opt s = (case s of Some t \<Rightarrow> Some (utf8 t) | None \<Rightarrow> None)"

record log_data_c =
  c_level :: log_level
  c_tag :: span
  c_message :: span
  c_timestamp :: "64 word"
  c_file :: span
  c_line :: "32 word"
  c_column :: "32 word"
  c_function_name :: span

definition log_data_to_c :: "'z env_scheme \<Rightarrow> log_data \<Rightarrow> log_data_c" where
  "log_data_to_c E d =
     \<lparr>c_level = level d, c_tag = string_ref_opt (tag d), c_message = string_ref (message d),
      c_timestamp = chrono_secs E (timestamp d), c_file = string_ref (file_name d),
      c_line = line d, c_column = column d, c_function_name = string_ref_opt (function_name d)\<rparr>"

section \<open>The functions\<close>

definition with_logger :: "'a \<Rightarrow> ('w ctx \<Rightarrow> ('w, 'a) ffi) \<Rightarrow> ('w, 'a) ffi" where
  "with_logger dflt k s = (case get_logger s of None \<Rightarrow> (Ok dflt, s) | Some c \<Rightarrow> k c s)"

definition set_ctx :: "('w ctx \<Rightarrow> 'w ctx) \<Rightarrow> ('w, unit) ffi" where
  "set_ctx f s = (Ok (), s\<lparr>p_logger := map_option f (p_logger s)\<rparr>)"

definition paper2_init_logger_ffi ::
  "'z os_scheme \<Rightarrow> config_ffi option \<Rightarrow> addr \<Rightarrow> ('w, bool) ffi" where
  "paper2_init_logger_ffi E conf path =
     (if path = 0 then ret False
      else bind_act (read_cstr path)
        (\<lambda>bs. case from_utf8 bs of
                None \<Rightarrow> ret False
              | Some path_str \<Rightarrow>
                  bind_act (case conf of None \<Rightarrow> ret default_config | Some k \<Rightarrow> config_from k)
                    (\<lambda>cfg s. case init_logger E cfg path_str s of
                               (Ok u, t) \<Rightarrow> (Ok True, t)
                             | (Err e, t) \<Rightarrow> (Ok False, t)
                             | (Panic p, t) \<Rightarrow> (Panic p, t))))"

text \<open>The report queued when a context file cannot be created.\<close>

definition context_report :: "(io_error \<Rightarrow> rstr) \<Rightarrow> instant \<Rightarrow> rstr \<Rightarrow> logger_error \<Rightarrow> log_data" where
  "context_report show_io now t e =
     (log_data_default now)\<lparr>level := Info, tag := None,
       message := lit ''Error creating context '' @ t @ lit '':'' @ [10] @ show_error show_io e,
       file_name := lit ''src/ffi.rs'', line := 108, column := 21, function_name := None\<rparr>"

definition paper2_register_context_id ::
  "'z os_scheme \<Rightarrow> (io_error \<Rightarrow> rstr) \<Rightarrow> instant \<Rightarrow> addr \<Rightarrow> ('w, unit) ffi" where
  "paper2_register_context_id E show_io now p =
     (if p = 0 then ret ()
      else with_logger () (\<lambda>c0.
        bind_act (read_lossy p)
          (\<lambda>t s. case add_context E t (c0, p_world s) of
                   (Ok u, (c, w)) \<Rightarrow> (Ok (), s\<lparr>p_logger := Some c, p_world := w\<rparr>)
                 | (Err e, (c, w)) \<Rightarrow>
                     (Ok (), s\<lparr>p_logger := Some (queue_log (context_report show_io now t e) c),
                               p_world := w\<rparr>)
                 | (Panic x, (c, w)) \<Rightarrow> (Panic x, s\<lparr>p_logger := Some c, p_world := w\<rparr>))))"

definition paper2_unregister_context_id :: "'z os_scheme \<Rightarrow> addr \<Rightarrow> ('w, unit) ffi" where
  "paper2_unregister_context_id E p =
     (if p = 0 then ret ()
      else with_logger () (\<lambda>c0.
        bind_act (read_lossy p)
          (\<lambda>t s. case remove_context E t (c0, p_world s) of
                   (c, w) \<Rightarrow> (Ok (), s\<lparr>p_logger := Some c, p_world := w\<rparr>))))"

text \<open>\<open>line as u32\<close> of a \<open>c_int\<close> keeps the bits.\<close>

definition paper2_queue_log_ffi ::
  "instant \<Rightarrow> log_level \<Rightarrow> addr \<Rightarrow> addr \<Rightarrow> addr \<Rightarrow> 32 word \<Rightarrow> 32 word \<Rightarrow> addr \<Rightarrow> ('w, bool) ffi" where
  "paper2_queue_log_ffi now lv tg msg fl ln col fn =
     (if msg = 0 \<or> fl = 0 then ret False
      else with_logger False (\<lambda>_.
        bind_act (read_opt tg) (\<lambda>t.
        bind_act (read_lossy msg) (\<lambda>m.
        bind_act (read_lossy fl) (\<lambda>f.
        bind_act (read_opt fn) (\<lambda>n.
          seq_act
            (set_ctx (queue_log ((log_data_default now)\<lparr>level := lv, tag := t, message := m,
               file_name := f, line := ln, column := col, function_name := n\<rparr>)))
            (ret True)))))))"

text \<open>
  \<open>paper2_wait_for_flush\<close> on its own: \<open>None\<close> while the call blocks.  The version with a
  timeout returns in any case.  While it waits it holds the read lock, and other threads go on:
  \<open>during\<close> is what they do to the process in each of its waits on the condition variable.  A
  wait ends with a wake-up, after which the flag is read again, but for the last one, which
  times out: then the call returns without reading the flag.
\<close>

definition paper2_wait_for_flush :: "'w proc \<Rightarrow> (bool \<times> 'w proc) option" where
  "paper2_wait_for_flush s =
     (case get_logger s of
        None \<Rightarrow> Some (False, s)
      | Some c \<Rightarrow>
          (case wait_for_flush_poll c of
             (True, c') \<Rightarrow> Some (True, s\<lparr>p_logger := Some c'\<rparr>)
           | (False, c') \<Rightarrow> None))"

fun timed_wait :: "('w proc \<Rightarrow> 'w proc) list \<Rightarrow> 'w proc \<Rightarrow> 'w proc" where
  "timed_wait during s =
     (case get_logger s of
        None \<Rightarrow> s
      | Some c \<Rightarrow>
          (case wait_for_flush_poll c of
             (True, c') \<Rightarrow> s\<lparr>p_logger := Some c'\<rparr>
           | (False, c') \<Rightarrow>
               (case during of
                  [] \<Rightarrow> s
                | f # fs \<Rightarrow> if fs = [] then f s else timed_wait fs (f s))))"

declare timed_wait.simps [simp del]

definition paper2_wait_flush_timeout ::
  "32 word \<Rightarrow> ('w proc \<Rightarrow> 'w proc) list \<Rightarrow> 'w proc \<Rightarrow> bool \<times> 'w proc" where
  "paper2_wait_flush_timeout timeout_ms during s =
     (case get_logger s of None \<Rightarrow> (False, s) | Some c \<Rightarrow> (True, timed_wait during s))"

text \<open>With nobody else running, the call takes the signal that is there, or none.\<close>

lemma timed_wait_alone:
  "timed_wait [] s =
     (case get_logger s of None \<Rightarrow> s | Some c \<Rightarrow> s\<lparr>p_logger := Some (snd (wait_for_flush_poll c))\<rparr>)"
proof (cases "get_logger s")
  case (Some c)
  show ?thesis
  proof (cases "log_sem c")
    case False
    then have c: "c\<lparr>log_sem := False\<rparr> = c" by (cases c) simp
    have "s\<lparr>p_logger := Some (c\<lparr>log_sem := False\<rparr>)\<rparr> = s"
      unfolding c using Some by (cases s) (simp add: get_logger_def)
    then show ?thesis using False
      by (subst timed_wait.simps) (simp add: Some wait_for_flush_poll_def sem_poll_def)
  qed (simp add: timed_wait.simps Some wait_for_flush_poll_def sem_poll_def)
qed (simp add: timed_wait.simps)

lemma wait_flush_timeout_alone:
  "paper2_wait_flush_timeout ms [] s =
     (case get_logger s of
        None \<Rightarrow> (False, s)
      | Some c \<Rightarrow> (True, s\<lparr>p_logger := Some (snd (wait_for_flush_poll c))\<rparr>))"
  by (simp add: paper2_wait_flush_timeout_def timed_wait_alone split: option.splits)

definition paper2_get_log_directory :: "('w, addr) ffi" where
  "paper2_get_log_directory s =
     (case get_logger s of
        None \<Rightarrow> (Ok 0, s)
      | Some c \<Rightarrow>
          (case cstring_new (utf8 (context_log_path (config c))) of
             None \<Rightarrow> (Panic ''called `Result::unwrap()` on an `Err` value'', s)
           | Some bs \<Rightarrow>
               (case alloc_cstring bs (p_heap s) of (p, h) \<Rightarrow> (Ok p, s\<lparr>p_heap := h\<rparr>))))"

definition paper2_get_inited :: "'w proc \<Rightarrow> bool" where
  "paper2_get_inited s = (case get_logger s of None \<Rightarrow> False | Some c \<Rightarrow> is_inited c)"

text \<open>
  A C callback reads the record and the user data and changes the client's state; the sink
  built around it always returns \<open>Ok\<close>.
\<close>

type_synonym 'w callback = "log_data_c \<Rightarrow> addr \<Rightarrow> 'w \<Rightarrow> 'w"

definition callback_sink :: "'z env_scheme \<Rightarrow> 'w callback \<Rightarrow> addr \<Rightarrow> 'w sink" where
  "callback_sink E callback user_data d u = (Ok (), callback (log_data_to_c E d) user_data u)"

definition paper2_add_log_sink :: "'z env_scheme \<Rightarrow> 'w callback \<Rightarrow> addr \<Rightarrow> ('w, bool) ffi" where
  "paper2_add_log_sink E callback user_data =
     with_logger False (\<lambda>_.
       seq_act (set_ctx (add_sink (callback_sink E callback user_data))) (ret True))"

text \<open>\<open>CString::from_raw\<close> and its drop: the bytes up to the terminator are unmapped.\<close>

definition dealloc :: "addr \<Rightarrow> heap \<Rightarrow> heap option" where
  "dealloc p h =
     (case cstr h p of
        None \<Rightarrow> None
      | Some bs \<Rightarrow>
          Some (h\<lparr>cells := (\<lambda>a. if p \<le> a \<and> a \<le> p + length bs then None else cells h a)\<rparr>))"

definition paper2_free_c_string :: "addr \<Rightarrow> ('w, unit) ffi" where
  "paper2_free_c_string p s =
     (if p = 0 then (Ok (), s)
      else case dealloc p (p_heap s) of
             None \<Rightarrow> (Err Undefined, s)
           | Some h \<Rightarrow> (Ok (), s\<lparr>p_heap := h\<rparr>))"

section \<open>Lemmas\<close>

lemma read_cstr_simp [simp]: "cstr (p_heap s) p = Some bs \<Longrightarrow> read_cstr p s = (Ok bs, s)"
  by (simp add: read_cstr_def)

lemma read_lossy_simp [simp]:
  "cstr (p_heap s) p = Some bs \<Longrightarrow> read_lossy p s = (Ok (from_utf8_lossy bs), s)"
  by (simp add: read_lossy_def ret_Ok)

lemma read_opt_simps [simp]:
  "read_opt 0 s = (Ok None, s)"
  "p \<noteq> 0 \<Longrightarrow> cstr (p_heap s) p = Some bs \<Longrightarrow> read_opt p s = (Ok (Some (from_utf8_lossy bs)), s)"
  by (simp_all add: read_opt_def ret_Ok)

text \<open>A C string argument that holds the text \<open>x\<close>, and one that may be null.\<close>

definition holds :: "heap \<Rightarrow> addr \<Rightarrow> rstr \<Rightarrow> bool" where
  "holds h p x \<longleftrightarrow> p \<noteq> 0 \<and> rust_str x \<and> cstr h p = Some (utf8 x)"

definition holds_opt :: "heap \<Rightarrow> addr \<Rightarrow> rstr option \<Rightarrow> bool" where
  "holds_opt h p x \<longleftrightarrow> (case x of None \<Rightarrow> p = 0 | Some t \<Rightarrow> holds h p t)"

lemma holds_read: "holds (p_heap s) p x \<Longrightarrow> read_lossy p s = (Ok x, s)"
  by (auto simp: holds_def utf8c.dec_enc)

lemma holds_opt_read: "holds_opt (p_heap s) p x \<Longrightarrow> read_opt p s = (Ok x, s)"
  by (auto simp: holds_opt_def holds_def utf8c.dec_enc split: option.splits)

text \<open>What the caller wrote into its strings is what the queued record holds.\<close>

lemma queue_log_ffi_spec:
  assumes "get_logger s = Some c" "holds_opt (p_heap s) tg t" "holds (p_heap s) msg m"
    "holds (p_heap s) fl f" "holds_opt (p_heap s) fn n"
  shows "paper2_queue_log_ffi now lv tg msg fl ln col fn s =
    (Ok True, s\<lparr>p_logger := Some (queue_log (log_data_new lv t m f ln col n now) c)\<rparr>)"
  using assms
  by (simp add: paper2_queue_log_ffi_def holds_read holds_opt_read with_logger_def set_ctx_def
      seq_act_def bind_act_def ret_Ok log_data_new_def log_data_default_def get_logger_def)
    (simp add: holds_def)

text \<open>A directory handed out is readable, and freeing it restores the memory.\<close>

lemma dealloc_alloc:
  assumes ok: "heap_ok h" and nz: "0 \<notin> set bs" and al: "alloc_cstring bs h = (p, h')"
  shows "\<exists>h''. dealloc p h' = Some h'' \<and> cells h'' = cells h"
proof -
  have p: "p = brk h" "cells h' = poke (cells h) (brk h) (bs @ [0])"
    using al by (auto simp: alloc_cstring_def)
  have "cells h a = (if p \<le> a \<and> a \<le> p + length bs then None else cells h' a)" for a
    using ok by (auto simp: p heap_ok_def poke_other)
  then show ?thesis using cstr_alloc [OF nz al] by (auto simp: dealloc_def fun_eq_iff)
qed

lemma dealloc_twice:
  assumes "dealloc p h = Some h'"
  shows "dealloc p h' = None"
proof -
  have "cells h' p = None" using assms by (auto simp: dealloc_def split: option.splits)
  then show ?thesis by (simp add: dealloc_def cstr.simps)
qed

lemma callback_sink_ok: "fst (callback_sink E cb u d w) = Ok ()"
  by (simp add: callback_sink_def)

lemma heap_ok_dealloc: "heap_ok h \<Longrightarrow> dealloc p h = Some h' \<Longrightarrow> heap_ok h'"
  by (auto simp: heap_ok_def dealloc_def split: option.splits)

text \<open>The configuration of the C structure reaches the logger unchanged.\<close>

theorem ffi_init_converts_config:
  assumes "proc_ok s" "p_logger s = None" "holds (p_heap s) path p" "holds (p_heap s) (cf_context_log_path k) dir"
    and "paper2_init_logger_ffi E (Some k) path s = (Ok True, t)"
  shows "\<exists>c. p_logger t = Some c \<and> inited c \<and>
    config c = \<lparr>max_string_len = unat (cf_max_string_len k),
      log_max_buffer_count = unat (cf_log_max_buffer_count k), line_end = unat (cf_line_end k),
      context_log_path = dir\<rparr>"
proof -
  let ?cfg = "\<lparr>max_string_len = unat (cf_max_string_len k),
      log_max_buffer_count = unat (cf_log_max_buffer_count k), line_end = unat (cf_line_end k),
      context_log_path = dir\<rparr>"
  have c: "config_from k s = (Ok ?cfg, s)"
    by (simp add: config_from_def bind_act_def holds_read [OF assms(4)] ret_Ok)
  have i: "init_logger E ?cfg p s = (Ok (), t)"
    using assms(3,5) by (auto simp: paper2_init_logger_ffi_def holds_def from_utf8_utf8 bind_act_def c
        split: prod.splits res.splits)
  show ?thesis using init_logger_Ok [OF assms(1,2) i] by blast
qed

text \<open>
  When the file of a context cannot be created, paper2_register_context_id returns normally
  and queues a record that names the tag and the error; nothing is registered.
\<close>

theorem register_failure_is_logged:
  assumes "get_logger s = Some c" "holds (p_heap s) p t"
    and "os_create E (ticks (w_fs (p_world s))) (context_path c t) = Some e"
  shows "\<exists>u c'. paper2_register_context_id E show_io now p s = (Ok (), u) \<and> p_logger u = Some c' \<and>
    log_queue c' = log_queue c @ [context_report show_io now t
      (IoSpecificError e (Some (lit ''Unable to create context file'')) (context_path c t))] \<and>
    context_map c' = context_map c"
proof -
  let ?e = "IoSpecificError e (Some (lit ''Unable to create context file'')) (context_path c t)"
  have n: "\<not> creates E (context_path c t) (w_fs (p_world s))" using assms(3) by (simp add: creates_def)
  have a: "add_context E t (c, p_world s) = (Err ?e, (c, (p_world s)\<lparr>w_fs :=
      (w_fs (p_world s))\<lparr>ticks := Suc (ticks (w_fs (p_world s)))\<rparr>\<rparr>))"
    using file_create_Err [OF n] assms(3) by (auto simp: add_context_def Let_def)
  have "p \<noteq> 0" using assms(2) by (simp add: holds_def)
  then show ?thesis
    using assms(1) holds_read [OF assms(2)] a
    by (simp add: paper2_register_context_id_def with_logger_def bind_act_def queue_log_simps)
qed

text \<open>
  The string paper2_get_log_directory hands out holds the configured directory; freeing it
  restores the memory as it was, and freeing it again is undefined behaviour.
\<close>

theorem log_directory_roundtrip:
  assumes "get_logger s = Some c" "heap_ok (p_heap s)" "rust_str (context_log_path (config c))"
    and "0 \<notin> set (context_log_path (config c))"
  shows "\<exists>p t u. paper2_get_log_directory s = (Ok p, t) \<and> holds (p_heap t) p (context_log_path (config c)) \<and>
    paper2_free_c_string p t = (Ok (), u) \<and> cells (p_heap u) = cells (p_heap s) \<and>
    paper2_free_c_string p u = (Err Undefined, u)"
proof -
  let ?bs = "utf8 (context_log_path (config c))"
  have z: "0 \<notin> set ?bs" using assms(3,4) by (simp add: zero_utf8)
  obtain p h where al: "alloc_cstring ?bs (p_heap s) = (p, h)" by (meson surj_pair)
  obtain g where g: "dealloc p h = Some g" "cells g = cells (p_heap s)"
    using dealloc_alloc [OF assms(2) z al] by blast
  have p: "0 < p" using heap_ok_alloc [OF assms(2) al] by blast
  have "paper2_get_log_directory s = (Ok p, s\<lparr>p_heap := h\<rparr>)"
    using assms(1) z al by (simp add: paper2_get_log_directory_def cstring_new_def)
  moreover have "holds h p (context_log_path (config c))"
    using cstr_alloc [OF z al] p assms(3) by (simp add: holds_def)
  moreover have "paper2_free_c_string p (s\<lparr>p_heap := h\<rparr>) = (Ok (), s\<lparr>p_heap := g\<rparr>)"
    using g(1) p by (simp add: paper2_free_c_string_def)
  moreover have "paper2_free_c_string p (s\<lparr>p_heap := g\<rparr>) = (Err Undefined, s\<lparr>p_heap := g\<rparr>)"
    using dealloc_twice [OF g(1)] p by (simp add: paper2_free_c_string_def)
  ultimately show ?thesis using g(2)
    by (intro exI [of _ p] exI [of _ "s\<lparr>p_heap := h\<rparr>"] exI [of _ "s\<lparr>p_heap := g\<rparr>"]) simp
qed

end
