(* ===== verification/Facades.thy ===== *)
theory Facades
  imports Ffi
begin

text \<open>
  The adapters that forward records of other logging libraries through the C interface:
  \<open>paper2_log/src/lib.rs\<close> for the \<open>log\<close> crate and \<open>paper2_tracing/src/lib.rs\<close> for
  \<open>tracing\<close>.  A record or an event is given by what the adapters read of it; how Rust
  formats the arguments of a record or the \<open>Debug\<close> value of a field is part of the input.
\<close>

section \<open>Strings passed for the duration of a call\<close>

text \<open>An optional \<open>CString\<close> argument: null, or the address of a copy on the heap.\<close>

definition arg_alloc :: "byte list option \<Rightarrow> ('w, addr) ffi" where
  "arg_alloc b s =
     (case b of
        None \<Rightarrow> (Ok 0, s)
      | Some bs \<Rightarrow> (case alloc_cstring bs (p_heap s) of (p, h) \<Rightarrow> (Ok p, s\<lparr>p_heap := h\<rparr>)))"

text \<open>\<open>CString::new(s).ok()\<close> of an optional string.\<close>

definition cstring_ok :: "rstr option \<Rightarrow> byte list option" where
  "cstring_ok x = Option.bind x (\<lambda>s. cstring_new (utf8 s))"

section \<open>The facade of the log crate\<close>

datatype l_level = L_Error | L_Warn | L_Info | L_Debug | L_Trace

text \<open>The numbers of \<open>log::Level\<close>; a \<open>LevelFilter\<close> is one of them, or 0 for \<open>Off\<close>.\<close>

fun l_rank :: "l_level \<Rightarrow> nat" where
  "l_rank L_Error = 1"
| "l_rank L_Warn = 2"
| "l_rank L_Info = 3"
| "l_rank L_Debug = 4"
| "l_rank L_Trace = 5"

fun log_map_level :: "l_level \<Rightarrow> log_level" where
  "log_map_level L_Error = Error"
| "log_map_level L_Warn = Warn"
| "log_map_level L_Info = Info"
| "log_map_level L_Debug = Debug"
| "log_map_level L_Trace = Debug"

record l_record =
  l_level :: l_level
  l_module_path :: "rstr option"
  l_args :: rstr
  l_file :: "rstr option"
  l_line :: "32 word option"

definition facade_enabled :: "nat \<Rightarrow> l_level \<Rightarrow> bool" where
  "facade_enabled max_level l \<longleftrightarrow> l_rank l \<le> max_level"

text \<open>\<open>Paper2Logger::log\<close>; the strings are dropped after the call.\<close>

definition drop_args :: "addr list \<Rightarrow> heap \<Rightarrow> heap" where
  "drop_args ps h = fold (\<lambda>p g. case dealloc p g of None \<Rightarrow> g | Some k \<Rightarrow> k) (filter (\<lambda>p. p \<noteq> 0) ps) h"

definition facade_log :: "instant \<Rightarrow> nat \<Rightarrow> l_record \<Rightarrow> ('w, unit) ffi" where
  "facade_log now max_level r s =
     (if \<not> facade_enabled max_level (l_level r) \<or> \<not> paper2_get_inited s then (Ok (), s)
      else
        bind_act (arg_alloc (cstring_ok (l_module_path r))) (\<lambda>tg.
        bind_act (arg_alloc (cstring_ok (Some (l_args r)))) (\<lambda>msg.
        bind_act (arg_alloc (cstring_ok (l_file r))) (\<lambda>fl.
        bind_act (arg_alloc (cstring_ok (l_module_path r))) (\<lambda>fn.
        bind_act (paper2_queue_log_ffi now (log_map_level (l_level r)) tg msg fl
                    (unwrap_or (l_line r) 0) 0 fn) (\<lambda>_ t.
          (Ok (), t\<lparr>p_heap := drop_args [tg, msg, fl, fn] (p_heap t)\<rparr>)))))) s)"

text \<open>
  \<open>Paper2Logger::init_with_max_level\<close>.  The state \<open>'l\<close> of the \<open>log\<close> crate and its two
  operations are parameters: \<open>set_boxed_logger\<close>, which refuses when a logger is installed, and
  \<open>set_max_level\<close>.
\<close>

definition init_with_max_level ::
  "('l, 'e, unit) act \<Rightarrow> (nat \<Rightarrow> 'l \<Rightarrow> 'l) \<Rightarrow> nat \<Rightarrow> ('l, 'e, unit) act" where
  "init_with_max_level set_boxed_logger set_max_level lv =
     seq_act set_boxed_logger (\<lambda>s. (Ok (), set_max_level lv s))"

text \<open>\<open>Paper2Logger::flush\<close>: \<open>None\<close> while it blocks.\<close>

definition facade_flush :: "'w proc \<Rightarrow> 'w proc option" where
  "facade_flush s =
     (if paper2_get_inited s then map_option snd (paper2_wait_for_flush s) else Some s)"

section \<open>The layer of tracing\<close>

fun tracing_map_level :: "t_level \<Rightarrow> log_level" where
  "tracing_map_level T_ERROR = Error"
| "tracing_map_level T_WARN = Warn"
| "tracing_map_level T_INFO = Info"
| "tracing_map_level T_DEBUG = Debug"
| "tracing_map_level T_TRACE = Debug"

text \<open>The value of a field; \<open>Debug\<close> and floating-point values come already printed.\<close>

datatype field_value =
    F_Debug rstr | F_i64 "64 word" | F_u64 "64 word" | F_str rstr | F_bool bool | F_f64 rstr

definition show_i64 :: "64 word \<Rightarrow> rstr" where
  "show_i64 w =
     (if sint w < 0 then 45 # show_nat (nat (- sint w)) else show_nat (nat (sint w)))"

fun show_field :: "field_value \<Rightarrow> rstr" where
  "show_field (F_Debug s) = s"
| "show_field (F_i64 w) = show_i64 w"
| "show_field (F_u64 w) = show_nat (unat w)"
| "show_field (F_str s) = s"
| "show_field (F_bool b) = lit (if b then ''true'' else ''false'')"
| "show_field (F_f64 s) = s"

text \<open>One call of a \<open>record_*\<close> method of \<open>MessageVisitor\<close> on its \<open>parts\<close>, and a whole event.\<close>

definition visit_field :: "rstr \<times> field_value \<Rightarrow> rstr \<Rightarrow> rstr" where
  "visit_field f parts =
     (if parts = [] then [] else parts @ lit '' '') @ fst f @ lit ''='' @ show_field (snd f)"

definition visit_event :: "(rstr \<times> field_value) list \<Rightarrow> rstr" where
  "visit_event fs = fold visit_field fs []"

record t_event =
  e_level :: t_level
  e_target :: rstr
  e_file :: "rstr option"
  e_line :: "32 word option"
  e_fields :: "(rstr \<times> field_value) list"

text \<open>\<open>PaperLayer\<close>: its tag is a \<open>CString\<close>; \<open>with_tag\<close> panics on an interior zero.\<close>

definition with_tag :: "byte list \<Rightarrow> ('s, 'e, byte list option) act" where
  "with_tag t s =
     (case cstring_new t of
        None \<Rightarrow> (Panic ''Unable to make CString tag'', s)
      | Some bs \<Rightarrow> (Ok (Some bs), s))"

definition layer_new :: "byte list option" where
  "layer_new = None"

definition layer_for :: "rstr option \<Rightarrow> ('s, 'e, byte list option) act" where
  "layer_for tg = (case tg of Some t \<Rightarrow> with_tag (utf8 t) | None \<Rightarrow> ret layer_new)"

text \<open>
  \<open>CString::new(..).unwrap()\<close> and \<open>.expect(..)\<close> of a text argument.  The layer's own tag
  lives as long as the layer; \<open>on_event\<close> lays it out for the call.
\<close>

definition arg_unwrap :: "rstr \<Rightarrow> ('w, addr) ffi" where
  "arg_unwrap x s =
     (case cstring_new (utf8 x) of
        None \<Rightarrow> (Panic ''called `Result::unwrap()` on an `Err` value: NulError'', s)
      | Some bs \<Rightarrow> arg_alloc (Some bs) s)"

definition event_message :: "t_event \<Rightarrow> rstr" where
  "event_message e =
     (let parts = visit_event (e_fields e) in if parts \<noteq> [] then parts else e_target e)"

definition on_event :: "instant \<Rightarrow> byte list option \<Rightarrow> t_event \<Rightarrow> ('w, unit) ffi" where
  "on_event now tg e =
     bind_act (arg_unwrap (e_target e)) (\<lambda>fn.
     bind_act (arg_alloc tg) (\<lambda>tp.
     bind_act (arg_unwrap (event_message e)) (\<lambda>msg.
     bind_act (arg_unwrap (unwrap_or (e_file e) [])) (\<lambda>fl.
     bind_act (paper2_queue_log_ffi now (tracing_map_level (e_level e)) tp msg fl
                 (unwrap_or (e_line e) 0) 0 fn) (\<lambda>_ t.
       (Ok (), t\<lparr>p_heap := drop_args [fn, tp, msg, fl] (p_heap t)\<rparr>))))))"

text \<open>
  \<open>init_paper_tracing\<close>.  \<open>Registry::default().with(layer).try_init()\<close> is the parameter
  \<open>try_init\<close>, given the tag of the layer.
\<close>

definition init_paper_tracing ::
  "(byte list option \<Rightarrow> ('l, 'e, unit) act) \<Rightarrow> rstr option \<Rightarrow> ('l, 'e, unit) act" where
  "init_paper_tracing try_init tg = bind_act (layer_for tg) try_init"

section \<open>Installing the front ends\<close>

text \<open>
  A refused installation leaves the maximum level alone; an accepted one sets it, and the
  records above it are then not forwarded.
\<close>

lemma install_refused:
  "set_boxed s = (Err e, t) \<Longrightarrow> init_with_max_level set_boxed set_max l s = (Err e, t)"
  by (simp add: init_with_max_level_def seq_act_def bind_act_def)

lemma installed_level_filters:
  assumes "set_boxed s = (Ok (), t)" "\<And>k u. max_level (set_max k u) = k"
  shows "init_with_max_level set_boxed set_max l s = (Ok (), set_max l t) \<and>
    (l < l_rank (l_level r) \<longrightarrow> facade_log now (max_level (set_max l t)) r p = (Ok (), p))"
  using assms
  by (simp add: init_with_max_level_def seq_act_def bind_act_def facade_log_def facade_enabled_def)

text \<open>The tag of the layer reaches \<open>try_init\<close>; one with U+0000 panics before anything is installed.\<close>

lemma init_tracing_cases:
  assumes "rust_str t"
  shows "init_paper_tracing try_init (Some t) s =
    (if 0 \<in> set t then (Panic ''Unable to make CString tag'', s) else try_init (Some (utf8 t)) s)"
  using assms
  by (simp add: init_paper_tracing_def layer_for_def with_tag_def cstring_new_def zero_utf8 bind_act_def)

section \<open>Lemmas\<close>

lemma visit_fields_append:
  "parts \<noteq> [] \<Longrightarrow> fold visit_field fs parts =
     parts @ concat (map (\<lambda>f. lit '' '' @ fst f @ lit ''='' @ show_field (snd f)) fs)"
  by (induction fs arbitrary: parts) (simp_all add: visit_field_def)

lemma visit_event_Cons:
  "visit_event (f # fs) = fst f @ lit ''='' @ show_field (snd f) @
     concat (map (\<lambda>g. lit '' '' @ fst g @ lit ''='' @ show_field (snd g)) fs)"
proof -
  have "visit_field f [] \<noteq> []" by (simp add: visit_field_def lit_def)
  then show ?thesis by (simp add: visit_event_def visit_fields_append) (simp add: visit_field_def)
qed

text \<open>An argument that has been copied to the heap holds its text, and keeps holding it.\<close>

lemma arg_alloc_state:
  "arg_alloc b s = (r, t) \<Longrightarrow> p_logger t = p_logger s \<and> p_world t = p_world s \<and> is_ok r"
  by (auto simp: arg_alloc_def split: option.splits prod.splits)

lemma arg_alloc_holds:
  assumes ok: "heap_ok (p_heap s)" and x: "\<And>y. x = Some y \<Longrightarrow> rust_str y \<and> 0 \<notin> set y"
  obtains p h where "arg_alloc (cstring_ok x) s = (Ok p, s\<lparr>p_heap := h\<rparr>)"
    "heap_ok h" "holds_opt h p x" "\<forall>q y. holds_opt (p_heap s) q y \<longrightarrow> holds_opt h q y"
proof (cases x)
  case None
  show ?thesis
    by (rule that [of 0 "p_heap s"]) (simp_all add: None cstring_ok_def arg_alloc_def holds_opt_def ok)
next
  case (Some y)
  have y: "rust_str y" "0 \<notin> set (utf8 y)" using x [OF Some] by (simp_all add: zero_utf8)
  obtain p h where al: "alloc_cstring (utf8 y) (p_heap s) = (p, h)" by (meson surj_pair)
  note hk = heap_ok_alloc [OF ok al]
  show ?thesis
  proof (rule that [of p h])
    show "arg_alloc (cstring_ok x) s = (Ok p, s\<lparr>p_heap := h\<rparr>)"
      using y(2) al by (simp add: Some cstring_ok_def cstring_new_def arg_alloc_def)
    show "holds_opt h p x"
      using cstr_alloc [OF y(2) al] y(1) hk by (simp add: Some holds_opt_def holds_def)
    show "\<forall>q z. holds_opt (p_heap s) q z \<longrightarrow> holds_opt h q z"
      using cstr_alloc_other [OF ok al] by (auto simp: holds_opt_def holds_def split: option.splits)
  qed (simp_all add: hk)
qed

lemma holds_opt_Some: "holds_opt h p (Some x) = holds h p x"
  by (simp add: holds_opt_def)

text \<open>
  A record of the \<open>log\<close> crate whose strings have no U+0000 and that has a file is queued
  with its text unchanged; the module path is both tag and function name.
\<close>

theorem log_facade_queues:
  fixes s :: "'w proc"
  assumes en: "facade_enabled mx (l_level r)" and c: "p_logger s = Some c" "inited c"
    and ok: "heap_ok (p_heap s)" and f: "l_file r = Some f"
    and clean: "rust_str f" "0 \<notin> set f" "rust_str (l_args r)" "0 \<notin> set (l_args r)"
      "\<And>m. l_module_path r = Some m \<Longrightarrow> rust_str m \<and> 0 \<notin> set m"
  shows "\<exists>h. facade_log now mx r s = (Ok (), s\<lparr>p_heap := h,
    p_logger := Some (queue_log (log_data_new (log_map_level (l_level r)) (l_module_path r)
      (l_args r) f (unwrap_or (l_line r) 0) 0 (l_module_path r) now) c)\<rparr>)"
proof -
  have m: "rust_str y \<and> 0 \<notin> set y" if "Some (l_args r) = Some y" for y using that clean(3,4) by simp
  have l: "rust_str y \<and> 0 \<notin> set y" if "Some f = Some y" for y using that clean(1,2) by simp
  obtain tg h1 where 1: "arg_alloc (cstring_ok (l_module_path r)) s = (Ok tg, s\<lparr>p_heap := h1\<rparr>)"
      "heap_ok h1" "holds_opt h1 tg (l_module_path r)"
    by (rule arg_alloc_holds [OF ok clean(5)])
  have ok1: "heap_ok (p_heap (s\<lparr>p_heap := h1\<rparr>))" using 1(2) by simp
  obtain msg h2 where 2: "arg_alloc (cstring_ok (Some (l_args r))) (s\<lparr>p_heap := h1\<rparr>) = (Ok msg, s\<lparr>p_heap := h2\<rparr>)"
      "heap_ok h2" "holds_opt h2 msg (Some (l_args r))"
      "\<forall>q y. holds_opt h1 q y \<longrightarrow> holds_opt h2 q y"
    by (rule arg_alloc_holds [OF ok1, of "Some (l_args r)"]) (use m in auto)
  have ok2: "heap_ok (p_heap (s\<lparr>p_heap := h2\<rparr>))" using 2(2) by simp
  obtain fl h3 where 3: "arg_alloc (cstring_ok (Some f)) (s\<lparr>p_heap := h2\<rparr>) = (Ok fl, s\<lparr>p_heap := h3\<rparr>)"
      "heap_ok h3" "holds_opt h3 fl (Some f)" "\<forall>q y. holds_opt h2 q y \<longrightarrow> holds_opt h3 q y"
    by (rule arg_alloc_holds [OF ok2, of "Some f"]) (use l in auto)
  have ok3: "heap_ok (p_heap (s\<lparr>p_heap := h3\<rparr>))" using 3(2) by simp
  obtain fn h4 where 4: "arg_alloc (cstring_ok (l_module_path r)) (s\<lparr>p_heap := h3\<rparr>) = (Ok fn, s\<lparr>p_heap := h4\<rparr>)"
      "holds_opt h4 fn (l_module_path r)" "\<forall>q y. holds_opt h3 q y \<longrightarrow> holds_opt h4 q y"
    by (rule arg_alloc_holds [OF ok3, of "l_module_path r"]) (use clean(5) in auto)
  let ?s = "s\<lparr>p_heap := h4\<rparr>"
  have g: "get_logger ?s = Some c" using c(1) by (simp add: get_logger_def)
  have h: "holds_opt (p_heap ?s) tg (l_module_path r)" "holds (p_heap ?s) msg (l_args r)"
    "holds (p_heap ?s) fl f" "holds_opt (p_heap ?s) fn (l_module_path r)"
    using 1(3) 2(3,4) 3(3,4) 4(2,3) by (simp_all add: holds_opt_Some [symmetric])
  note q = queue_log_ffi_spec [OF g h, of now "log_map_level (l_level r)" "unwrap_or (l_line r) 0" 0]
  have i: "paper2_get_inited s" using c by (simp add: paper2_get_inited_def get_logger_def is_inited_def)
  have b: "bind_act (paper2_queue_log_ffi now (log_map_level (l_level r)) tg msg fl
      (unwrap_or (l_line r) 0) 0 fn) k ?s = k True (?s\<lparr>p_logger := Some (queue_log
        (log_data_new (log_map_level (l_level r)) (l_module_path r) (l_args r) f
          (unwrap_or (l_line r) 0) 0 (l_module_path r) now) c)\<rparr>)" for k :: "bool \<Rightarrow> ('w, unit) ffi"
    by (simp add: bind_act_def q)
  have "facade_log now mx r s = (Ok (), s\<lparr>p_heap := drop_args [tg, msg, fl, fn] h4,
    p_logger := Some (queue_log (log_data_new (log_map_level (l_level r)) (l_module_path r)
      (l_args r) f (unwrap_or (l_line r) 0) 0 (l_module_path r) now) c)\<rparr>)"
    using en i f 1(1) 2(1) 3(1) 4(1) by (simp add: facade_log_def b)
  then show ?thesis by blast
qed

text \<open>Without a file, or with a zero in the message, the record is dropped.\<close>

lemma facade_log_drops:
  fixes s :: "'w proc"
  assumes "cstring_ok (Some (l_args r)) = None \<or> cstring_ok (l_file r) = None"
  shows "\<exists>h. facade_log now mx r s = (Ok (), s\<lparr>p_heap := h\<rparr>)"
proof (cases "facade_enabled mx (l_level r) \<and> paper2_get_inited s")
  case False
  then have "facade_log now mx r s = (Ok (), s)" by (auto simp: facade_log_def)
  then show ?thesis by (metis proc.surjective proc.update_convs(1))
next
  case True
  have al: "\<exists>p h. arg_alloc b u = (Ok p, u\<lparr>p_heap := h\<rparr>) \<and> (b = None \<longrightarrow> p = 0)"
    for b and u :: "'w proc"
    by (cases b) (auto simp: arg_alloc_def split: prod.splits intro: exI [of _ "p_heap u"])
  obtain tg h1 where 1: "arg_alloc (cstring_ok (l_module_path r)) s = (Ok tg, s\<lparr>p_heap := h1\<rparr>)"
    using al by blast
  obtain msg h2 where 2: "arg_alloc (cstring_ok (Some (l_args r))) (s\<lparr>p_heap := h1\<rparr>) = (Ok msg, s\<lparr>p_heap := h2\<rparr>)"
      "cstring_ok (Some (l_args r)) = None \<longrightarrow> msg = 0"
    using al [of "cstring_ok (Some (l_args r))" "s\<lparr>p_heap := h1\<rparr>"] by auto
  obtain fl h3 where 3: "arg_alloc (cstring_ok (l_file r)) (s\<lparr>p_heap := h2\<rparr>) = (Ok fl, s\<lparr>p_heap := h3\<rparr>)"
      "cstring_ok (l_file r) = None \<longrightarrow> fl = 0"
    using al [of "cstring_ok (l_file r)" "s\<lparr>p_heap := h2\<rparr>"] by auto
  obtain fn h4 where 4: "arg_alloc (cstring_ok (l_module_path r)) (s\<lparr>p_heap := h3\<rparr>) = (Ok fn, s\<lparr>p_heap := h4\<rparr>)"
    using al [of "cstring_ok (l_module_path r)" "s\<lparr>p_heap := h3\<rparr>"] by auto
  have "msg = 0 \<or> fl = 0" using assms 2(2) 3(2) by blast
  then have "paper2_queue_log_ffi now lv tg msg fl ln col fn u = (Ok False, u)" for lv ln col and u :: "'w proc"
    by (auto simp: paper2_queue_log_ffi_def ret_Ok)
  then have b: "bind_act (paper2_queue_log_ffi now lv tg msg fl ln col fn) k u = k False u"
    for lv ln col u and k :: "bool \<Rightarrow> ('w, unit) ffi"
    by (simp add: bind_act_def)
  have "facade_log now mx r s = (Ok (), s\<lparr>p_heap := drop_args [tg, msg, fl, fn] h4\<rparr>)"
    using True 1 2(1) 3(1) 4 by (simp add: facade_log_def b)
  then show ?thesis by blast
qed

text \<open>A zero in the message of an event panics.\<close>

lemma arg_unwrap_panics: "rust_str x \<Longrightarrow> 0 \<in> set x \<Longrightarrow> \<exists>p. arg_unwrap x s = (Panic p, s)"
  by (simp add: arg_unwrap_def cstring_new_def zero_utf8)


lemma arg_unwrap_alloc:
  "rust_str x \<Longrightarrow> 0 \<notin> set x \<Longrightarrow> arg_unwrap x s = arg_alloc (cstring_ok (Some x)) s"
  by (simp add: arg_unwrap_def cstring_ok_def cstring_new_def zero_utf8)

text \<open>The strings are freed after the call.\<close>

lemma drop_args_ok: "heap_ok h \<Longrightarrow> heap_ok (drop_args ps h)"
proof -
  have "heap_ok g \<Longrightarrow> heap_ok (fold (\<lambda>p g. case dealloc p g of None \<Rightarrow> g | Some k \<Rightarrow> k) qs g)" for qs g
    by (induction qs arbitrary: g) (auto split: option.splits dest: heap_ok_dealloc)
  then show "heap_ok h \<Longrightarrow> heap_ok (drop_args ps h)" by (simp add: drop_args_def)
qed

text \<open>An event whose strings have no U+0000 is queued with its fields as the message.\<close>

lemma on_event_queues:
  fixes s :: "'w proc"
  assumes c: "p_logger s = Some c" and ok: "heap_ok (p_heap s)"
    and tg: "\<And>t. tg = Some t \<Longrightarrow> rust_str t \<and> 0 \<notin> set t"
    and target: "rust_str (e_target e)" "0 \<notin> set (e_target e)"
    and msg: "rust_str (event_message e)" "0 \<notin> set (event_message e)"
    and path: "rust_str (unwrap_or (e_file e) [])" "0 \<notin> set (unwrap_or (e_file e) [])"
  shows "\<exists>h. heap_ok h \<and> on_event now (cstring_ok tg) e s = (Ok (), s\<lparr>p_heap := h,
    p_logger := Some (queue_log (log_data_new (tracing_map_level (e_level e)) tg (event_message e)
      (unwrap_or (e_file e) []) (unwrap_or (e_line e) 0) 0 (Some (e_target e)) now) c)\<rparr>)"
proof -
  let ?file = "unwrap_or (e_file e) []"
  obtain fn h1 where 1: "arg_alloc (cstring_ok (Some (e_target e))) s = (Ok fn, s\<lparr>p_heap := h1\<rparr>)"
      "heap_ok h1" "holds_opt h1 fn (Some (e_target e))"
    by (rule arg_alloc_holds [OF ok, of "Some (e_target e)"]) (use target in auto)
  have ok1: "heap_ok (p_heap (s\<lparr>p_heap := h1\<rparr>))" using 1(2) by simp
  obtain tp h2 where 2: "arg_alloc (cstring_ok tg) (s\<lparr>p_heap := h1\<rparr>) = (Ok tp, s\<lparr>p_heap := h2\<rparr>)"
      "heap_ok h2" "holds_opt h2 tp tg" "\<forall>q y. holds_opt h1 q y \<longrightarrow> holds_opt h2 q y"
    by (rule arg_alloc_holds [OF ok1, of tg]) (use tg in auto)
  have ok2: "heap_ok (p_heap (s\<lparr>p_heap := h2\<rparr>))" using 2(2) by simp
  obtain m h3 where 3: "arg_alloc (cstring_ok (Some (event_message e))) (s\<lparr>p_heap := h2\<rparr>) =
        (Ok m, s\<lparr>p_heap := h3\<rparr>)"
      "heap_ok h3" "holds_opt h3 m (Some (event_message e))"
      "\<forall>q y. holds_opt h2 q y \<longrightarrow> holds_opt h3 q y"
    by (rule arg_alloc_holds [OF ok2, of "Some (event_message e)"]) (use msg in auto)
  have ok3: "heap_ok (p_heap (s\<lparr>p_heap := h3\<rparr>))" using 3(2) by simp
  obtain fl h4 where 4: "arg_alloc (cstring_ok (Some ?file)) (s\<lparr>p_heap := h3\<rparr>) =
        (Ok fl, s\<lparr>p_heap := h4\<rparr>)"
      "holds_opt h4 fl (Some ?file)" "\<forall>q y. holds_opt h3 q y \<longrightarrow> holds_opt h4 q y" "heap_ok h4"
    by (rule arg_alloc_holds [OF ok3, of "Some ?file"]) (use path in auto)
  let ?s = "s\<lparr>p_heap := h4\<rparr>"
  have g: "get_logger ?s = Some c" using c by (simp add: get_logger_def)
  have h: "holds_opt (p_heap ?s) tp tg" "holds (p_heap ?s) m (event_message e)"
    "holds (p_heap ?s) fl ?file" "holds_opt (p_heap ?s) fn (Some (e_target e))"
    using 1(3) 2(3,4) 3(3,4) 4(2,3) by (simp_all add: holds_opt_Some [symmetric])
  note q = queue_log_ffi_spec [OF g h, of now "tracing_map_level (e_level e)" "unwrap_or (e_line e) 0" 0]
  have b: "bind_act (paper2_queue_log_ffi now (tracing_map_level (e_level e)) tp m fl
      (unwrap_or (e_line e) 0) 0 fn) k ?s = k True (?s\<lparr>p_logger := Some (queue_log
        (log_data_new (tracing_map_level (e_level e)) tg (event_message e) ?file
          (unwrap_or (e_line e) 0) 0 (Some (e_target e)) now) c)\<rparr>)" for k :: "bool \<Rightarrow> ('w, unit) ffi"
    by (simp add: bind_act_def q)
  have "on_event now (cstring_ok tg) e s = (Ok (), s\<lparr>p_heap := drop_args [fn, tp, m, fl] h4,
    p_logger := Some (queue_log (log_data_new (tracing_map_level (e_level e)) tg (event_message e)
      ?file (unwrap_or (e_line e) 0) 0 (Some (e_target e)) now) c)\<rparr>)"
    using 1(1) 2(1) 3(1) 4(1)
    by (simp add: on_event_def b arg_unwrap_alloc target msg path)
  with drop_args_ok [OF 4(4)] show ?thesis by blast
qed

lemma on_event_spec:
  fixes s :: "'w proc"
  assumes "p_logger s = Some c" "heap_ok (p_heap s)" "\<And>t. tg = Some t \<Longrightarrow> rust_str t \<and> 0 \<notin> set t"
    and "rust_str (e_target e)" "0 \<notin> set (e_target e)"
    and "rust_str (event_message e)" "0 \<notin> set (event_message e)"
    and "rust_str (unwrap_or (e_file e) [])" "0 \<notin> set (unwrap_or (e_file e) [])"
  shows "\<exists>h. on_event now (cstring_ok tg) e s = (Ok (), s\<lparr>p_heap := h,
    p_logger := Some (queue_log (log_data_new (tracing_map_level (e_level e)) tg (event_message e)
      (unwrap_or (e_file e) []) (unwrap_or (e_line e) 0) 0 (Some (e_target e)) now) c)\<rparr>)"
  using on_event_queues [OF assms] by blast

text \<open>A zero in the text of an event panics before anything is queued.\<close>

lemma on_event_panics:
  fixes s :: "'w proc"
  assumes "rust_str (event_message e)" "0 \<in> set (event_message e)"
  shows "\<exists>p h. on_event now tg e s = (Panic p, s\<lparr>p_heap := h\<rparr>)"
proof -
  have al: "\<exists>p h. arg_alloc b u = (Ok p, u\<lparr>p_heap := h\<rparr>)" for b and u :: "'w proc"
    by (cases b) (auto simp: arg_alloc_def split: prod.splits intro: exI [of _ "p_heap u"])
  show ?thesis
  proof (cases "cstring_new (utf8 (e_target e))")
    case None
    then show ?thesis
      by (simp add: on_event_def arg_unwrap_def bind_act_def) (rule exI [of _ "p_heap s"], simp)
  next
    case (Some bs)
    obtain fn h1 where 1: "arg_unwrap (e_target e) s = (Ok fn, s\<lparr>p_heap := h1\<rparr>)"
      using al [of "Some bs" s] Some by (auto simp: arg_unwrap_def)
    obtain tp h2 where 2: "arg_alloc tg (s\<lparr>p_heap := h1\<rparr>) = (Ok tp, s\<lparr>p_heap := h2\<rparr>)"
      using al [of tg "s\<lparr>p_heap := h1\<rparr>"] by auto
    obtain p where "arg_unwrap (event_message e) (s\<lparr>p_heap := h2\<rparr>) = (Panic p, s\<lparr>p_heap := h2\<rparr>)"
      using arg_unwrap_panics [OF assms] by blast
    with 1 2 have "on_event now tg e s = (Panic p, s\<lparr>p_heap := h2\<rparr>)" by (simp add: on_event_def)
    then show ?thesis by blast
  qed
qed

end
