(* ===== verification/Scotland2.thy ===== *)
theory Scotland2
  imports Ffi Logcat_Logger
begin

text \<open>
  \<open>scotland2/src/lib.rs\<close>: the constructor that runs when the mod loader opens the library,
  and its panic hook, which reports to logcat on Android (\<open>android\<close>) and nowhere else.
  The application id is a C string of the mod loader.
\<close>

definition mod_log_info :: "'z aenv_scheme \<Rightarrow> bool \<Rightarrow> rstr \<Rightarrow> 'w world \<Rightarrow> 'w world" where
  "mod_log_info E android m w = (if android then logcat_log_info E m w else w)"

definition mod_log_error :: "'z aenv_scheme \<Rightarrow> bool \<Rightarrow> rstr \<Rightarrow> 'w world \<Rightarrow> 'w world" where
  "mod_log_error E android m w = (if android then logcat_log_error E m w else w)"

definition mod_log_path :: "rstr \<Rightarrow> rstr" where
  "mod_log_path app = lit ''/sdcard/ModData/'' @ app @ lit ''/logs2''"

definition dlopen_initialize ::
  "'z aenv_scheme \<Rightarrow> bool \<Rightarrow> (io_error \<Rightarrow> rstr) \<Rightarrow> addr \<Rightarrow> ('w, unit) ffi" where
  "dlopen_initialize E android show_io app s =
     (let w1 = mod_log_info E android (lit ''DLOpen initializing'') (p_world s);
          s1 = s\<lparr>p_world := w1\<lparr>w_hook := True\<rparr>\<rparr>
      in bind_act (read_lossy app)
           (\<lambda>i s2.
              let path = mod_log_path i in
              (case init_logger E (default_config\<lparr>context_log_path := path\<rparr>)
                     (path_join path (lit ''Paperlog.log'')) s2 of
                 (Ok u, t) \<Rightarrow> (Ok (), t)
               | (Err e, t) \<Rightarrow>
                   (Panic ''Error occurred in logging thread'',
                    t\<lparr>p_world := mod_log_info E android
                        (lit ''Error occurred in logging thread: '' @ show_error show_io e)
                        (p_world t)\<rparr>)
               | (Panic p, t) \<Rightarrow> (Panic p, t))) s1)"

text \<open>The panic hook: the location, the payload, and a backtrace if asked for.\<close>

definition mod_panic_hook ::
  "'z aenv_scheme \<Rightarrow> bool \<Rightarrow> bool \<Rightarrow> rstr \<Rightarrow> 32 word \<Rightarrow> 32 word \<Rightarrow> rstr \<Rightarrow> payload \<Rightarrow>
     'w world \<Rightarrow> 'w world" where
  "mod_panic_hook E android backtrace file ln col bt p w =
     (let w1 = mod_log_error E android
            (lit ''Panicked at '' @ [39] @ file @ [39] @ lit '', '' @ show_u32 ln @ lit '' '' @
             show_u32 col @ lit '' '' @ payload_text p) w
      in if backtrace then mod_log_error E android (lit ''Backtrace: '' @ bt) w1 else w1)"

text \<open>Where the logger of a mod writes: the directory of the application, and a file in it.\<close>

lemma mod_log_file:
  "path_join (mod_log_path i) (lit ''Paperlog.log'') = mod_log_path i @ lit ''/Paperlog.log''"
  by (simp add: mod_log_path_def path_join_def lit_def)

lemma dlopen_logger:
  assumes ok: "proc_ok s" and none: "p_logger s = None" and id: "holds (p_heap s) app i"
    and run: "dlopen_initialize E android show_io app s = (Ok (), t)"
  shows "\<exists>c. p_logger t = Some c \<and> config c = default_config\<lparr>context_log_path := mod_log_path i\<rparr> \<and>
    inited c \<and> w_hook (p_world t)"
proof -
  let ?s = "s\<lparr>p_world := (mod_log_info E android (lit ''DLOpen initializing'') (p_world s))\<lparr>w_hook := True\<rparr>\<rparr>"
  have fs: "w_fs (mod_log_info E android m w) = w_fs w" for m w
    by (simp add: mod_log_info_def logcat_log_info_def logcat_direct_def split: option.splits)
  have r: "read_lossy app ?s = (Ok i, ?s)" using id by (intro holds_read) simp
  have i: "init_logger E (default_config\<lparr>context_log_path := mod_log_path i\<rparr>)
      (path_join (mod_log_path i) (lit ''Paperlog.log'')) ?s = (Ok (), t)"
    using run r by (auto simp: dlopen_initialize_def Let_def split: prod.splits res.splits)
  have "proc_ok ?s" using ok none by (simp add: proc_ok_def fs)
  from init_logger_Ok [OF this _ i] none obtain c where
    c: "p_logger t = Some c" "config c = default_config\<lparr>context_log_path := mod_log_path i\<rparr>" "inited c"
    by auto
  have "w_hook (p_world t)"
    by (rule make_logger_cases [of E "default_config\<lparr>context_log_path := mod_log_path i\<rparr>"
          "path_join (mod_log_path i) (lit ''Paperlog.log'')" "p_world ?s"])
      (use i none in \<open>auto simp: init_logger_def\<close>)
  with c show ?thesis by blast
qed

section \<open>The tag of the global file\<close>

text \<open>The global file and the context files of a mod are in one directory.\<close>

lemma mod_tag_path:
  assumes "context_log_path (config c) = mod_log_path i"
  shows "context_path c (lit ''Paperlog'') = path_join (mod_log_path i) (lit ''Paperlog.log'')"
proof -
  have d: "dir_path (mod_log_path i)" "plain_name (lit ''Paperlog'')"
    by (simp_all add: dir_path_def plain_name_def mod_log_path_def lit_def)
  have "context_path c (lit ''Paperlog'') = mod_log_path i @ 47 # lit ''Paperlog'' @ 46 # lit ''log''"
    unfolding context_path_def assms by (rule context_path_plain [OF d])
  then show ?thesis unfolding mod_log_file by (simp add: lit_def)
qed

text \<open>After the start the path of the global file leads to its writer.\<close>

lemma ctx_new_name:
  assumes "ctx_new E cfg p f = (Ok c, g)"
  shows "names g (os_resolve E p) = Some (w_ino (global_file c))"
proof -
  have fc: "names g' (os_resolve E p) = Some (f_ino h)" if "file_create E p f' = (Ok h, g')" for f' h g'
    using that by (auto simp: file_create_def Let_def split: option.splits)
  show ?thesis
    using assms fc
    by (auto simp: ctx_new_def ctx_init_def bw_new_def w_ino_def elim!: seq_act_OkE bind_act_OkE)
qed

lemma dlopen_name:
  assumes none: "p_logger s = None" and id: "holds (p_heap s) app i"
    and run: "dlopen_initialize E android show_io app s = (Ok (), t)" and c: "p_logger t = Some c"
  shows "names (w_fs (p_world t)) (os_resolve E (path_join (mod_log_path i) (lit ''Paperlog.log''))) =
    Some (w_ino (global_file c))"
proof -
  let ?s = "s\<lparr>p_world := (mod_log_info E android (lit ''DLOpen initializing'') (p_world s))\<lparr>w_hook := True\<rparr>\<rparr>"
  have r: "read_lossy app ?s = (Ok i, ?s)" using id by (intro holds_read) simp
  have i: "init_logger E (default_config\<lparr>context_log_path := mod_log_path i\<rparr>)
      (path_join (mod_log_path i) (lit ''Paperlog.log'')) ?s = (Ok (), t)"
    using run r by (auto simp: dlopen_initialize_def Let_def split: prod.splits res.splits)
  show ?thesis
    by (rule make_logger_cases [of E "default_config\<lparr>context_log_path := mod_log_path i\<rparr>"
          "path_join (mod_log_path i) (lit ''Paperlog.log'')" "p_world ?s"])
      (use i none c in \<open>auto simp: init_logger_def dest!: ctx_new_name\<close>)
qed

end
