(* ===== verification/Questloader.thy ===== *)
theory Questloader
  imports Prelude
begin

text \<open>
  \<open>questloader/src/lib.rs\<close>: one function on \<open>u64\<close>.  Rust checks the addition for overflow in a
  debug build (\<open>checks\<close>) and wraps around in a release build.
\<close>

definition quest_add :: "bool \<Rightarrow> 64 word \<Rightarrow> 64 word \<Rightarrow> ('e, 64 word) res" where
  "quest_add checks left right =
     (if checks \<and> 2 ^ 64 \<le> unat left + unat right then Panic ''attempt to add with overflow''
      else Ok (left + right))"

lemma quest_add_exact:
  "unat a + unat b < 2 ^ 64 \<Longrightarrow> \<exists>c. quest_add checks a b = Ok c \<and> unat c = unat a + unat b"
  by (simp add: quest_add_def unat_add_lem [THEN iffD1])

lemma quest_add_wraps:
  "quest_add False a b = Ok c \<Longrightarrow> unat c = (unat a + unat b) mod 2 ^ 64"
  by (auto simp: quest_add_def unat_word_ariths)

end
