(* ===== verification/Log_Pipeline.thy ===== *)
theory Log_Pipeline
  imports Log_Thread
begin

text \<open>
  The logger with its threads: any number of clients that call \<open>queue_log\<close> and
  \<open>wait_for_flush\<close> through the shared \<open>RwLock\<close>, and the log thread of
  \<open>LoggerThreadCtx::log_thread\<close>.  A step is one critical section.  A client holds the
  read lock from the start of its call to the end of it, also while it waits; the file
  steps of the log thread need the write lock.  With \<open>fair\<close> the lock is task-fair, as
  parking_lot documents: a pending writer keeps new readers out.  With \<open>waits\<close> the clients
  may call \<open>wait_for_flush\<close> and its timed version.  The thread reads the configuration
  in the step that writes the batch: nothing changes it after the start.  A panic of the
  thread ends it; what an installed panic hook does then is in \<open>Log_Thread\<close>.
\<close>

section \<open>States\<close>

datatype client_pc =
    C_Idle
  | C_Push log_data
  | C_Signal
  | C_Wait bool

text \<open>
  The log thread: at the loop head, with a batch to write, with the written records still
  to go to the other backends, before the test whether to flush, about to flush, before the
  test whether to wait, waiting, ended by an error (before the flush, before its report goes to
  the files, and before it goes to the other backends), and gone.  The vector is the one the
  pool guard holds.
\<close>

datatype lt_pc =
    LT_Start
  | LT_Batch "log_data list" "log_data rvec"
  | LT_Others "log_data list" "log_data rvec"
  | LT_Check "log_data rvec"
  | LT_Flush "log_data rvec"
  | LT_WaitCheck "log_data rvec"
  | LT_Blocked "log_data rvec"
  | LT_Failed logger_error
  | LT_Report logger_error
  | LT_Notify log_data
  | LT_Dead

record 'w sys =
  sst :: "'w st"
  sthr :: thr
  lpc :: lt_pc
  clients :: "nat \<Rightarrow> client_pc"
  pushed :: "log_data list"
  taken :: "log_data list"

definition sys_init :: "'w st \<Rightarrow> 'w sys \<Rightarrow> bool" where
  "sys_init s0 s \<longleftrightarrow>
     sst s = s0 \<and> sthr s = thr_init \<and> lpc s = LT_Start \<and> clients s = (\<lambda>_. C_Idle) \<and>
     pushed s = log_queue (fst s0) \<and> taken s = []"

text \<open>The locks: no reader, and a writer that waits for the lock.\<close>

definition no_readers :: "'w sys \<Rightarrow> bool" where
  "no_readers s \<longleftrightarrow> (\<forall>i. clients s i = C_Idle)"

fun wants_write :: "lt_pc \<Rightarrow> bool" where
  "wants_write (LT_Batch q v) \<longleftrightarrow> q \<noteq> []"
| "wants_write (LT_Flush v) \<longleftrightarrow> True"
| "wants_write (LT_Failed e) \<longleftrightarrow> True"
| "wants_write (LT_Report e) \<longleftrightarrow> True"
| "wants_write pc \<longleftrightarrow> False"

definition may_read :: "bool \<Rightarrow> 'w sys \<Rightarrow> bool" where
  "may_read fair s \<longleftrightarrow> \<not> (fair \<and> wants_write (lpc s))"

abbreviation map_ctx :: "('w ctx \<Rightarrow> 'w ctx) \<Rightarrow> 'w sys \<Rightarrow> 'w sys" where
  "map_ctx f s \<equiv> s\<lparr>sst := (f (fst (sst s)), snd (sst s))\<rparr>"

abbreviation set_client :: "nat \<Rightarrow> client_pc \<Rightarrow> 'w sys \<Rightarrow> 'w sys" where
  "set_client i p s \<equiv> s\<lparr>clients := (clients s)(i := p)\<rparr>"

section \<open>Steps of the log thread\<close>

text \<open>Where the thread goes after an action on the state, by its result.\<close>

fun panics :: "('e, 'a) res \<Rightarrow> bool" where
  "panics (Panic p) \<longleftrightarrow> True"
| "panics r \<longleftrightarrow> False"

fun after :: "('e \<Rightarrow> logger_error) \<Rightarrow> lt_pc \<Rightarrow> ('e, unit) res \<Rightarrow> lt_pc" where
  "after f pc (Ok u) = pc"
| "after f pc (Err e) = LT_Failed (f e)"
| "after f pc (Panic p) = LT_Dead"

definition l_take :: "'w sys \<Rightarrow> 'w sys" where
  "l_take s =
     (case lt_take (sthr s) (fst (sst s)) of
        (q, v, th, c) \<Rightarrow>
          s\<lparr>sst := (c, snd (sst s)), sthr := th, lpc := LT_Batch q v, taken := taken s @ q\<rparr>)"

definition l_batch :: "'z aenv_scheme \<Rightarrow> log_data list \<Rightarrow> log_data rvec \<Rightarrow> 'w sys \<Rightarrow> 'w sys" where
  "l_batch E q v s =
     (if q = [] then s\<lparr>lpc := LT_Check v\<rparr>
      else case split_str_into_chunks E q (max_string_len (config (fst (sst s)))) of
             None \<Rightarrow> s\<lparr>lpc := LT_Dead\<rparr>
           | Some logs \<Rightarrow>
               (case file_do_log_batch E logs (sst s) of
                  (r, t) \<Rightarrow> s\<lparr>sst := t, lpc := after IoError (LT_Others logs v) r\<rparr>))"

definition l_others ::
  "'z aenv_scheme \<Rightarrow> features \<Rightarrow> log_data list \<Rightarrow> log_data rvec \<Rightarrow> 'w sys \<Rightarrow> 'w sys" where
  "l_others E F logs v s =
     (case for_each (other_backends E F) logs (sst s) of
        (r, t) \<Rightarrow> s\<lparr>sst := t, lpc := after (\<lambda>e. e) (LT_Check v) r\<rparr>)"

definition l_check :: "log_data rvec \<Rightarrow> 'w sys \<Rightarrow> 'w sys" where
  "l_check v s =
     s\<lparr>lpc := (if lt_should_flush (sthr s) (fst (sst s)) then LT_Flush v else LT_WaitCheck v)\<rparr>"

definition l_flush :: "'z aenv_scheme \<Rightarrow> rstr list \<Rightarrow> log_data rvec \<Rightarrow> 'w sys \<Rightarrow> 'w sys" where
  "l_flush E ks v s =
     (case lt_flush E ks (sst s) of
        (r, t) \<Rightarrow>
          s\<lparr>sst := t, sthr := (if is_ok r then (sthr s)\<lparr>logged := 0\<rparr> else sthr s),
            lpc := after (\<lambda>e. e) (LT_WaitCheck v) r\<rparr>)"

definition l_wait_check :: "log_data rvec \<Rightarrow> 'w sys \<Rightarrow> 'w sys" where
  "l_wait_check v s =
     (if log_queue (fst (sst s)) = [] then s\<lparr>lpc := LT_Blocked v\<rparr>
      else s\<lparr>lpc := LT_Start, sthr := lt_release v (sthr s)\<rparr>)"

definition l_wake :: "log_data rvec \<Rightarrow> 'w sys \<Rightarrow> 'w sys" where
  "l_wake v s = map_ctx (\<lambda>c. snd (wait_for_flush_poll c)) (s\<lparr>lpc := LT_Start, sthr := lt_release v (sthr s)\<rparr>)"

text \<open>
  After an error: the flush, under the write lock; the report of the error to the files, under
  the write lock again; then the report to the other backends.  Errors are dropped; a panic, and
  an error of the report before it has reached the other backends, ends the thread.
\<close>

definition l_exit_flush :: "'z os_scheme \<Rightarrow> rstr list \<Rightarrow> logger_error \<Rightarrow> 'w sys \<Rightarrow> 'w sys" where
  "l_exit_flush E ks e s =
     (case flush E ks (sst s) of (r, t) \<Rightarrow> s\<lparr>sst := t, lpc := (if panics r then LT_Dead else LT_Report e)\<rparr>)"

definition l_report ::
  "'z aenv_scheme \<Rightarrow> features \<Rightarrow> (io_error \<Rightarrow> rstr) \<Rightarrow> instant \<Rightarrow> logger_error \<Rightarrow> 'w sys \<Rightarrow> 'w sys" where
  "l_report E F show_io now e s =
     (case do_log_files E F (exit_report show_io now e) (sst s) of
        (r, t) \<Rightarrow> s\<lparr>sst := t, lpc := (if is_ok r then LT_Notify (exit_report show_io now e) else LT_Dead)\<rparr>)"

definition l_notify :: "'z aenv_scheme \<Rightarrow> features \<Rightarrow> log_data \<Rightarrow> 'w sys \<Rightarrow> 'w sys" where
  "l_notify E F d s = s\<lparr>sst := snd (do_log_rest E F d (sst s)), lpc := LT_Dead\<rparr>"

section \<open>The step relation\<close>

text \<open>\<open>serve\<close>: everything but the arrival of a new call.\<close>

inductive serve ::
  "'z aenv_scheme \<Rightarrow> features \<Rightarrow> (io_error \<Rightarrow> rstr) \<Rightarrow> 'w sys \<Rightarrow> 'w sys \<Rightarrow> bool"
  for E :: "'z aenv_scheme" and F :: features and show_io :: "io_error \<Rightarrow> rstr" where
  c_push: "clients s i = C_Push d \<Longrightarrow>
     serve E F show_io s (map_ctx (queue_push d) (set_client i C_Signal (s\<lparr>pushed := pushed s @ [d]\<rparr>)))"
| c_signal: "clients s i = C_Signal \<Longrightarrow>
     serve E F show_io s (map_ctx queue_signal (set_client i C_Idle s))"
| c_wake: "clients s i = C_Wait b \<Longrightarrow> fst (wait_for_flush_poll (fst (sst s))) \<Longrightarrow>
     serve E F show_io s (map_ctx (\<lambda>c. snd (wait_for_flush_poll c)) (set_client i C_Idle s))"
| c_timeout: "clients s i = C_Wait True \<Longrightarrow> serve E F show_io s (set_client i C_Idle s)"
| take: "lpc s = LT_Start \<Longrightarrow> serve E F show_io s (l_take s)"
| batch: "lpc s = LT_Batch q v \<Longrightarrow> q = [] \<or> no_readers s \<Longrightarrow> serve E F show_io s (l_batch E q v s)"
| others: "lpc s = LT_Others logs v \<Longrightarrow> serve E F show_io s (l_others E F logs v s)"
| check: "lpc s = LT_Check v \<Longrightarrow> serve E F show_io s (l_check v s)"
| flush: "lpc s = LT_Flush v \<Longrightarrow> no_readers s \<Longrightarrow> visits ks (sst s) \<Longrightarrow>
     serve E F show_io s (l_flush E ks v s)"
| wait_check: "lpc s = LT_WaitCheck v \<Longrightarrow> serve E F show_io s (l_wait_check v s)"
| wake: "lpc s = LT_Blocked v \<Longrightarrow> fst (wait_for_flush_poll (fst (sst s))) \<Longrightarrow>
     serve E F show_io s (l_wake v s)"
| exit: "lpc s = LT_Failed e \<Longrightarrow> no_readers s \<Longrightarrow> visits ks (sst s) \<Longrightarrow>
     serve E F show_io s (l_exit_flush E ks e s)"
| report: "lpc s = LT_Report e \<Longrightarrow> no_readers s \<Longrightarrow> serve E F show_io s (l_report E F show_io now e s)"
| notify: "lpc s = LT_Notify d \<Longrightarrow> serve E F show_io s (l_notify E F d s)"

inductive sys_step ::
  "bool \<Rightarrow> bool \<Rightarrow> 'z aenv_scheme \<Rightarrow> features \<Rightarrow> (io_error \<Rightarrow> rstr) \<Rightarrow> 'w sys \<Rightarrow> 'w sys \<Rightarrow> bool"
  for fair :: bool and waits :: bool and E :: "'z aenv_scheme" and F :: features
  and show_io :: "io_error \<Rightarrow> rstr" where
  served: "serve E F show_io s t \<Longrightarrow> sys_step fair waits E F show_io s t"
| c_queue: "clients s i = C_Idle \<Longrightarrow> may_read fair s \<Longrightarrow>
     sys_step fair waits E F show_io s (set_client i (C_Push d) s)"
| c_wait: "clients s i = C_Idle \<Longrightarrow> may_read fair s \<Longrightarrow> waits \<Longrightarrow>
     sys_step fair waits E F show_io s (set_client i (C_Wait b) s)"

section \<open>What the thread has written\<close>

fun alive :: "lt_pc \<Rightarrow> bool" where
  "alive (LT_Failed e) \<longleftrightarrow> False"
| "alive (LT_Report e) \<longleftrightarrow> False"
| "alive (LT_Notify d) \<longleftrightarrow> False"
| "alive LT_Dead \<longleftrightarrow> False"
| "alive pc \<longleftrightarrow> True"

fun in_hand :: "lt_pc \<Rightarrow> log_data list" where
  "in_hand (LT_Batch q v) = q"
| "in_hand pc = []"

text \<open>
  Between the pushes and the files: the records taken, less the batch in hand, have been
  written, and nothing else; a thread that waits has flushed.
\<close>

definition written :: "'z aenv_scheme \<Rightarrow> nat \<Rightarrow> 'w st \<Rightarrow> 'w sys \<Rightarrow> bool" where
  "written E mx s0 s \<longleftrightarrow>
     (\<exists>dn logs. taken s = dn @ in_hand (lpc s) \<and> split_str_into_chunks E dn mx = Some logs \<and>
        grows s0 (sst s) (full_lines E logs) (context_lines E logs))"

definition settled :: "'w sys \<Rightarrow> bool" where
  "settled s \<longleftrightarrow>
     (\<forall>v. lpc s = LT_WaitCheck v \<longrightarrow> all_clean (sst s) \<or> log_queue (fst (sst s)) \<noteq> []) \<and>
     (\<forall>v. lpc s = LT_Blocked v \<longrightarrow> all_clean (sst s))"

definition pipe_inv :: "'z aenv_scheme \<Rightarrow> nat \<Rightarrow> 'w st \<Rightarrow> 'w sys \<Rightarrow> bool" where
  "pipe_inv E mx s0 s \<longleftrightarrow>
     pushed s = taken s @ log_queue (fst (sst s)) \<and> pool_ok (log_pool (sthr s)) \<and>
     ctx_ok (sst s) \<and> max_string_len (config (fst (sst s))) = mx \<and>
     (alive (lpc s) \<longrightarrow> written E mx s0 s \<and> settled s)"

text \<open>Changes of the state outside the files, the map of contexts and the configuration.\<close>

definition files_same :: "'w ctx \<Rightarrow> 'w ctx \<Rightarrow> bool" where
  "files_same c d \<longleftrightarrow>
     global_file d = global_file c \<and> context_map d = context_map c \<and> config d = config c"

lemma files_same_ops [simp]:
  "files_same c (queue_push x c)" "files_same c (queue_signal c)"
  "files_same c (snd (wait_for_flush_poll c))"
  by (simp_all add: files_same_def queue_push_def queue_signal_def wait_for_flush_poll_def
      split: prod.splits)

lemma files_same_state:
  assumes "files_same (fst s) d"
  shows "ctx_ok (d, snd s) = ctx_ok s" "grows s0 (d, snd s) G C = grows s0 s G C"
    "all_clean (d, snd s) = all_clean s" "config d = config (fst s)"
  using assms
  by (simp_all add: files_same_def ctx_ok_def grows_def global_stream_def ctx_stream_def
      all_clean_def clean_global_def clean_ctx_def)

lemma queue_ops_queue [simp]:
  "log_queue (queue_push x c) = log_queue c @ [x]" "log_queue (queue_signal c) = log_queue c"
  "log_queue (snd (wait_for_flush_poll c)) = log_queue c"
  by (simp_all add: queue_push_def queue_signal_def wait_for_flush_poll_def split: prod.splits)

lemma client_step_inv:
  assumes "pipe_inv E mx s0 s" "files_same (fst (sst s)) (f (fst (sst s)))"
    "log_queue (f (fst (sst s))) = log_queue (fst (sst s)) @ xs"
    "lpc t = lpc s" "sthr t = sthr s" "taken t = taken s" "pushed t = pushed s @ xs"
    "sst t = (f (fst (sst s)), snd (sst s))"
  shows "pipe_inv E mx s0 t"
  using assms(1,3-) files_same_state [OF assms(2)]
  by (auto simp: pipe_inv_def written_def settled_def)

section \<open>The steps of the thread keep the invariant\<close>

lemma alive_after: "alive (after f pc r) \<Longrightarrow> is_ok r"
  by (cases r) simp_all

lemma after_ok: "is_ok r \<Longrightarrow> after f pc r = pc"
  by (cases r) simp_all

lemma is_ok_unit: "is_ok r \<longleftrightarrow> r = Ok ()"
  by (cases r) simp_all

lemma inv_l_take:
  assumes "pipe_inv E mx s0 s" "lpc s = LT_Start"
  shows "pipe_inv E mx s0 (l_take s)"
proof -
  obtain q v th c where tk: "lt_take (sthr s) (fst (sst s)) = (q, v, th, c)" by (metis prod_cases4)
  have po: "pool_ok (log_pool (sthr s))" using assms(1) by (simp add: pipe_inv_def)
  note take = lt_take_spec [OF po tk]
  have fs: "files_same (fst (sst s)) c" by (simp add: files_same_def take(2))
  have "grows s0 (c, snd (sst s)) G C = grows s0 (sst s) G C" for G C
    using files_same_state(2) [OF fs] .
  then have "written E mx s0 (l_take s)" if "written E mx s0 s"
    using that assms(2) by (auto simp: written_def l_take_def tk)
  then show ?thesis
    using assms take(1-3) files_same_state [OF fs]
    by (simp add: pipe_inv_def l_take_def tk settled_def)
qed

lemma inv_l_batch:
  assumes inv: "pipe_inv E mx s0 s" and pc: "lpc s = LT_Batch q v"
  shows "pipe_inv E mx s0 (l_batch E q v s)"
proof (cases "q = []")
  case True
  then show ?thesis using assms
    by (auto simp: l_batch_def pipe_inv_def written_def settled_def)
next
  case False
  have base: "ctx_ok (sst s)" "max_string_len (config (fst (sst s))) = mx"
    using inv by (simp_all add: pipe_inv_def)
  show ?thesis
  proof (cases "split_str_into_chunks E q mx")
    case None
    then show ?thesis using inv False base(2) by (simp add: l_batch_def pipe_inv_def)
  next
    case (Some logs)
    obtain r t where b: "file_do_log_batch E logs (sst s) = (r, t)" by (meson surj_pair)
    have ctl: "ctl_view t = ctl_view (sst s)" using framesD [OF batch_frame b] .
    note w = file_batch_writes [of E logs, unfolded writes_def, rule_format, OF base(1) b]
    have lb: "l_batch E q v s = s\<lparr>sst := t, lpc := after IoError (LT_Others logs v) r\<rparr>"
      using False Some base(2) by (simp add: l_batch_def b)
    have "written E mx s0 (l_batch E q v s) \<and> settled (l_batch E q v s)" if "is_ok r"
    proof -
      have g: "grows (sst s) t (full_lines E logs) (context_lines E logs)" using w that by auto
      have "written E mx s0 s" using inv pc by (simp add: pipe_inv_def)
      then obtain dn ls where d: "taken s = dn @ q" "split_str_into_chunks E dn mx = Some ls"
          "grows s0 (sst s) (full_lines E ls) (context_lines E ls)"
        using pc by (auto simp: written_def)
      have "grows s0 t (full_lines E (ls @ logs)) (context_lines E (ls @ logs))"
        using grows_cong [OF grows_trans [OF d(3) g]] by simp
      then show ?thesis
        using d(1) split_chunks_append [OF d(2) Some] that
        by (auto simp: lb written_def settled_def after_ok simp del: full_lines_simps context_lines_simps)
    qed
    then show ?thesis
      using inv ctl w alive_after by (auto simp: pipe_inv_def lb ctl_view_def)
  qed
qed

lemma inv_l_others:
  assumes inv: "pipe_inv E mx s0 s" and pc: "lpc s = LT_Others logs v"
  shows "pipe_inv E mx s0 (l_others E F logs v s)"
proof -
  obtain r t where b: "for_each (other_backends E F) logs (sst s) = (r, t)" by (meson surj_pair)
  note wo = world_only_for_each [OF other_world_only]
  have "fst t = fst (sst s)" "w_fs (snd t) = w_fs (snd (sst s))"
    using world_only_state [OF wo b] by simp_all
  moreover have "grows (sst s) t [] (\<lambda>u. [])" using world_only_grows [OF wo b] .
  ultimately show ?thesis
    using inv pc alive_after
    by (auto simp: pipe_inv_def l_others_def b written_def settled_def ctx_ok_def grows_def
        option.map_ident after_ok dest!: alive_after)
qed

lemma inv_l_check:
  assumes "pipe_inv E mx s0 s" "lpc s = LT_Check v"
  shows "pipe_inv E mx s0 (l_check v s)"
  using assms
  by (auto simp: pipe_inv_def l_check_def written_def settled_def lt_should_flush_def)

lemma flush_ctl:
  assumes "flush E ks s = (r, t)"
  shows "log_queue (fst t) = log_queue (fst s)" "config (fst t) = config (fst s)"
proof -
  obtain r1 u where f: "flush_files E ks s = (r1, u)" by (meson surj_pair)
  have v: "log_queue (fst u) = log_queue (fst s)" "config (fst u) = config (fst s)"
    using framesD [OF flush_files_frame f] by (simp_all add: ctl_view_def)
  have "log_queue (fst t) = log_queue (fst u) \<and> config (fst t) = config (fst u)"
    using assms f by (cases r1) (auto simp: flush_def signal_flush_def split: prod.splits)
  then show "log_queue (fst t) = log_queue (fst s)" "config (fst t) = config (fst s)"
    using v by simp_all
qed

lemma lt_flush_cases:
  assumes "lt_flush E ks s = (r, t)"
  obtains r' where "flush E ks s = (r', t)" "r = map_err FlushError r'"
  using assms by (auto simp: lt_flush_def conv_err_def split: prod.splits)

lemma inv_l_flush:
  assumes inv: "pipe_inv E mx s0 s" and pc: "lpc s = LT_Flush v" and ks: "visits ks (sst s)"
  shows "pipe_inv E mx s0 (l_flush E ks v s)"
proof -
  obtain r t where b: "lt_flush E ks (sst s) = (r, t)" by (meson surj_pair)
  then obtain r' where f: "flush E ks (sst s) = (r', t)" "r = map_err FlushError r'"
    by (rule lt_flush_cases)
  have ok: "ctx_ok (sst s)" using inv by (simp add: pipe_inv_def)
  note w = writes_flush [of E E ks, unfolded writes_def, rule_format, OF ok f(1)]
  have "written E mx s0 (l_flush E ks v s) \<and> settled (l_flush E ks v s)" if "is_ok r"
  proof -
    have r': "r' = Ok ()" using that f(2) by (simp add: is_ok_unit)
    have g: "grows (sst s) t [] (\<lambda>u. [])" using w by (auto elim: grows_cong)
    have "all_clean t" using flush_clean [OF ok ks] f(1) r' by blast
    moreover have "grows s0 t G C" if "grows s0 (sst s) G C" for G C
      using grows_cong [OF grows_trans [OF that g]] by simp
    ultimately show ?thesis
      using inv pc that
      by (auto simp: pipe_inv_def l_flush_def b written_def settled_def after_ok)
  qed
  then show ?thesis
    using inv w flush_ctl [OF f(1)] alive_after by (auto simp: pipe_inv_def l_flush_def b)
qed

lemma pool_ok_release: "pool_ok (log_pool th) \<Longrightarrow> pool_ok (log_pool (lt_release v th))"
  by (simp add: lt_release_def vp.give_inv)

lemma inv_l_wait_check:
  assumes "pipe_inv E mx s0 s" "lpc s = LT_WaitCheck v"
  shows "pipe_inv E mx s0 (l_wait_check v s)"
  using assms
  by (auto simp: pipe_inv_def l_wait_check_def written_def settled_def pool_ok_release)

lemma inv_l_wake:
  assumes "pipe_inv E mx s0 s" "lpc s = LT_Blocked v"
  shows "pipe_inv E mx s0 (l_wake v s)"
  using assms files_same_state [OF files_same_ops(3) [of "fst (sst s)"]]
  by (auto simp: pipe_inv_def l_wake_def written_def settled_def pool_ok_release)

lemma ignore_err_snd: "snd (ignore_err m s) = snd (m s)"
  by (simp add: ignore_err_def split: prod.splits res.splits)

lemma keeps_ignore [keeps_rules]: "keeps P m \<Longrightarrow> keeps P (ignore_err m)"
  by (simp add: keeps_def ignore_err_snd)

lemma frames_ignore [frame_rules]: "frames w m \<Longrightarrow> frames w (ignore_err m)"
  by (simp add: frames_def ignore_err_snd)

definition queue_view :: "'w st \<Rightarrow> log_data list \<times> logger_config" where
  "queue_view s = (log_queue (fst s), config (fst s))"

lemma flush_queue_view: "frames queue_view (flush E ks)"
  by (rule framesI) (simp add: queue_view_def flush_ctl [OF prod.collapse [symmetric]])

lemma ctl_queue_view: "frames ctl_view m \<Longrightarrow> frames queue_view m"
  by (simp add: frames_def queue_view_def ctl_view_def)

text \<open>The steps after an error keep the files sound and the queue.\<close>

definition ending :: "'w sys \<Rightarrow> 'w sys \<Rightarrow> bool" where
  "ending s t \<longleftrightarrow> (\<exists>m pc. t = s\<lparr>sst := snd (m (sst s)), lpc := pc\<rparr> \<and> \<not> alive pc \<and>
     keeps ctx_ok (m :: ('w st, logger_error, unit) act) \<and> frames queue_view m)"

lemma endingI:
  fixes m :: "('w st, 'e, unit) act"
  assumes "t = s\<lparr>sst := snd (m (sst s)), lpc := pc\<rparr>" "\<not> alive pc" "keeps ctx_ok m" "frames queue_view m"
  shows "ending s t"
proof -
  let ?n = "ignore_err m :: ('w st, logger_error, unit) act"
  have "keeps ctx_ok ?n" "frames queue_view ?n" using assms(3,4) by (auto intro: keeps_rules frame_rules)
  moreover have "t = s\<lparr>sst := snd (?n (sst s)), lpc := pc\<rparr>" using assms(1) by (simp add: ignore_err_snd)
  ultimately show ?thesis using assms(2) unfolding ending_def by blast
qed

lemma exit_flush_ending: "ending s (l_exit_flush E ks e s)"
  by (rule endingI [where m = "flush E ks" and pc = "if panics (fst (flush E ks (sst s))) then LT_Dead else LT_Report e"])
    (simp_all add: l_exit_flush_def flush_queue_view writes_keeps [OF writes_flush] split: prod.splits)

lemma report_ending: "ending s (l_report E F show_io now e s)"
proof -
  let ?m = "do_log_files E F (exit_report show_io now e) :: ('w st, logger_error, unit) act"
  show ?thesis
    by (rule endingI [where m = ?m and pc = "if is_ok (fst (?m (sst s))) then LT_Notify (exit_report show_io now e) else LT_Dead"])
      (auto simp: l_report_def files_be.run_inv ctl_queue_view files_be.run_frame split: prod.splits)
qed

lemma notify_ending: "ending s (l_notify E F d s)"
  by (rule endingI [where m = "do_log_rest E F d" and pc = LT_Dead])
    (simp_all add: l_notify_def rest_be.run_inv ctl_queue_view rest_be.run_frame)

lemma inv_ending:
  assumes "ending s t" "pipe_inv E' mx s0 s"
  shows "pipe_inv E' mx s0 t"
proof -
  obtain m and pc where t: "t = s\<lparr>sst := snd (m (sst s)), lpc := pc\<rparr>" "\<not> alive pc"
    and m: "keeps ctx_ok (m :: ('a st, logger_error, unit) act)" "frames queue_view m"
    using assms(1) unfolding ending_def by blast
  have "ctx_ok (snd (m (sst s)))" using m(1) assms(2) unfolding keeps_def pipe_inv_def by blast
  moreover have "queue_view (snd (m (sst s))) = queue_view (sst s)" using m(2) unfolding frames_def by blast
  ultimately show ?thesis using assms(2) t by (simp add: pipe_inv_def queue_view_def)
qed

lemma inv_serve: "serve E F show_io s t \<Longrightarrow> pipe_inv E mx s0 s \<Longrightarrow> pipe_inv E mx s0 t"
proof (induction rule: serve.induct)
  case (c_push s i d)
  from c_push.prems show ?case
    by (rule client_step_inv [where f = "queue_push d" and xs = "[d]"]) simp_all
next
  case (c_signal s i)
  from c_signal.prems show ?case
    by (rule client_step_inv [where f = queue_signal and xs = "[]"]) simp_all
next
  case (c_wake s i b)
  from c_wake.prems show ?case
    by (rule client_step_inv [where f = "\<lambda>c. snd (wait_for_flush_poll c)" and xs = "[]"]) simp_all
next
  case (c_timeout s i)
  then show ?case by (simp add: pipe_inv_def written_def settled_def)
qed (auto intro: inv_l_take inv_l_batch inv_l_others inv_l_check inv_l_flush inv_l_wait_check
    inv_l_wake inv_ending exit_flush_ending report_ending notify_ending)

lemma inv_sys_step:
  "sys_step fair waits E F show_io s t \<Longrightarrow> pipe_inv E mx s0 s \<Longrightarrow> pipe_inv E mx s0 t"
proof (induction rule: sys_step.induct)
  case (served s t)
  then show ?case by (rule inv_serve)
qed (simp_all add: pipe_inv_def written_def settled_def)

lemma inv_sys_init:
  assumes "ctx_ok s0" "max_string_len (config (fst s0)) = mx" "sys_init s0 s"
  shows "pipe_inv E mx s0 s"
  using assms
  by (auto simp: pipe_inv_def sys_init_def written_def settled_def thr_init_def pool_ok_initial
      split_chunks_simps fun_eq_iff grows_def option.map_ident
      intro!: exI [of _ "[]"])

text \<open>
  The invariant of the whole system, for a sound initial state, by interpreting the
  interface of transition systems on the step relation.
\<close>

interpretation pipe: inductive_invariant
  "\<lambda>s. ctx_ok s0 \<and> max_string_len (config (fst s0)) = mx \<and> sys_init s0 s"
  "sys_step fair waits E F show_io" "pipe_inv E mx s0"
  by unfold_locales (auto intro: inv_sys_init inv_sys_step)

section \<open>Wake-ups\<close>

text \<open>Without callers of \<open>wait_for_flush\<close>: a waiting thread with work has a signal coming.\<close>

definition wake_inv :: "'w sys \<Rightarrow> bool" where
  "wake_inv s \<longleftrightarrow> (\<forall>i b. clients s i \<noteq> C_Wait b) \<and>
     (\<forall>v. lpc s = LT_Blocked v \<longrightarrow> log_queue (fst (sst s)) \<noteq> [] \<longrightarrow>
        log_sem (fst (sst s)) \<or> (\<exists>i. clients s i = C_Signal))"

lemma wake_inv_running:
  "(\<forall>i b. clients s i \<noteq> C_Wait b) \<Longrightarrow> clients t = clients s \<Longrightarrow> (\<And>v. lpc t \<noteq> LT_Blocked v) \<Longrightarrow> wake_inv t"
  by (simp add: wake_inv_def)

lemma after_blocked: "after f pc r = LT_Blocked v \<Longrightarrow> pc = LT_Blocked v"
  by (cases r) simp_all

lemma wake_inv_serve: "serve E F show_io s t \<Longrightarrow> wake_inv s \<Longrightarrow> wake_inv t"
proof (induction rule: serve.induct)
  case (c_push s i d)
  then show ?case by (auto simp: wake_inv_def)
next
  case (c_signal s i)
  then show ?case by (auto simp: wake_inv_def queue_signal_def sem_signal_def)
next
  case (wait_check s v)
  then show ?case by (auto simp: wake_inv_def l_wait_check_def)
next
  case (take s)
  then show ?case
    by (intro wake_inv_running [of s]) (auto simp: wake_inv_def l_take_def split: prod.splits)
next
  case (batch s q v)
  then show ?case
    by (intro wake_inv_running [of s])
      (auto simp: wake_inv_def l_batch_def split: prod.splits option.splits dest: after_blocked)
next
  case (others s logs v)
  then show ?case
    by (intro wake_inv_running [of s])
      (auto simp: wake_inv_def l_others_def split: prod.splits dest: after_blocked)
next
  case (flush s v ks)
  then show ?case
    by (intro wake_inv_running [of s])
      (auto simp: wake_inv_def l_flush_def split: prod.splits dest: after_blocked)
qed (auto simp: wake_inv_def l_check_def l_wake_def l_exit_flush_def l_report_def l_notify_def
    split: prod.splits if_splits)

interpretation wakes: inductive_invariant
  "sys_init s0" "sys_step fair False E F show_io" wake_inv
proof unfold_locales
  show "wake_inv s" if "sys_init s0 s" for s
    using that by (simp add: sys_init_def wake_inv_def)
  show "wake_inv t" if "wake_inv s" "sys_step fair False E F show_io s t" for s t
    using that(2,1)
  proof (induction rule: sys_step.induct)
    case (served s t)
    then show ?case by (rule wake_inv_serve)
  next
    case (c_queue s i d)
    then have "clients s j = C_Signal \<Longrightarrow> j \<noteq> i" for j by auto
    with c_queue show ?case by (auto simp: wake_inv_def)
  qed simp
qed

end
