(* ===== verification/Pipeline_Liveness.thy ===== *)
theory Pipeline_Liveness
  imports Log_Pipeline
begin

text \<open>
  What the threads of \<open>Log_Pipeline\<close> achieve.  Without callers of \<open>wait_for_flush\<close> the
  system always has a step while work is left, cannot run for ever without new calls, and
  so comes to rest with the queue drained and flushed.  With them it can come to rest with
  a record in the queue, or deadlock.
\<close>

section \<open>Progress\<close>

lemma client_can_step:
  "clients s i \<noteq> C_Idle \<Longrightarrow> (\<And>b. clients s i \<noteq> C_Wait b) \<Longrightarrow> \<exists>t. serve E F show_io s t"
  by (cases "clients s i") (auto intro: serve.c_push serve.c_signal)

lemma writer_can_step:
  assumes "\<And>i b. clients s i \<noteq> C_Wait b" "no_readers s \<Longrightarrow> \<exists>t. serve E F show_io s t"
  shows "\<exists>t. serve E F show_io s t"
proof (cases "no_readers s")
  case False
  then obtain i where "clients s i \<noteq> C_Idle" by (auto simp: no_readers_def)
  then show ?thesis using client_can_step assms(1) by blast
qed (rule assms(2))

lemma serve_progress:
  assumes wake: "wake_inv s" and fin: "finite (dom (context_map (fst (sst s))))"
    and pc: "lpc s \<noteq> LT_Dead" "\<And>v. lpc s = LT_Blocked v \<Longrightarrow> log_queue (fst (sst s)) \<noteq> []"
  shows "\<exists>t. serve E F show_io s t"
proof -
  have nw: "clients s i \<noteq> C_Wait b" for i b using wake by (simp add: wake_inv_def)
  obtain ks where ks: "visits ks (sst s)" using finite_list [OF fin] by (auto simp: visits_def)
  show ?thesis
  proof (cases "lpc s")
    case (LT_Batch q v)
    show ?thesis by (rule writer_can_step [OF nw]) (rule exI, rule serve.batch [OF LT_Batch], blast)
  next
    case (LT_Flush v)
    show ?thesis
      by (rule writer_can_step [OF nw]) (rule exI, rule serve.flush [OF LT_Flush _ ks], blast)
  next
    case (LT_Failed e)
    show ?thesis
      by (rule writer_can_step [OF nw]) (rule exI, rule serve.exit [OF LT_Failed _ ks], blast)
  next
    case (LT_Report e)
    show ?thesis by (rule writer_can_step [OF nw]) (rule exI, rule serve.report [OF LT_Report], blast)
  next
    case (LT_Notify d)
    then show ?thesis using serve.notify by blast
  next
    case (LT_Blocked v)
    then consider "log_sem (fst (sst s))" | i where "clients s i = C_Signal"
      using wake pc(2) by (auto simp: wake_inv_def)
    then show ?thesis
    proof cases
      case 1
      then have "fst (wait_for_flush_poll (fst (sst s)))"
        by (simp add: wait_for_flush_poll_def sem_poll_def)
      then show ?thesis using serve.wake [OF LT_Blocked] by blast
    next
      case 2
      then show ?thesis using serve.c_signal by blast
    qed
  next
    case LT_Start
    then show ?thesis using serve.take by blast
  next
    case (LT_Others logs v)
    then show ?thesis using serve.others by blast
  next
    case (LT_Check v)
    then show ?thesis using serve.check by blast
  next
    case (LT_WaitCheck v)
    then show ?thesis using serve.wait_check by blast
  next
    case LT_Dead
    then show ?thesis using pc(1) by blast
  qed
qed

section \<open>Termination without new calls\<close>

fun weight :: "client_pc \<Rightarrow> nat" where
  "weight C_Idle = 0"
| "weight (C_Push d) = 2"
| "weight C_Signal = 1"
| "weight (C_Wait b) = 1"

definition busy :: "'w sys \<Rightarrow> nat set" where
  "busy s = {i. clients s i \<noteq> C_Idle}"

definition client_work :: "'w sys \<Rightarrow> nat" where
  "client_work s = (\<Sum>i\<in>busy s. weight (clients s i))"

text \<open>
  How many steps the log thread can make on its own: one round is at most seven steps, an
  end at most three more, and a set semaphore or a queue found non-empty before waiting allows one more.
\<close>

fun rounds :: "lt_pc \<Rightarrow> bool \<Rightarrow> bool \<Rightarrow> nat" where
  "rounds (LT_Blocked v) sem q = (if sem then 9 else 0)"
| "rounds (LT_WaitCheck v) sem q = 1 + (if q then 8 else 0) + (if sem then 9 else 0)"
| "rounds (LT_Flush v) sem q = 4 + (if q then 8 else 0) + (if sem then 9 else 0)"
| "rounds (LT_Check v) sem q = 5 + (if q then 8 else 0) + (if sem then 9 else 0)"
| "rounds (LT_Others logs v) sem q = 6 + (if q then 8 else 0) + (if sem then 9 else 0)"
| "rounds (LT_Batch b v) sem q = 7 + (if q then 8 else 0) + (if sem then 9 else 0)"
| "rounds LT_Start sem q = 8 + (if sem then 9 else 0)"
| "rounds (LT_Failed e) sem q = 3"
| "rounds (LT_Report e) sem q = 2"
| "rounds (LT_Notify d) sem q = 1"
| "rounds LT_Dead sem q = 0"

definition thread_work :: "'w sys \<Rightarrow> nat" where
  "thread_work s = rounds (lpc s) (log_sem (fst (sst s))) (log_queue (fst (sst s)) \<noteq> [])"

lemma client_work_less:
  assumes fin: "finite (busy s)" and c: "clients t = (clients s)(i := p)"
    and w: "weight p < weight (clients s i)"
  shows "client_work t < client_work s \<and> finite (busy t)"
proof -
  have i: "i \<in> busy s" using w by (cases "clients s i") (auto simp: busy_def)
  have sub: "busy t \<subseteq> busy s" using i by (auto simp: busy_def c)
  have "client_work t = (\<Sum>j\<in>busy s. weight (clients t j))"
    unfolding client_work_def
    by (rule sum.mono_neutral_left [OF fin sub]) (auto simp: busy_def)
  also have "\<dots> < client_work s"
    unfolding client_work_def
    by (rule sum_strict_mono_ex1 [OF fin]) (use i w in \<open>auto simp: c\<close>)
  finally show ?thesis using finite_subset [OF sub fin] by blast
qed

lemma client_work_same:
  "clients t = clients s \<Longrightarrow> client_work t = client_work s \<and> busy t = busy s"
  by (simp add: client_work_def busy_def)

text \<open>A step of the log thread: the clients stay, and less work is left to the thread.\<close>

definition thread_step :: "'w sys \<Rightarrow> 'w sys \<Rightarrow> bool" where
  "thread_step s t \<longleftrightarrow> clients t = clients s \<and> thread_work t < thread_work s"

lemma rounds_after:
  assumes "rounds pc sem q < n" "3 < n"
  shows "rounds (after f pc r) sem q < n"
  using assms by (cases r) simp_all

lemma thread_step_take: "lpc s = LT_Start \<Longrightarrow> pool_ok (log_pool (sthr s)) \<Longrightarrow> thread_step s (l_take s)"
  by (cases "lt_take (sthr s) (fst (sst s))")
    (auto simp: thread_step_def l_take_def thread_work_def dest: lt_take_spec(2))

lemma ctl_flags: "ctl_view t = ctl_view s \<Longrightarrow>
    log_sem (fst t) = log_sem (fst s) \<and> log_queue (fst t) = log_queue (fst s)"
  by (simp add: ctl_view_def)

lemma thread_step_batch: "lpc s = LT_Batch q v \<Longrightarrow> thread_step s (l_batch E q v s)"
  by (cases "q = []")
    (auto simp: thread_step_def l_batch_def thread_work_def split: option.splits prod.splits
      dest!: framesD [OF batch_frame] ctl_flags intro!: rounds_after)

lemma thread_step_others: "lpc s = LT_Others logs v \<Longrightarrow> thread_step s (l_others E F logs v s)"
  by (auto simp: thread_step_def l_others_def thread_work_def split: prod.splits
      dest!: framesD [OF other_be.runs_frame] ctl_flags intro!: rounds_after)

lemma flush_log_sem:
  assumes "lt_flush E ks s = (r, t)"
  shows "log_sem (fst t) = log_sem (fst s)" "log_queue (fst t) = log_queue (fst s)"
proof -
  obtain r' where f: "flush E ks s = (r', t)" using assms by (rule lt_flush_cases)
  obtain r1 u where u: "flush_files E ks s = (r1, u)" by (meson surj_pair)
  have "log_sem (fst t) = log_sem (fst u)"
    using f u by (cases r1) (auto simp: flush_def signal_flush_def split: prod.splits)
  then show "log_sem (fst t) = log_sem (fst s)"
    using ctl_flags [OF framesD [OF flush_files_frame u]] by simp
  show "log_queue (fst t) = log_queue (fst s)" using flush_ctl [OF f] by simp
qed

lemma thread_step_flush: "lpc s = LT_Flush v \<Longrightarrow> thread_step s (l_flush E ks v s)"
  by (auto simp: thread_step_def l_flush_def thread_work_def flush_log_sem split: prod.splits
      intro!: rounds_after)

lemma thread_step_rest:
  "lpc s = LT_Check v \<Longrightarrow> thread_step s (l_check v s)"
  "lpc s = LT_WaitCheck v \<Longrightarrow> thread_step s (l_wait_check v s)"
  "lpc s = LT_Failed e \<Longrightarrow> thread_step s (l_exit_flush E ks e s)"
  "lpc s = LT_Blocked v \<Longrightarrow> fst (wait_for_flush_poll (fst (sst s))) \<Longrightarrow> thread_step s (l_wake v s)"
  "lpc s = LT_Report e \<Longrightarrow> thread_step s (l_report E F show_io now e s)"
  "lpc s = LT_Notify d \<Longrightarrow> thread_step s (l_notify E F d s)"
  by (auto simp: thread_step_def l_check_def l_wait_check_def l_exit_flush_def l_wake_def l_report_def l_notify_def
      thread_work_def wait_for_flush_poll_def sem_poll_def split: if_splits prod.splits)

lemma serve_decreases:
  assumes step: "serve E F show_io s t" and fin: "finite (busy s)"
    and pool: "pool_ok (log_pool (sthr s))"
  shows "finite (busy t) \<and> (t, s) \<in> measures [client_work, thread_work]"
proof -
  have client: ?thesis if "clients t = (clients s)(i := p)" "weight p < weight (clients s i)" for i p
    using client_work_less [OF fin that] by simp
  have thread: ?thesis if "thread_step s t"
    using that client_work_same [of t s] fin by (simp add: thread_step_def)
  from step show ?thesis
  proof (cases rule: serve.cases)
    case (c_push i d)
    then show ?thesis by (intro client [of i C_Signal]) simp_all
  next
    case (c_signal i)
    then show ?thesis by (intro client [of i C_Idle]) simp_all
  next
    case (c_wake i b)
    then show ?thesis by (intro client [of i C_Idle]) simp_all
  next
    case (c_timeout i)
    then show ?thesis by (intro client [of i C_Idle]) simp_all
  next
    case take
    show ?thesis by (rule thread) (use take pool thread_step_take in simp)
  next
    case (batch q v)
    show ?thesis by (rule thread) (use batch thread_step_batch in simp)
  next
    case (others logs v)
    show ?thesis by (rule thread) (use others thread_step_others in simp)
  next
    case (check v)
    show ?thesis by (rule thread) (use check thread_step_rest(1) in simp)
  next
    case (flush v ks)
    show ?thesis by (rule thread) (use flush thread_step_flush in simp)
  next
    case (wait_check v)
    show ?thesis by (rule thread) (use wait_check thread_step_rest(2) in simp)
  next
    case (wake v)
    show ?thesis by (rule thread) (use wake thread_step_rest(4) in simp)
  next
    case (exit e ks)
    show ?thesis by (rule thread) (use exit thread_step_rest(3) in simp)
  next
    case (report e now)
    show ?thesis by (rule thread) (use report thread_step_rest(5) in simp)
  next
    case (notify d)
    show ?thesis by (rule thread) (use notify thread_step_rest(6) in simp)
  qed
qed


section \<open>Runs come to rest\<close>

lemma finite_busy_upd: "finite (busy s) \<Longrightarrow> clients t = (clients s)(i := p) \<Longrightarrow> finite (busy t)"
  by (rule finite_subset [of _ "insert i (busy s)"]) (auto simp: busy_def)

lemma finite_busy_step:
  assumes "sys_step fair waits E F show_io s t" "finite (busy s)" "pool_ok (log_pool (sthr s))"
  shows "finite (busy t)"
  using assms(1)
proof (cases rule: sys_step.cases)
  case served
  then show ?thesis using serve_decreases assms(2,3) by blast
next
  case (c_queue i d)
  then show ?thesis by (intro finite_busy_upd [OF assms(2)]) simp
next
  case (c_wait i b)
  then show ?thesis by (intro finite_busy_upd [OF assms(2)]) simp
qed

text \<open>Everything the argument needs of a state, with no caller of \<open>wait_for_flush\<close>.\<close>

definition run_inv :: "'z aenv_scheme \<Rightarrow> nat \<Rightarrow> 'w st \<Rightarrow> 'w sys \<Rightarrow> bool" where
  "run_inv E mx s0 s \<longleftrightarrow> pipe_inv E mx s0 s \<and> wake_inv s \<and> finite (busy s)"

interpretation runs: inductive_invariant
  "\<lambda>s. ctx_ok s0 \<and> max_string_len (config (fst s0)) = mx \<and> sys_init s0 s"
  "sys_step fair False E F show_io" "run_inv E mx s0"
proof unfold_locales
  show "run_inv E mx s0 s"
    if "ctx_ok s0 \<and> max_string_len (config (fst s0)) = mx \<and> sys_init s0 s" for s
    using that inv_sys_init wakes.inv_init
    by (auto simp: run_inv_def sys_init_def busy_def)
  show "run_inv E mx s0 t" if "run_inv E mx s0 s" "sys_step fair False E F show_io s t" for s t
    using that inv_sys_step wakes.inv_step finite_busy_step
    unfolding run_inv_def pipe_inv_def [of _ _ _ s] by (metis pipe_inv_def)
qed

definition at_rest :: "'z aenv_scheme \<Rightarrow> features \<Rightarrow> (io_error \<Rightarrow> rstr) \<Rightarrow> 'w sys \<Rightarrow> bool" where
  "at_rest E F show_io s \<longleftrightarrow> (\<forall>t. \<not> serve E F show_io s t)"

lemma run_inv_serve: "run_inv E mx s0 s \<Longrightarrow> serve E F show_io s t \<Longrightarrow> run_inv E mx s0 t"
  using runs.inv_step [of E mx s0 s False] sys_step.served by blast

text \<open>No infinite run without new calls.\<close>

interpretation serves: terminating_steps
  "run_inv E mx s0" "serve E F show_io" "measures [client_work, thread_work]"
proof unfold_locales
  show "wf (measures [client_work, thread_work])" by (rule wf_measures)
  show "run_inv E mx s0 t" if "run_inv E mx s0 s" "serve E F show_io s t" for s t
    using run_inv_serve that .
  show "(t, s) \<in> measures [client_work, thread_work]" if "run_inv E mx s0 s" "serve E F show_io s t" for s t
    using serve_decreases [OF that(2)] that(1) by (simp add: run_inv_def pipe_inv_def)
qed

lemma reaches_rest:
  "run_inv E mx s0 s \<Longrightarrow> \<exists>t. (serve E F show_io)\<^sup>*\<^sup>* s t \<and> at_rest E F show_io t"
  using serves.comes_to_rest unfolding finished_def at_rest_def .

text \<open>A system at rest has drained its queue and flushed it, unless the thread has ended.\<close>

lemma rest_idle:
  assumes "run_inv E mx s0 s" "at_rest E F show_io s"
  shows "clients s i = C_Idle"
  using assms client_can_step [of s i E F show_io] by (auto simp: run_inv_def wake_inv_def at_rest_def)

lemma rest_drained:
  assumes inv: "run_inv E mx s0 s" and rest: "at_rest E F show_io s"
  shows "lpc s = LT_Dead \<or>
    ((\<exists>v. lpc s = LT_Blocked v) \<and> log_queue (fst (sst s)) = [] \<and> pushed s = taken s)"
proof (cases "lpc s = LT_Dead")
  case False
  have "finite (dom (context_map (fst (sst s))))"
    using inv by (simp add: run_inv_def pipe_inv_def ctx_ok_def)
  then have "\<exists>v. lpc s = LT_Blocked v \<and> log_queue (fst (sst s)) = []"
    using serve_progress [of s E F show_io] False inv rest unfolding run_inv_def at_rest_def by blast
  then show ?thesis using inv by (auto simp: run_inv_def pipe_inv_def)
qed simp

lemma blocked_on_disk:
  assumes "pipe_inv E mx s0 s" "lpc s = LT_Blocked v"
  shows "\<exists>logs. split_str_into_chunks E (taken s) mx = Some logs \<and>
    global_disk (sst s) = global_stream s0 @ full_lines E logs \<and>
    (\<forall>u. ctx_disk (sst s) u = map_option (\<lambda>x. x @ context_lines E logs u) (ctx_stream s0 u))"
proof -
  have w: "written E mx s0 s" "all_clean (sst s)"
    using assms by (simp_all add: pipe_inv_def settled_def)
  then obtain logs where "split_str_into_chunks E (taken s) mx = Some logs"
      "grows s0 (sst s) (full_lines E logs) (context_lines E logs)"
    using assms(2) by (auto simp: written_def)
  then show ?thesis using clean_disk [OF w(2)] by (auto simp: grows_def)
qed

section \<open>Calls in progress are served\<close>

lemma serve_pending:
  assumes "serve E F show_io s t" "clients s i = C_Push d \<or> d \<in> set (pushed s)"
  shows "clients t i = C_Push d \<or> d \<in> set (pushed t)"
  using assms
  by (cases rule: serve.cases)
    (auto simp: l_take_def l_batch_def l_others_def l_check_def l_flush_def l_wait_check_def
      l_wake_def l_exit_flush_def l_report_def l_notify_def split: prod.splits option.splits)

lemma serves_pending:
  "(serve E F show_io)\<^sup>*\<^sup>* s t \<Longrightarrow> clients s i = C_Push d \<or> d \<in> set (pushed s) \<Longrightarrow>
   clients t i = C_Push d \<or> d \<in> set (pushed t)"
  by (induction rule: rtranclp_induct) (use serve_pending in blast)+


section \<open>A thread that never ends\<close>

text \<open>
  With a reliable disk, a positive chunk size, no logcat and sinks that never fail, nothing
  ends the log thread.
\<close>

definition safe_env :: "'z aenv_scheme \<Rightarrow> features \<Rightarrow> nat \<Rightarrow> bool" where
  "safe_env E F mx \<longleftrightarrow> reliable E \<and> chunker (it_chunks E) \<and> 0 < mx \<and> \<not> ft_logcat F"

lemma alive_ok: "is_ok r \<Longrightarrow> alive pc \<Longrightarrow> alive (after f pc r)"
  by (cases r) simp_all

lemma lt_flush_safe:
  assumes "reliable E"
  shows "succeeds safe_sinks (lt_flush E ks)"
proof -
  have "keeps safe_sinks signal_flush"
    by (simp add: keeps_def signal_flush_def safe_sinks_def split: prod.splits)
  moreover have "keeps safe_sinks (flush_files E ks)"
    by (intro frames_safe_sinks flush_files_frame)
  ultimately have k: "keeps safe_sinks (lt_flush E ks)"
    unfolding lt_flush_def flush_def by (intro keeps_rules)
  have "never_fails (lt_flush E ks)"
    unfolding lt_flush_def by (intro succeeds_conv flush_reliable assms)
  then show ?thesis using k by (rule never_fails_keeps)
qed

definition living :: "'w sys \<Rightarrow> bool" where
  "living s \<longleftrightarrow> alive (lpc s) \<and> safe_sinks (sst s)"

lemma living_run:
  assumes "succeeds safe_sinks m" "living s" "alive pc"
  shows "case m (sst s) of (r, u) \<Rightarrow> living (s\<lparr>sst := u, lpc := after f pc r\<rparr>)"
proof -
  obtain r u where m: "m (sst s) = (r, u)" by (meson surj_pair)
  have "is_ok r \<and> safe_sinks u" using succeedsD [OF assms(1) _ m] assms(2) by (simp add: living_def)
  then show ?thesis using assms(3) by (simp add: m living_def alive_ok)
qed

lemma living_ctx: "sinks (f (fst (sst s))) = sinks (fst (sst s)) \<Longrightarrow> lpc t = lpc s \<Longrightarrow>
    sst t = (f (fst (sst s)), snd (sst s)) \<Longrightarrow> living t = living s"
  by (simp add: living_def safe_sinks_def)

lemma sinks_queue_ops [simp]:
  "sinks (queue_push d c) = sinks c" "sinks (queue_signal c) = sinks c"
  "sinks (snd (wait_for_flush_poll c)) = sinks c"
  by (simp_all add: queue_push_def queue_signal_def wait_for_flush_poll_def split: prod.splits)

lemma living_serve:
  assumes step: "serve E F show_io s t" and env: "safe_env E F mx"
    and pool: "pool_ok (log_pool (sthr s))" and mx: "max_string_len (config (fst (sst s))) = mx"
    and al: "living s"
  shows "living t"
  using step
proof (cases rule: serve.cases)
  case take
  obtain q v th c where tk: "lt_take (sthr s) (fst (sst s)) = (q, v, th, c)" by (metis prod_cases4)
  from lt_take_spec(2) [OF pool tk] show ?thesis
    using al take by (simp add: l_take_def tk living_def safe_sinks_def)
next
  case (batch q v)
  obtain logs where logs: "split_str_into_chunks E q mx = Some logs"
    using split_chunks_Some [of E mx q] env by (auto simp: safe_env_def)
  have rel: "reliable E" using env by (simp add: safe_env_def)
  have "succeeds safe_sinks (file_do_log_batch E logs)" by (rule batch_safe [OF rel])
  from living_run [OF this al, of "LT_Others logs v" IoError] show ?thesis
    using logs batch mx al by (auto simp: l_batch_def living_def split: prod.splits)
next
  case (others logs v)
  have "\<not> ft_logcat F" using env by (simp add: safe_env_def)
  then have "succeeds safe_sinks (for_each (other_backends E F) logs)"
    by (intro succeeds_for_each other_backends_safe)
  from living_run [OF this al, of "LT_Check v" "\<lambda>e. e"] others show ?thesis
    by (auto simp: l_others_def split: prod.splits)
next
  case (flush v ks)
  have rel: "reliable E" using env by (simp add: safe_env_def)
  have "succeeds safe_sinks (lt_flush E ks)" by (rule lt_flush_safe [OF rel])
  from living_run [OF this al, of "LT_WaitCheck v" "\<lambda>e. e"] flush show ?thesis
    by (auto simp: l_flush_def living_def split: prod.splits)
qed (use al in \<open>auto simp: living_def safe_sinks_def l_check_def l_wait_check_def l_wake_def\<close>)

interpretation lives: inductive_invariant
  "\<lambda>s. (safe_env E F mx \<and> safe_sinks s0) \<and>
     ctx_ok s0 \<and> max_string_len (config (fst s0)) = mx \<and> sys_init s0 s"
  "sys_step fair waits E F show_io"
  "\<lambda>s. safe_env E F mx \<and> pipe_inv E mx s0 s \<and> living s"
proof unfold_locales
  show "safe_env E F mx \<and> pipe_inv E mx s0 s \<and> living s"
    if "(safe_env E F mx \<and> safe_sinks s0) \<and>
      ctx_ok s0 \<and> max_string_len (config (fst s0)) = mx \<and> sys_init s0 s" for s
    using that inv_sys_init by (auto simp: sys_init_def living_def)
  show "safe_env E F mx \<and> pipe_inv E mx s0 t \<and> living t"
    if "safe_env E F mx \<and> pipe_inv E mx s0 s \<and> living s" "sys_step fair waits E F show_io s t"
    for s t
  proof -
    have "living t" using that(2)
    proof (cases rule: sys_step.cases)
      case served
      then show ?thesis using living_serve that(1) unfolding pipe_inv_def by blast
    qed (use that(1) in \<open>auto simp: living_def\<close>)
    then show ?thesis using that inv_sys_step by blast
  qed
qed

end
