(* ===== verification/Pipeline_Waits.thy ===== *)
theory Pipeline_Waits
  imports Pipeline_Liveness
begin

text \<open>
  What callers of \<open>wait_for_flush\<close> do to the pipeline.  They wait on the semaphore of the
  queue, the one the log thread waits on, so a caller can take the wake-up meant for the
  log thread; and through the FFI they wait with the read lock held, which the log thread
  needs released before it can write.
\<close>

section \<open>A thread waiting for work\<close>

definition quiet :: "'w sys \<Rightarrow> bool" where
  "quiet s \<longleftrightarrow> (\<exists>v. lpc s = LT_Blocked v) \<and> log_queue (fst (sst s)) = [] \<and>
     \<not> log_sem (fst (sst s)) \<and> clients s = (\<lambda>_. C_Idle) \<and> pushed s = taken s"

lemma rest_quiet:
  assumes "run_inv E mx s0 s" "at_rest E F show_io s" "alive (lpc s)"
  shows "quiet s"
proof -
  obtain v where v: "lpc s = LT_Blocked v" "log_queue (fst (sst s)) = []" "pushed s = taken s"
    using rest_drained [OF assms(1,2)] assms(3) by auto
  have "\<not> fst (wait_for_flush_poll (fst (sst s)))"
    using serve.wake [OF v(1)] assms(2) by (auto simp: at_rest_def)
  then have "\<not> log_sem (fst (sst s))" by (auto simp: wait_for_flush_poll_def sem_poll_def)
  then show ?thesis using v rest_idle [OF assms(1,2)] by (auto simp: quiet_def fun_eq_iff)
qed

abbreviation started :: "'w st \<Rightarrow> nat \<Rightarrow> 'w sys \<Rightarrow> bool" where
  "started s0 mx s \<equiv> ctx_ok s0 \<and> max_string_len (config (fst s0)) = mx \<and> sys_init s0 s"

lemma serves_steps: "(serve E F show_io)\<^sup>*\<^sup>* s t \<Longrightarrow> (sys_step fair waits E F show_io)\<^sup>*\<^sup>* s t"
  by (induction rule: rtranclp_induct) (auto intro: sys_step.served rtranclp.rtrancl_into_rtrancl)

text \<open>From its start the system can come to wait for work, in a safe environment.\<close>

lemma reaches_quiet:
  assumes env: "safe_env E F mx" "safe_sinks s0" and init: "started s0 mx s"
  obtains t where "(sys_step fair waits E F show_io)\<^sup>*\<^sup>* s t" "quiet t" "pipe_inv E mx s0 t"
proof -
  obtain t where t: "(serve E F show_io)\<^sup>*\<^sup>* s t" "at_rest E F show_io t"
    using reaches_rest [OF runs.inv_init [OF init]] by blast
  have r: "run_inv E mx s0 t"
    using runs.steps_inv [OF runs.inv_init [OF init] serves_steps [OF t(1)]] .
  have "living t"
    using lives.steps_inv [of E F mx s0 s fair waits show_io t] lives.inv_init [of E F mx s0 s]
      env init serves_steps [OF t(1)] by blast
  then have "alive (lpc t)" by (simp add: living_def)
  then show ?thesis
    using that serves_steps [OF t(1)] rest_quiet [OF r t(2)] r by (auto simp: run_inv_def)
qed

section \<open>The effect of one call of each kind\<close>

text \<open>A call of \<open>queue_log\<close> made while the log thread waits.\<close>

definition queued_one :: "nat \<Rightarrow> log_data \<Rightarrow> 'w sys \<Rightarrow> 'w sys" where
  "queued_one i d s = map_ctx (queue_log d) (s\<lparr>pushed := pushed s @ [d]\<rparr>)"

lemma queue_one_steps:
  assumes "clients s i = C_Idle" "may_read fair s"
  shows "(sys_step fair waits E F show_io)\<^sup>*\<^sup>* s (queued_one i d s)"
proof -
  let ?st = "sys_step fair waits E F show_io"
  let ?a = "set_client i (C_Push d) s"
  let ?b = "map_ctx (queue_push d) (set_client i C_Signal (?a\<lparr>pushed := pushed ?a @ [d]\<rparr>))"
  let ?c = "map_ctx queue_signal (set_client i C_Idle ?b)"
  have a: "?st s ?a" using assms by (rule sys_step.c_queue)
  have b: "?st ?a ?b" by (intro sys_step.served serve.c_push) simp
  have c: "?st ?b ?c" by (intro sys_step.served serve.c_signal) simp
  have eq: "?c = queued_one i d s"
    using assms(1) by (simp add: queued_one_def queue_log_def fun_upd_idem)
  show ?thesis using three_steps [where r = ?st, OF a b c] unfolding eq .
qed

lemma queue_log_fields:
  "log_queue (queue_log d c) = log_queue c @ [d]" "log_sem (queue_log d c)"
  by (simp_all add: queue_log_def queue_signal_def sem_signal_def queue_push_def)

lemma poll_set: "log_sem c \<Longrightarrow> wait_for_flush_poll c = (True, c\<lparr>log_sem := False\<rparr>)"
  by (simp add: wait_for_flush_poll_def sem_poll_def)

lemma poll_unset [simp]: "\<not> log_sem (snd (wait_for_flush_poll c))"
  by (simp add: wait_for_flush_poll_def sem_poll_def)

section \<open>The stolen wake-up\<close>

text \<open>
  A client logs a record and then waits for the flush: it can take the signal it has just
  given.  The call returns, and the log thread sleeps on a queue that is not empty.
\<close>

lemma stolen_steps:
  fixes s :: "'w sys" and d :: log_data and i :: nat
  assumes q: "quiet s" and inv: "pipe_inv E mx s0 s"
  defines "t \<equiv> map_ctx (\<lambda>c. snd (wait_for_flush_poll c)) (queued_one i d s)"
  shows "(sys_step fair True E F show_io)\<^sup>*\<^sup>* s t"
    and "at_rest E F show_io t" "\<exists>v. lpc t = LT_Blocked v" "log_queue (fst (sst t)) = [d]" "pushed t = taken t @ [d]"
    and "clients t = (\<lambda>_. C_Idle)" "sst t = (fst (sst t), snd (sst s))" "taken t = taken s"
proof -
  let ?st = "sys_step fair True E F show_io"
  let ?u = "queued_one i d s"
  obtain v where v: "lpc s = LT_Blocked v" using q by (auto simp: quiet_def)
  have idle: "clients ?u = (\<lambda>_. C_Idle)" using q by (simp add: quiet_def queued_one_def)
  have su: "?st\<^sup>*\<^sup>* s ?u"
    by (rule queue_one_steps) (use q v in \<open>simp_all add: quiet_def may_read_def\<close>)
  have sem: "log_sem (fst (sst ?u))" by (simp add: queued_one_def queue_log_fields)
  let ?w = "set_client i (C_Wait False) ?u"
  have "?st ?u ?w" using idle v by (intro sys_step.c_wait) (simp_all add: may_read_def queued_one_def)
  moreover have "?st ?w (map_ctx (\<lambda>c. snd (wait_for_flush_poll c)) (set_client i C_Idle ?w))"
    by (intro sys_step.served serve.c_wake [where b = False])
      (simp_all add: poll_set [OF sem] )
  moreover have "map_ctx (\<lambda>c. snd (wait_for_flush_poll c)) (set_client i C_Idle ?w) = t"
    using idle by (simp add: t_def fun_upd_idem)
  ultimately show "?st\<^sup>*\<^sup>* s t" using su by (metis (no_types) rtranclp.rtrancl_into_rtrancl)
  have t: "lpc t = LT_Blocked v" "clients t = (\<lambda>_. C_Idle)" "\<not> log_sem (fst (sst t))"
    using v idle by (simp_all add: t_def poll_set [OF sem]) (simp add: queued_one_def)
  show "at_rest E F show_io t"
    unfolding at_rest_def
  proof (intro allI notI)
    fix x assume "serve E F show_io t x"
    then show False
      by (cases rule: serve.cases) (use t in \<open>simp_all add: wait_for_flush_poll_def sem_poll_def\<close>)
  qed
  show "\<exists>v. lpc t = LT_Blocked v" using t(1) by blast
  show "log_queue (fst (sst t)) = [d]" "pushed t = taken t @ [d]" "clients t = (\<lambda>_. C_Idle)"
    "sst t = (fst (sst t), snd (sst s))" "taken t = taken s"
    using q t(2) by (simp_all add: t_def queued_one_def queue_log_fields quiet_def)
qed

section \<open>The deadlock\<close>

text \<open>
  A client waits with the read lock held and loses the race for the signal: the log thread
  has taken the record and needs the write lock, the client needs another signal, and with
  a fair lock nobody can get in to give one.
\<close>

lemma deadlock_steps:
  assumes q: "quiet s" and inv: "pipe_inv E mx s0 s"
  obtains t v where "(sys_step True True E F show_io)\<^sup>*\<^sup>* s t"
    "lpc t = LT_Batch [d] v" "clients t i = C_Wait False" "\<And>u. \<not> sys_step True True E F show_io t u"
proof -
  let ?st = "sys_step True True E F show_io"
  let ?u = "queued_one j d s"
  obtain v where v: "lpc s = LT_Blocked v" using q by (auto simp: quiet_def)
  have idle: "clients ?u = (\<lambda>_. C_Idle)" using q by (simp add: quiet_def queued_one_def)
  have su: "?st\<^sup>*\<^sup>* s ?u"
    by (rule queue_one_steps) (use q v in \<open>simp_all add: quiet_def may_read_def\<close>)
  have pu: "lpc ?u = LT_Blocked v" using v by (simp add: queued_one_def)
  let ?w = "set_client i (C_Wait False) ?u"
  have sw: "?st ?u ?w" using idle pu by (intro sys_step.c_wait) (simp_all add: may_read_def)
  have sem: "log_sem (fst (sst ?w))" by (simp add: queued_one_def queue_log_fields)
  let ?x = "l_wake v ?w"
  have sx: "?st ?w ?x"
    using pu sem by (intro sys_step.served serve.wake) (simp_all add: poll_set)
  let ?t = "l_take ?x"
  have pc: "lpc ?x = LT_Start" by (simp add: l_wake_def)
  have st: "?st ?x ?t" using pc by (intro sys_step.served serve.take)
  have po: "pool_ok (log_pool (sthr ?x))"
    using inv by (simp add: l_wake_def pipe_inv_def pool_ok_release queued_one_def)
  obtain r v' th c where tk: "lt_take (sthr ?x) (fst (sst ?x)) = (r, v', th, c)" by (metis prod_cases4)
  note spec = lt_take_spec [OF po tk]
  have "log_queue (fst (sst ?x)) = [d]"
    using q by (simp add: l_wake_def poll_set [OF sem]) (simp add: queued_one_def queue_log_fields quiet_def)
  then have t: "lpc ?t = LT_Batch [d] v'" "\<not> log_sem (fst (sst ?t))" "clients ?t = (clients ?w)(i := C_Wait False)"
    using spec(1,2) by (simp_all add: l_take_def tk) (simp_all add: l_wake_def poll_set [OF sem])
  have cl: "clients ?t k = (if k = i then C_Wait False else C_Idle)" for k
    unfolding t(3) using idle by simp
  have "\<not> ?st ?t y" for y
  proof
    assume "?st ?t y"
    then show False
    proof (cases rule: sys_step.cases)
      case served
      then show ?thesis
        by (cases rule: serve.cases)
          (use t(1,2) cl [of i] in \<open>auto simp: cl no_readers_def wait_for_flush_poll_def sem_poll_def split: if_splits\<close>)
    qed (use t(1) in \<open>simp_all add: may_read_def\<close>)
  qed
  moreover have "?st\<^sup>*\<^sup>* s ?t" using su sw sx st by (meson rtranclp.rtrancl_into_rtrancl)
  ultimately show ?thesis using that t(1) cl [of i] by simp
qed

text \<open>The pipeline on its own, without registering: every run drains the queue to disk.\<close>

theorem pipeline_drains:
  assumes env: "safe_env E F mx" "safe_sinks s0"
    and r: "reach (\<lambda>s. started s0 mx s) (sys_step fair False E F show_io) s"
  shows "(\<exists>t. (serve E F show_io)\<^sup>*\<^sup>* s t \<and> at_rest E F show_io t) \<and>
    (\<forall>t. (serve E F show_io)\<^sup>*\<^sup>* s t \<longrightarrow> at_rest E F show_io t \<longrightarrow>
      (\<forall>i. clients t i = C_Idle) \<and> log_queue (fst (sst t)) = [] \<and>
      (\<forall>i d. clients s i = C_Push d \<or> d \<in> set (pushed s) \<longrightarrow> d \<in> set (pushed t)) \<and>
      (\<exists>logs. split_str_into_chunks E (pushed t) mx = Some logs \<and>
       global_disk (sst t) = global_stream s0 @ full_lines E logs \<and>
       (\<forall>u. ctx_disk (sst t) u = map_option (\<lambda>x. x @ context_lines E logs u) (ctx_stream s0 u))))"
proof (intro conjI allI impI)
  have ri: "run_inv E mx s0 s" using runs.reach_inv [OF r] .
  show "\<exists>t. (serve E F show_io)\<^sup>*\<^sup>* s t \<and> at_rest E F show_io t" using reaches_rest [OF ri] .
  fix t assume st: "(serve E F show_io)\<^sup>*\<^sup>* s t" and rest: "at_rest E F show_io t"
  have rt: "run_inv E mx s0 t" using runs.steps_inv [OF ri serves_steps [OF st]] .
  have idle: "clients t i = C_Idle" for i by (rule rest_idle [OF rt rest])
  have reach_l: "reach (\<lambda>s. (safe_env E F mx \<and> safe_sinks s0) \<and> started s0 mx s) (sys_step fair False E F show_io) s"
    using reach_weaken [OF r, of "safe_env E F mx \<and> safe_sinks s0"] env by blast
  have "living t" using lives.reach_inv [OF reach_steps [OF reach_l serves_steps [OF st]]] by blast
  then have "alive (lpc t)" by (simp add: living_def)
  then obtain v where v: "lpc t = LT_Blocked v" "log_queue (fst (sst t)) = []" "pushed t = taken t"
    using rest_drained [OF rt rest] by auto
  show "clients t i = C_Idle" "log_queue (fst (sst t)) = []" for i using idle v(2) by blast+
  show "d \<in> set (pushed t)" if "clients s i = C_Push d \<or> d \<in> set (pushed s)" for i d
    using serves_pending [OF st that] idle [of i] by simp
  show "\<exists>logs. split_str_into_chunks E (pushed t) mx = Some logs \<and>
       global_disk (sst t) = global_stream s0 @ full_lines E logs \<and>
       (\<forall>u. ctx_disk (sst t) u = map_option (\<lambda>x. x @ context_lines E logs u) (ctx_stream s0 u))"
    using blocked_on_disk [of E mx s0 t v] v(1) rt unfolding run_inv_def v(3) by blast
qed

text \<open>The order of the records, and the files while the thread waits.\<close>

theorem pipeline_order:
  assumes r: "reach (\<lambda>s. started s0 mx s) (sys_step fair waits E F show_io) s"
  shows "pushed s = taken s @ log_queue (fst (sst s)) \<and>
    (\<forall>v. lpc s = LT_Blocked v \<longrightarrow>
      (\<exists>logs. split_str_into_chunks E (taken s) mx = Some logs \<and>
       global_disk (sst s) = global_stream s0 @ full_lines E logs \<and>
       (\<forall>u. ctx_disk (sst s) u = map_option (\<lambda>x. x @ context_lines E logs u) (ctx_stream s0 u))))"
proof -
  have inv: "pipe_inv E mx s0 s" using pipe.reach_inv [OF r] .
  then have "pushed s = taken s @ log_queue (fst (sst s))" by (simp add: pipe_inv_def)
  then show ?thesis using blocked_on_disk [OF inv] by blast
qed

text \<open>No wake-up is lost without \<open>wait_for_flush\<close>.\<close>

theorem no_lost_wakeup:
  assumes r: "reach (sys_init s0) (sys_step fair False E F show_io) s"
    and w: "lpc s = LT_Blocked v" "log_queue (fst (sst s)) \<noteq> []"
  shows "log_sem (fst (sst s)) \<or> (\<exists>i. clients s i = C_Signal)"
  using wakes.reach_inv [OF r] w by (simp add: wake_inv_def)

text \<open>The thread does not spin.\<close>

theorem serving_terminates:
  assumes r: "reach (\<lambda>s. started s0 mx s) (sys_step fair False E F show_io) (f 0)"
  shows "\<not> (\<forall>n. serve E F show_io (f n) (f (Suc n)))"
  by (rule serves.no_infinite_run) (rule runs.reach_inv [OF r])

text \<open>The thread stays alive in a safe environment.\<close>

theorem thread_survives:
  assumes env: "safe_env E F mx" "safe_sinks s0" and r: "reach (\<lambda>s. started s0 mx s) (sys_step fair waits E F show_io) s"
  shows "alive (lpc s)"
proof -
  have "reach (\<lambda>s. (safe_env E F mx \<and> safe_sinks s0) \<and> started s0 mx s) (sys_step fair waits E F show_io) s"
    using reach_weaken [OF r, of "safe_env E F mx \<and> safe_sinks s0"] env by blast
  from lives.reach_inv [OF this] have "living s" by blast
  then show ?thesis by (simp add: living_def)
qed

end
