(* ===== verification/Pipeline_Registry.thy ===== *)
theory Pipeline_Registry
  imports Pipeline_Waits Ffi
begin

text \<open>
  The system of \<open>Log_Pipeline\<close> together with the calls that change the logger while it
  runs: clients register and unregister contexts and add sinks (\<open>paper2_register_context_id\<close>,
  \<open>paper2_unregister_context_id\<close> and \<open>paper2_add_log_sink\<close> of \<open>src/ffi.rs\<close>), each in a
  critical section under the write lock, and report a context file that could not be created
  in a second one.  The records are handed to the other backends one at a time, so that a
  sink can be added in between.  Which registrations the clients make is a parameter of the
  relation: the code itself makes no difference between them (\<open>\<lambda>_ _. True\<close>), and the
  theorems name what they need of them, as that no open writer uses the tag's file; what happens
  otherwise is in \<open>Contexts\<close> and \<open>Registry_Anywhere\<close>.
\<close>

section \<open>States and steps\<close>

text \<open>
  \<open>owes\<close>: the report a client has still to queue.  \<open>since\<close> and \<open>base\<close> are histories: how
  many records had been written when the context was registered, and what its stream held.
\<close>

record 'w live =
  core :: "'w sys"
  owes :: "nat \<Rightarrow> log_data option"
  since :: "rstr \<Rightarrow> nat"
  base :: "rstr \<Rightarrow> byte list"

definition live_init :: "'w st \<Rightarrow> 'w live \<Rightarrow> bool" where
  "live_init s0 s \<longleftrightarrow> sys_init s0 (core s) \<and> owes s = Map.empty \<and> since s = (\<lambda>_. 0) \<and>
     base s = (\<lambda>u. case ctx_stream s0 u of None \<Rightarrow> [] | Some x \<Rightarrow> x)"

definition own_file :: "'z os_scheme \<Rightarrow> rstr \<Rightarrow> 'w st \<Rightarrow> bool" where
  "own_file E t s \<longleftrightarrow>
     (creates E (context_path (fst s) t) (w_fs (snd s)) \<longrightarrow> unused E (context_path (fst s) t) s)"

definition done_count :: "'w sys \<Rightarrow> nat" where
  "done_count s = length (taken s) - length (in_hand (lpc s))"

definition register_step ::
  "'z os_scheme \<Rightarrow> (io_error \<Rightarrow> rstr) \<Rightarrow> instant \<Rightarrow> nat \<Rightarrow> rstr \<Rightarrow> 'w live \<Rightarrow> 'w live" where
  "register_step E show_io now i t s =
     (case add_context E t (sst (core s)) of
        (Ok u, st) \<Rightarrow> s\<lparr>core := (core s)\<lparr>sst := st\<rparr>, since := (since s)(t := done_count (core s)),
                        base := (base s)(t := [])\<rparr>
      | (Err e, st) \<Rightarrow> s\<lparr>core := (core s)\<lparr>sst := st\<rparr>,
                         owes := (owes s)(i \<mapsto> context_report show_io now t e)\<rparr>
      | (Panic p, st) \<Rightarrow> s\<lparr>core := (core s)\<lparr>sst := st\<rparr>\<rparr>)"

definition unregister_step :: "'z os_scheme \<Rightarrow> rstr \<Rightarrow> 'w live \<Rightarrow> 'w live" where
  "unregister_step E t s = s\<lparr>core := (core s)\<lparr>sst := remove_context E t (sst (core s))\<rparr>\<rparr>"

definition sink_step :: "'w sink \<Rightarrow> 'w live \<Rightarrow> 'w live" where
  "sink_step k s = s\<lparr>core := map_ctx (add_sink k) (core s)\<rparr>"

text \<open>The log thread hands one record to the other backends.\<close>

definition l_other_one ::
  "'z aenv_scheme \<Rightarrow> features \<Rightarrow> log_data \<Rightarrow> log_data list \<Rightarrow> log_data rvec \<Rightarrow> 'w sys \<Rightarrow> 'w sys" where
  "l_other_one E F d logs v s =
     (case other_backends E F d (sst s) of
        (r, t) \<Rightarrow> s\<lparr>sst := t, lpc := after (\<lambda>e. e) (LT_Others logs v) r\<rparr>)"

text \<open>
  \<open>work\<close>: the steps of the log thread, of calls in progress and of reports that are owed.
  A client that owes a report makes no other call before.
\<close>

inductive work ::
  "bool \<Rightarrow> 'z aenv_scheme \<Rightarrow> features \<Rightarrow> (io_error \<Rightarrow> rstr) \<Rightarrow> 'w live \<Rightarrow> 'w live \<Rightarrow> bool"
  for fair :: bool and E :: "'z aenv_scheme" and F :: features and show_io :: "io_error \<Rightarrow> rstr" where
  serve: "serve E F show_io (core s) t \<Longrightarrow> work fair E F show_io s (s\<lparr>core := t\<rparr>)"
| one: "lpc (core s) = LT_Others (d # logs) v \<Longrightarrow>
     work fair E F show_io s (s\<lparr>core := l_other_one E F d logs v (core s)\<rparr>)"
| report: "owes s i = Some d \<Longrightarrow> clients (core s) i = C_Idle \<Longrightarrow> may_read fair (core s) \<Longrightarrow>
     work fair E F show_io s (s\<lparr>core := set_client i (C_Push d) (core s), owes := (owes s)(i := None)\<rparr>)"

text \<open>
  With \<open>waits\<close> the clients may call \<open>wait_for_flush\<close>; they add the sinks of \<open>oks\<close> and
  register the tags of \<open>regs\<close>, which may depend on the state.
\<close>

inductive live_step ::
  "bool \<Rightarrow> bool \<Rightarrow> ('w sink \<Rightarrow> bool) \<Rightarrow> (rstr \<Rightarrow> 'w st \<Rightarrow> bool) \<Rightarrow> 'z aenv_scheme \<Rightarrow> features \<Rightarrow> (io_error \<Rightarrow> rstr) \<Rightarrow>
     'w live \<Rightarrow> 'w live \<Rightarrow> bool"
  for fair :: bool and waits :: bool and oks :: "'w sink \<Rightarrow> bool"
  and regs :: "rstr \<Rightarrow> 'w st \<Rightarrow> bool" and E :: "'z aenv_scheme" and F :: features and show_io :: "io_error \<Rightarrow> rstr" where
  works: "work fair E F show_io s t \<Longrightarrow> live_step fair waits oks regs E F show_io s t"
| call: "sys_step fair waits E F show_io (core s) t \<Longrightarrow>
     (\<And>i. owes s i \<noteq> None \<Longrightarrow> clients t i = C_Idle) \<Longrightarrow>
     live_step fair waits oks regs E F show_io s (s\<lparr>core := t\<rparr>)"
| register: "no_readers (core s) \<Longrightarrow> owes s i = None \<Longrightarrow> regs t (sst (core s)) \<Longrightarrow>
     live_step fair waits oks regs E F show_io s (register_step E show_io now i t s)"
| unregister: "no_readers (core s) \<Longrightarrow>
     live_step fair waits oks regs E F show_io s (unregister_step E t s)"
| sink: "no_readers (core s) \<Longrightarrow> oks k \<Longrightarrow>
     live_step fair waits oks regs E F show_io s (sink_step k s)"

section \<open>A step of the pipeline, whatever happened before\<close>

abbreviation hist :: "log_data list \<Rightarrow> log_data list \<Rightarrow> 'w sys \<Rightarrow> 'w sys" where
  "hist p k s \<equiv> s\<lparr>pushed := p, taken := k\<rparr>"

text \<open>The steps only append to the histories, so that they can be cut.\<close>

lemma l_hist:
  "l_take (hist p k s) = hist p (k @ in_hand (lpc (l_take s))) (l_take s)"
  "taken (l_take s) = taken s @ in_hand (lpc (l_take s))" "pushed (l_take s) = pushed s"
  by (simp_all add: l_take_def split: prod.splits)

lemma set_client_hist:
  "hist p k s\<lparr>clients := f\<rparr> = hist p k (s\<lparr>clients := f\<rparr>)"
  "hist p k s\<lparr>sst := x\<rparr> = hist p k (s\<lparr>sst := x\<rparr>)"
  by (cases s, simp)+

lemma l_same_hist:
  "l_batch E q v (hist p k s) = hist p k (l_batch E q v s)"
  "l_others E F logs v (hist p k s) = hist p k (l_others E F logs v s)"
  "l_check v (hist p k s) = hist p k (l_check v s)"
  "l_flush E ks v (hist p k s) = hist p k (l_flush E ks v s)"
  "l_wait_check v (hist p k s) = hist p k (l_wait_check v s)"
  "l_wake v (hist p k s) = hist p k (l_wake v s)"
  "l_exit_flush E ks e (hist p k s) = hist p k (l_exit_flush E ks e s)"
  "l_report E F show_io now e (hist p k s) = hist p k (l_report E F show_io now e s)"
  "l_notify E F d (hist p k s) = hist p k (l_notify E F d s)"
  by (simp_all add: l_batch_def l_others_def l_check_def l_flush_def l_wait_check_def l_wake_def
      l_exit_flush_def l_report_def l_notify_def split: prod.splits option.splits)

lemma l_same_kept:
  "taken (l_batch E q v s) = taken s" "pushed (l_batch E q v s) = pushed s"
  "taken (l_others E F logs v s) = taken s" "pushed (l_others E F logs v s) = pushed s"
  "taken (l_check v s) = taken s" "pushed (l_check v s) = pushed s"
  "taken (l_flush E ks v s) = taken s" "pushed (l_flush E ks v s) = pushed s"
  "taken (l_wait_check v s) = taken s" "pushed (l_wait_check v s) = pushed s"
  "taken (l_wake v s) = taken s" "pushed (l_wake v s) = pushed s"
  "taken (l_exit_flush E ks e s) = taken s" "pushed (l_exit_flush E ks e s) = pushed s"
  "taken (l_report E F show_io now e s) = taken s" "pushed (l_report E F show_io now e s) = pushed s"
  "taken (l_notify E F d s) = taken s" "pushed (l_notify E F d s) = pushed s"
  by (simp_all add: l_batch_def l_others_def l_check_def l_flush_def l_wait_check_def l_wake_def
      l_exit_flush_def l_report_def l_notify_def split: prod.splits option.splits)

definition extends :: "('w sys \<Rightarrow> 'w sys \<Rightarrow> bool) \<Rightarrow> 'w sys \<Rightarrow> 'w sys \<Rightarrow> bool" where
  "extends st s t \<longleftrightarrow> (\<exists>ps ds. pushed t = pushed s @ ps \<and> taken t = taken s @ ds \<and>
     (\<forall>p k. st (hist p k s) (hist (p @ ps) (k @ ds) t)))"

lemma extendsI:
  "pushed t = pushed s @ ps \<Longrightarrow> taken t = taken s @ ds \<Longrightarrow>
   (\<And>p k. st (hist p k s) (hist (p @ ps) (k @ ds) t)) \<Longrightarrow> extends st s t"
  unfolding extends_def by blast

lemma serve_extends: "serve E F show_io s t \<Longrightarrow> extends (serve E F show_io) s t"
proof (induction rule: serve.induct)
  case (c_push s i d)
  show ?case
  proof (rule extendsI [where ps = "[d]" and ds = "[]"])
    fix p k
    have "serve E F show_io (hist p k s)
        (map_ctx (queue_push d) (set_client i C_Signal (hist p k s\<lparr>pushed := p @ [d]\<rparr>)))"
      using serve.c_push [of "hist p k s" i d] c_push by simp
    also have "map_ctx (queue_push d) (set_client i C_Signal (hist p k s\<lparr>pushed := p @ [d]\<rparr>)) =
        hist (p @ [d]) (k @ []) (map_ctx (queue_push d) (set_client i C_Signal (s\<lparr>pushed := pushed s @ [d]\<rparr>)))"
      by (cases s) simp
    finally show "serve E F show_io (hist p k s) (hist (p @ [d]) (k @ [])
        (map_ctx (queue_push d) (set_client i C_Signal (s\<lparr>pushed := pushed s @ [d]\<rparr>))))" .
  qed simp_all
next
  case (c_signal s i)
  then show ?case
    by (intro extendsI [where ps = "[]" and ds = "[]"])
      (use serve.c_signal [of "hist p k s" i for p k] in \<open>simp_all add: set_client_hist\<close>)
next
  case (c_wake s i b)
  then show ?case
    by (intro extendsI [where ps = "[]" and ds = "[]"])
      (use serve.c_wake [of "hist p k s" i b for p k] in \<open>simp_all add: set_client_hist\<close>)
next
  case (c_timeout s i)
  then show ?case
    by (intro extendsI [where ps = "[]" and ds = "[]"])
      (use serve.c_timeout [of "hist p k s" i for p k] in \<open>simp_all add: set_client_hist\<close>)
next
  case (take s)
  then show ?case
    by (intro extendsI [where ps = "[]" and ds = "in_hand (lpc (l_take s))"])
      (use serve.take [of "hist p k s" for p k] in \<open>simp_all add: l_hist\<close>)
next
  case (batch s q v)
  then show ?case
    by (intro extendsI [where ps = "[]" and ds = "[]"])
      (use serve.batch [of "hist p k s" q v for p k] in \<open>simp_all add: l_same_hist l_same_kept no_readers_def\<close>)
next
  case (others s logs v)
  then show ?case
    by (intro extendsI [where ps = "[]" and ds = "[]"])
      (use serve.others [of "hist p k s" logs v for p k] in \<open>simp_all add: l_same_hist l_same_kept\<close>)
next
  case (check s v)
  then show ?case
    by (intro extendsI [where ps = "[]" and ds = "[]"])
      (use serve.check [of "hist p k s" v for p k] in \<open>simp_all add: l_same_hist l_same_kept\<close>)
next
  case (flush s v ks)
  then show ?case
    by (intro extendsI [where ps = "[]" and ds = "[]"])
      (use serve.flush [of "hist p k s" v ks for p k] in \<open>simp_all add: l_same_hist l_same_kept no_readers_def\<close>)
next
  case (wait_check s v)
  then show ?case
    by (intro extendsI [where ps = "[]" and ds = "[]"])
      (use serve.wait_check [of "hist p k s" v for p k] in \<open>simp_all add: l_same_hist l_same_kept\<close>)
next
  case (wake s v)
  then show ?case
    by (intro extendsI [where ps = "[]" and ds = "[]"])
      (use serve.wake [of "hist p k s" v for p k] in \<open>simp_all add: l_same_hist l_same_kept\<close>)
next
  case (exit s e ks)
  then show ?case
    by (intro extendsI [where ps = "[]" and ds = "[]"])
      (use serve.exit [of "hist p k s" e ks for p k] in \<open>simp_all add: l_same_hist l_same_kept no_readers_def\<close>)
next
  case (report s e now)
  then show ?case
    by (intro extendsI [where ps = "[]" and ds = "[]"])
      (use serve.report [of "hist p k s" e for p k] in \<open>simp_all add: l_same_hist l_same_kept no_readers_def\<close>)
next
  case (notify s d)
  then show ?case
    by (intro extendsI [where ps = "[]" and ds = "[]"])
      (use serve.notify [of "hist p k s" d for p k] in \<open>simp_all add: l_same_hist l_same_kept\<close>)
qed

lemma sys_extends: "sys_step fair waits E F show_io s t \<Longrightarrow> extends (sys_step fair waits E F show_io) s t"
proof (induction rule: sys_step.induct)
  case (served s t)
  then show ?case using serve_extends [OF served] sys_step.served unfolding extends_def by blast
next
  case (c_queue s i d)
  then have "sys_step fair waits E F show_io (hist p k s) (hist p k (set_client i (C_Push d) s))" for p k
    using sys_step.c_queue [of "hist p k s" i fair] by (simp add: may_read_def set_client_hist)
  then show ?case by (intro extendsI [where ps = "[]" and ds = "[]"]) simp_all
next
  case (c_wait s i b)
  then have "sys_step fair waits E F show_io (hist p k s) (hist p k (set_client i (C_Wait b) s))" for p k
    using sys_step.c_wait [of "hist p k s" i fair] by (simp add: may_read_def set_client_hist)
  then show ?case by (intro extendsI [where ps = "[]" and ds = "[]"]) simp_all
qed

section \<open>What a step writes\<close>

definition core_ok :: "nat \<Rightarrow> 'w sys \<Rightarrow> bool" where
  "core_ok mx s \<longleftrightarrow> pushed s = taken s @ log_queue (fst (sst s)) \<and> pool_ok (log_pool (sthr s)) \<and>
     ctx_ok (sst s) \<and> max_string_len (config (fst (sst s))) = mx \<and> (alive (lpc s) \<longrightarrow> settled s)"

text \<open>
  The step from \<open>s\<close> to \<open>t\<close> has written the records \<open>ds\<close>, which come next among those the
  thread has taken.
\<close>

definition effect :: "'z aenv_scheme \<Rightarrow> nat \<Rightarrow> 'w sys \<Rightarrow> 'w sys \<Rightarrow> bool" where
  "effect E mx s t \<longleftrightarrow> core_ok mx t \<and> (alive (lpc t) \<longrightarrow> alive (lpc s) \<and>
     (\<exists>ds logs. split_str_into_chunks E ds mx = Some logs \<and>
        grows (sst s) (sst t) (full_lines E logs) (context_lines E logs) \<and>
        (\<forall>dn. taken s = dn @ in_hand (lpc s) \<longrightarrow> taken t = dn @ ds @ in_hand (lpc t))))"

lemma alive_back:
  assumes "sys_step fair waits E F show_io s t" "alive (lpc t)"
  shows "alive (lpc s)"
  using assms(1)
proof (cases rule: sys_step.cases)
  case served
  then show ?thesis using assms(2) by (cases rule: serve.cases)
    (simp_all add: l_exit_flush_def l_report_def l_notify_def split: prod.splits if_splits)
qed (use assms(2) in simp_all)

lemma grows_nothing: "grows s t (full_lines E []) (context_lines E []) = grows s t [] (\<lambda>u. [])"
  by (simp add: grows_def)

text \<open>The invariant of the pipeline, restarted in the state before the step.\<close>

lemma restart_inv:
  assumes "core_ok mx s"
  shows "pipe_inv E mx (sst s) (hist (in_hand (lpc s) @ log_queue (fst (sst s))) (in_hand (lpc s)) s)"
proof -
  have "grows (sst s) (sst s) (full_lines E []) (context_lines E [])"
    unfolding grows_nothing by simp
  then have "written E mx (sst s) (hist (in_hand (lpc s) @ log_queue (fst (sst s))) (in_hand (lpc s)) s)"
    unfolding written_def by (intro exI [of _ "[]"]) (simp add: split_chunks_simps del: full_lines_simps)
  then show ?thesis using assms by (simp add: core_ok_def pipe_inv_def settled_def)
qed

lemma sys_effect:
  assumes step: "sys_step fair waits E F show_io s t" and ok: "core_ok mx s"
  shows "effect E mx s t"
proof -
  let ?h = "in_hand (lpc s)" and ?q = "log_queue (fst (sst s))"
  obtain ps ds where e: "pushed t = pushed s @ ps" "taken t = taken s @ ds"
      "sys_step fair waits E F show_io (hist (?h @ ?q) ?h s) (hist ((?h @ ?q) @ ps) (?h @ ds) t)"
    using sys_extends [OF step] unfolding extends_def by blast
  have inv: "pipe_inv E mx (sst s) (hist ((?h @ ?q) @ ps) (?h @ ds) t)"
    using inv_sys_step [OF e(3) restart_inv [OF ok]] .
  then have "?q @ ps = ds @ log_queue (fst (sst t))" by (simp add: pipe_inv_def)
  then have t: "core_ok mx t" using inv ok e(1,2) by (simp add: core_ok_def pipe_inv_def settled_def)
  show ?thesis
    unfolding effect_def
  proof (intro conjI impI t)
    assume al: "alive (lpc t)"
    show "alive (lpc s)" by (rule alive_back [OF step al])
    obtain dn logs where d: "?h @ ds = dn @ in_hand (lpc t)" "split_str_into_chunks E dn mx = Some logs"
        "grows (sst s) (sst t) (full_lines E logs) (context_lines E logs)"
      using inv al by (auto simp: pipe_inv_def written_def)
    then show "\<exists>ds logs. split_str_into_chunks E ds mx = Some logs \<and>
        grows (sst s) (sst t) (full_lines E logs) (context_lines E logs) \<and>
        (\<forall>dn. taken s = dn @ ?h \<longrightarrow> taken t = dn @ ds @ in_hand (lpc t))"
      using e(2) by (intro exI [of _ dn] exI [of _ logs]) simp
  qed
qed

lemma one_effect:
  fixes s :: "'w sys"
  assumes pc: "lpc s = LT_Others (d # logs) v" and ok: "core_ok mx s"
  shows "effect E' mx s (l_other_one E F d logs v s)"
proof -
  obtain r and t :: "'w st" where b: "other_backends E F d (sst s) = (r, t)" by (meson surj_pair)
  have same: "fst t = fst (sst s)" "w_fs (snd t) = w_fs (snd (sst s))"
    using world_only_state [OF other_world_only b] by simp_all
  have "grows (sst s) t [] (\<lambda>u. [])" using world_only_grows [OF other_world_only b] .
  then have g: "split_str_into_chunks E' [] mx = Some [] \<and>
      grows (sst s) t (full_lines E' []) (context_lines E' [])"
    by (simp add: split_chunks_simps grows_nothing del: full_lines_simps context_lines_simps)
  show ?thesis
    unfolding effect_def
    using ok pc same g after_ok [of r] alive_after [of "\<lambda>e. e" "LT_Others logs v" r]
    by (auto simp: l_other_one_def b core_ok_def settled_def ctx_ok_def simp del: full_lines_simps
        intro!: exI [of _ "[]"])
qed

text \<open>Changes of the clients only.\<close>

lemma idle_effect:
  assumes "core_ok mx s"
  shows "core_ok mx (s\<lparr>clients := f\<rparr>)"
  using assms by (simp add: core_ok_def settled_def)

end
