(* ===== verification/Registry_Order.thy ===== *)
theory Registry_Order
  imports Pipeline_Registry
begin

text \<open>
  The order of the records in the files of \<open>Pipeline_Registry\<close>: the global file gets every
  record taken, and each context file the records of its tag that were written since the
  context was registered, whatever other contexts and sinks come and go meanwhile.  No context is
  registered on a file that an open writer uses (\<open>own_file\<close>).
\<close>

section \<open>What registering does to the state\<close>

definition same_queue :: "'w ctx \<Rightarrow> 'w ctx \<Rightarrow> bool" where
  "same_queue c d \<longleftrightarrow> log_queue d = log_queue c \<and> log_sem d = log_sem c \<and> config d = config c \<and>
     sinks d = sinks c"

lemma add_context_fields:
  assumes "add_context E t s = (r, s')"
  shows "same_queue (fst s) (fst s')" "all_clean s \<Longrightarrow> all_clean s'"
  using assms
  by (auto simp: add_context_def same_queue_def all_clean_def clean_global_def clean_ctx_def Let_def
      bw_new_def split: prod.splits res.splits if_splits)

lemma remove_context_fields:
  "same_queue (fst s) (fst (remove_context E t s))" "all_clean s \<Longrightarrow> all_clean (remove_context E t s)"
  by (auto simp: remove_context_def same_queue_def all_clean_def clean_global_def clean_ctx_def
      split: prod.splits)

lemma add_context_cases:
  assumes ok: "ctx_ok s" and own: "own_file E t s" and run: "add_context E t s = (r, s')"
  obtains (added) "r = Ok ()" "ctx_ok s'" "global_stream s' = global_stream s"
      "ctx_stream s' = (ctx_stream s)(t \<mapsto> [])"
  | (refused) e where "r = Err e" "ctx_ok s'" "global_stream s' = global_stream s"
      "ctx_stream s' = ctx_stream s"
proof (cases "creates E (context_path (fst s) t) (w_fs (snd s))")
  case True
  then have "unused E (context_path (fst s) t) s" using own by (simp add: own_file_def)
  from added add_context_spec [OF ok this True run] show ?thesis by blast
next
  case False
  from refused add_context_error [OF False run] ok show ?thesis by blast
qed

lemma core_ok_state:
  assumes "core_ok mx s" "ctx_ok st" "same_queue (fst (sst s)) (fst st)" "all_clean (sst s) \<Longrightarrow> all_clean st"
  shows "core_ok mx (s\<lparr>sst := st\<rparr>)"
  using assms by (auto simp: core_ok_def same_queue_def settled_def)

section \<open>The invariant\<close>

definition written_since :: "'z aenv_scheme \<Rightarrow> nat \<Rightarrow> 'w st \<Rightarrow> 'w live \<Rightarrow> log_data list \<Rightarrow> bool" where
  "written_since E mx s0 s dn \<longleftrightarrow> taken (core s) = dn @ in_hand (lpc (core s)) \<and>
     (\<exists>logs. split_str_into_chunks E dn mx = Some logs \<and>
        global_stream (sst (core s)) = global_stream s0 @ full_lines E logs) \<and>
     (\<forall>u x. ctx_stream (sst (core s)) u = Some x \<longrightarrow> since s u \<le> length dn \<and>
        (\<exists>logs. split_str_into_chunks E (drop (since s u) dn) mx = Some logs \<and>
           x = base s u @ context_lines E logs u))"

definition live_inv :: "'z aenv_scheme \<Rightarrow> nat \<Rightarrow> 'w st \<Rightarrow> 'w live \<Rightarrow> bool" where
  "live_inv E mx s0 s \<longleftrightarrow> core_ok mx (core s) \<and> finite (dom (owes s)) \<and>
     (alive (lpc (core s)) \<longrightarrow> (\<exists>dn. written_since E mx s0 s dn))"

lemma live_inv_init:
  assumes "started s0 mx (core s)" "live_init s0 s"
  shows "live_inv E mx s0 s"
proof -
  have p: "pipe_inv E mx s0 (core s)" using inv_sys_init assms(1) by blast
  then have "core_ok mx (core s)" by (simp add: pipe_inv_def core_ok_def)
  moreover have "written_since E mx s0 s []"
    using assms by (auto simp: written_since_def live_init_def sys_init_def split_chunks_simps)
  moreover have "finite (dom (owes s))" using assms(2) by (simp add: live_init_def)
  ultimately show ?thesis unfolding live_inv_def by blast
qed

text \<open>A step with an effect appends to every stream.\<close>

lemma written_since_effect:
  assumes w: "written_since E mx s0 s dn" and ds: "split_str_into_chunks E ds mx = Some new"
    and g: "grows (sst (core s)) (sst t) (full_lines E new) (context_lines E new)"
    and tk: "taken t = dn @ ds @ in_hand (lpc t)"
    and s': "core s' = t" "since s' = since s" "base s' = base s"
  shows "written_since E mx s0 s' (dn @ ds)"
proof -
  obtain logs where l: "split_str_into_chunks E dn mx = Some logs"
      "global_stream (sst (core s)) = global_stream s0 @ full_lines E logs"
    using w by (auto simp: written_since_def)
  have ctx: "since s u \<le> length (dn @ ds) \<and>
      (\<exists>logs. split_str_into_chunks E (drop (since s u) (dn @ ds)) mx = Some logs \<and>
         y = base s u @ context_lines E logs u)"
    if y: "ctx_stream (sst t) u = Some y" for u y
  proof -
    obtain x where x: "ctx_stream (sst (core s)) u = Some x" "y = x @ context_lines E new u"
      using g y by (auto simp: grows_def)
    obtain ls where ls: "since s u \<le> length dn" "split_str_into_chunks E (drop (since s u) dn) mx = Some ls"
        "x = base s u @ context_lines E ls u"
      using w x(1) by (auto simp: written_since_def)
    show ?thesis using ls x(2) split_chunks_append [OF ls(2) ds] by simp
  qed
  have "global_stream (sst t) = global_stream s0 @ full_lines E (logs @ new)"
    using l(2) g by (simp add: grows_def)
  then show ?thesis
    using tk ctx split_chunks_append [OF l(1) ds] by (auto simp: written_since_def s')
qed

lemma live_inv_effect:
  assumes inv: "live_inv E mx s0 s" and e: "effect E mx (core s) t"
    and s': "core s' = t" "since s' = since s" "base s' = base s" "finite (dom (owes s'))"
  shows "live_inv E mx s0 s'"
proof -
  have "\<exists>dn. written_since E mx s0 s' dn" if al: "alive (lpc t)"
  proof -
    obtain ds new where d: "alive (lpc (core s))" "split_str_into_chunks E ds mx = Some new"
        "grows (sst (core s)) (sst t) (full_lines E new) (context_lines E new)"
        "\<And>dn. taken (core s) = dn @ in_hand (lpc (core s)) \<Longrightarrow> taken t = dn @ ds @ in_hand (lpc t)"
      using e al unfolding effect_def by blast
    obtain dn where w: "written_since E mx s0 s dn" using inv d(1) by (auto simp: live_inv_def)
    have "taken (core s) = dn @ in_hand (lpc (core s))" using w by (simp add: written_since_def)
    from written_since_effect [OF w d(2,3) d(4) [OF this] s'(1-3)] show ?thesis by blast
  qed
  then show ?thesis using e s' by (simp add: live_inv_def effect_def)
qed

lemma live_inv_work: "work fair E F show_io s t \<Longrightarrow> live_inv E mx s0 s \<Longrightarrow> live_inv E mx s0 t"
proof (induction rule: work.induct)
  case (serve s t)
  have ok: "core_ok mx (core s)" using serve.prems by (simp add: live_inv_def)
  have "effect E mx (core s) t"
    by (rule sys_effect [OF sys_step.served [OF serve.hyps, of False False] ok])
  then show ?case
    using live_inv_effect [OF serve.prems, of t "s\<lparr>core := t\<rparr>"] serve.prems by (simp add: live_inv_def)
next
  case (one s d logs v)
  have ok: "core_ok mx (core s)" using one.prems by (simp add: live_inv_def)
  show ?case
    using live_inv_effect [OF one.prems one_effect [where F = F and E = E, OF one.hyps ok],
        of "s\<lparr>core := l_other_one E F d logs v (core s)\<rparr>"] one.prems by (simp add: live_inv_def)
next
  case (report s i d)
  have "dom ((owes s)(i := None)) \<subseteq> dom (owes s)" by auto
  then have "finite (dom ((owes s)(i := None)))"
    using report.prems finite_subset unfolding live_inv_def by blast
  then show ?case using report.prems idle_effect
    by (auto simp: live_inv_def written_since_def)
qed

lemma live_inv_register:
  assumes inv: "live_inv E mx s0 s" and own: "own_file E t (sst (core s))"
  shows "live_inv E mx s0 (register_step E show_io now i t s)"
proof -
  obtain r st where a: "add_context E t (sst (core s)) = (r, st)" by (meson surj_pair)
  have ok: "core_ok mx (core s)" "ctx_ok (sst (core s))" using inv by (simp_all add: live_inv_def core_ok_def)
  note f = add_context_fields [OF a]
  from ok(2) own a show ?thesis
  proof (cases rule: add_context_cases)
    case added
    have c: "core_ok mx ((core s)\<lparr>sst := st\<rparr>)" by (rule core_ok_state [OF ok(1) added(2) f])
    let ?s = "register_step E show_io now i t s"
    have s': "core ?s = (core s)\<lparr>sst := st\<rparr>" "since ?s = (since s)(t := done_count (core s))"
        "base ?s = (base s)(t := [])" "owes ?s = owes s"
      by (simp_all add: register_step_def a added(1))
    have "written_since E mx s0 ?s dn" if w: "written_since E mx s0 s dn" for dn
    proof -
      have "done_count (core s) = length dn" using w by (simp add: written_since_def done_count_def)
      then show ?thesis using w by (auto simp: written_since_def s' added(3,4) split_chunks_simps)
    qed
    then show ?thesis using c inv by (auto simp: live_inv_def s')
  next
    case (refused e)
    have "core_ok mx ((core s)\<lparr>sst := st\<rparr>)" by (rule core_ok_state [OF ok(1) refused(2) f])
    then show ?thesis using inv
      by (auto simp: register_step_def a refused live_inv_def written_since_def)
  qed
qed

lemma live_inv_unregister:
  assumes inv: "live_inv E mx s0 s"
  shows "live_inv E mx s0 (unregister_step E t s)"
proof -
  have ok: "core_ok mx (core s)" "ctx_ok (sst (core s))" using inv by (simp_all add: live_inv_def core_ok_def)
  note r = remove_context_spec [OF ok(2), of E t]
  have "core_ok mx ((core s)\<lparr>sst := remove_context E t (sst (core s))\<rparr>)"
    using core_ok_state [OF ok(1) _ remove_context_fields(1) remove_context_fields(2)] r by blast
  then show ?thesis using inv r
    by (auto simp: unregister_step_def live_inv_def written_since_def split: if_splits)
qed

lemma live_inv_sink:
  assumes "live_inv E mx s0 s"
  shows "live_inv E mx s0 (sink_step k s)"
  using assms
  by (auto simp: sink_step_def live_inv_def written_since_def core_ok_def settled_def add_sink_def
      ctx_ok_def all_clean_def clean_global_def clean_ctx_def global_stream_def ctx_stream_def)

lemma live_inv_step:
  "live_step fair waits oks (own_file E) E F show_io s t \<Longrightarrow> live_inv E mx s0 s \<Longrightarrow> live_inv E mx s0 t"
proof (induction rule: live_step.induct)
  case (works s t)
  then show ?case by (rule live_inv_work)
next
  case (call s t)
  have "effect E mx (core s) t"
    using sys_effect [OF call.hyps(1)] call.prems by (simp add: live_inv_def)
  then show ?case
    using live_inv_effect [OF call.prems, of t "s\<lparr>core := t\<rparr>"] call.prems by (simp add: live_inv_def)
qed (auto intro: live_inv_register live_inv_unregister live_inv_sink)

abbreviation live_started :: "'w st \<Rightarrow> nat \<Rightarrow> 'w live \<Rightarrow> bool" where
  "live_started s0 mx s \<equiv> started s0 mx (core s) \<and> live_init s0 s"

interpretation registry: inductive_invariant
  "live_started s0 mx" "live_step fair waits oks (own_file E) E F show_io" "live_inv E mx s0"
  by unfold_locales (auto intro: live_inv_init live_inv_step)

section \<open>What is on disk while the thread waits\<close>

text \<open>
  The files hold the lines of the records \<open>dn\<close>: the global file all of them, a context file
  those since its registration.
\<close>

definition files_hold :: "'z aenv_scheme \<Rightarrow> nat \<Rightarrow> 'w st \<Rightarrow> 'w live \<Rightarrow> log_data list \<Rightarrow> bool" where
  "files_hold E mx s0 s dn \<longleftrightarrow>
     (\<exists>logs. split_str_into_chunks E dn mx = Some logs \<and>
        global_disk (sst (core s)) = global_stream s0 @ full_lines E logs) \<and>
     (\<forall>u x. ctx_disk (sst (core s)) u = Some x \<longrightarrow>
        (\<exists>logs. split_str_into_chunks E (drop (since s u) dn) mx = Some logs \<and>
           x = base s u @ context_lines E logs u))"

lemma live_blocked_disk:
  assumes "live_inv E mx s0 s" "lpc (core s) = LT_Blocked v"
  shows "files_hold E mx s0 s (taken (core s))"
proof -
  have "all_clean (sst (core s))" using assms by (simp add: live_inv_def core_ok_def settled_def)
  note d = clean_disk [OF this]
  obtain dn where "written_since E mx s0 s dn" using assms by (auto simp: live_inv_def)
  then show ?thesis using assms(2) by (auto simp: files_hold_def written_since_def d)
qed

end
