(* ===== verification/Registry_Liveness.thy ===== *)
theory Registry_Liveness
  imports Registry_Order
begin

text \<open>
  The system of \<open>Pipeline_Registry\<close> cannot work for ever without new calls, whatever is
  registered (\<open>workable\<close>).  Without callers of \<open>wait_for_flush\<close> no wake-up is lost, and, when
  contexts have files of their own, it comes to rest with every record, and every report of a
  failed registration, on disk.
\<close>

section \<open>The invariant of runs\<close>

definition run_live :: "'z aenv_scheme \<Rightarrow> nat \<Rightarrow> 'w st \<Rightarrow> 'w live \<Rightarrow> bool" where
  "run_live E mx s0 s \<longleftrightarrow> live_inv E mx s0 s \<and> wake_inv (core s) \<and> finite (busy (core s))"

lemma wake_inv_state:
  "wake_inv s \<Longrightarrow> same_queue (fst (sst s)) (fst st) \<Longrightarrow> wake_inv (s\<lparr>sst := st\<rparr>)"
  by (simp add: wake_inv_def same_queue_def)

lemma busy_state [simp]: "busy (s\<lparr>sst := st\<rparr>) = busy s"
  by (simp add: busy_def)

lemma wake_inv_push:
  assumes "wake_inv s" "clients s i = C_Idle"
  shows "wake_inv (set_client i (C_Push d) s)"
proof -
  have "clients s j = C_Signal \<Longrightarrow> j \<noteq> i" for j using assms(2) by auto
  then show ?thesis using assms(1) by (auto simp: wake_inv_def)
qed

lemma register_core:
  obtains st where "core (register_step E show_io now i t s) = (core s)\<lparr>sst := st\<rparr>"
    "same_queue (fst (sst (core s))) (fst st)"
proof -
  obtain r st where a: "add_context E t (sst (core s)) = (r, st)" by (meson surj_pair)
  show ?thesis
    by (rule that [of st]) (use add_context_fields(1) [OF a] in \<open>cases r; simp add: register_step_def a\<close>)+
qed

lemma one_fields:
  "clients (l_other_one E F d logs v s) = clients s" "sthr (l_other_one E F d logs v s) = sthr s"
  by (simp_all add: l_other_one_def split: prod.splits)

lemma work_wake:
  assumes "work fair E F show_io s t" "wake_inv (core s)" "finite (busy (core s))"
    "pool_ok (log_pool (sthr (core s)))"
  shows "wake_inv (core t) \<and> finite (busy (core t))"
  using assms
proof (induction rule: work.induct)
  case (serve s t)
  then show ?case using wake_inv_serve [OF serve.hyps] serve_decreases [OF serve.hyps] by simp
next
  case (one s d logs v)
  have "lpc (l_other_one E F d logs v (core s)) \<noteq> LT_Blocked w" for w
    by (auto simp: l_other_one_def split: prod.splits dest: after_blocked)
  then show ?case
    using one wake_inv_running [of "core s" "l_other_one E F d logs v (core s)"]
    by (simp add: wake_inv_def one_fields busy_def)
next
  case (report s i d)
  then show ?case
    using wake_inv_push [OF report.prems(1) report.hyps(2)]
      finite_busy_upd [OF report.prems(2), of "set_client i (C_Push d) (core s)" i "C_Push d"] by simp
qed

text \<open>What the termination argument needs holds in every run, whatever is registered.\<close>

definition workable :: "'w live \<Rightarrow> bool" where
  "workable s \<longleftrightarrow> pool_ok (log_pool (sthr (core s))) \<and> finite (busy (core s)) \<and> finite (dom (owes s))"

lemma run_live_workable: "run_live E mx s0 s \<Longrightarrow> workable s"
  by (simp add: run_live_def live_inv_def core_ok_def workable_def)

lemma pool_take:
  assumes "pool_ok (log_pool (sthr s))"
  shows "pool_ok (log_pool (sthr (l_take s)))"
proof -
  obtain q v th c where tk: "lt_take (sthr s) (fst (sst s)) = (q, v, th, c)" by (metis prod_cases4)
  from lt_take_spec(3) [OF assms tk] show ?thesis by (simp add: l_take_def tk)
qed

lemma pool_serve: "serve E F show_io s t \<Longrightarrow> pool_ok (log_pool (sthr s)) \<Longrightarrow> pool_ok (log_pool (sthr t))"
  by (induction rule: serve.induct)
    (auto simp: pool_take l_batch_def l_others_def l_check_def l_flush_def l_wait_check_def l_wake_def
      l_exit_flush_def l_report_def l_notify_def pool_ok_release split: prod.splits option.splits)

lemma pool_sys_step:
  "sys_step fair waits E F show_io s t \<Longrightarrow> pool_ok (log_pool (sthr s)) \<Longrightarrow> pool_ok (log_pool (sthr t))"
  by (induction rule: sys_step.induct) (auto intro: pool_serve)

lemma workable_work: "work fair E F show_io s t \<Longrightarrow> workable s \<Longrightarrow> workable t"
proof (induction rule: work.induct)
  case (serve s t)
  then show ?case using pool_serve [OF serve.hyps] serve_decreases [OF serve.hyps] by (simp add: workable_def)
next
  case (one s d logs v)
  then show ?case by (simp add: workable_def one_fields busy_def)
next
  case (report s i d)
  then show ?case
    using finite_busy_upd [of "core s" "set_client i (C_Push d) (core s)" i "C_Push d"]
    by (simp add: workable_def)
qed

lemma workable_step: "live_step fair waits oks regs E F show_io s t \<Longrightarrow> workable s \<Longrightarrow> workable t"
proof (induction rule: live_step.induct)
  case (works s t)
  then show ?case by (rule workable_work)
next
  case (call s t)
  then show ?case
    using pool_sys_step [OF call.hyps(1)] finite_busy_step [OF call.hyps(1)] by (simp add: workable_def)
next
  case (register s i t now)
  then show ?case by (auto simp: workable_def register_step_def split: prod.splits res.splits)
qed (simp_all add: workable_def unregister_step_def sink_step_def busy_def)

text \<open>Without callers of \<open>wait_for_flush\<close> no step loses a wake-up.\<close>

lemma wake_live_step:
  assumes step: "live_step fair False oks regs E F show_io s t" and w: "workable s" "wake_inv (core s)"
  shows "wake_inv (core t)"
  using step
proof (cases rule: live_step.cases)
  case works
  from work_wake [OF works w(2)] w(1) show ?thesis by (simp add: workable_def)
next
  case (call t')
  then show ?thesis using wakes.inv_step [OF w(2)] by simp
next
  case (register i t' now)
  obtain st where "core t = (core s)\<lparr>sst := st\<rparr>" "same_queue (fst (sst (core s))) (fst st)"
    unfolding register by (rule register_core)
  then show ?thesis using w(2) wake_inv_state by simp
next
  case (unregister t')
  then show ?thesis using wake_inv_state [OF w(2) remove_context_fields(1)] by (simp add: unregister_step_def)
next
  case (sink k)
  from sink show ?thesis using w(2) by (auto simp: sink_step_def wake_inv_def add_sink_def)
qed

lemma run_live_step:
  assumes step: "live_step fair False oks (own_file E) E F show_io s t" and run: "run_live E mx s0 s"
  shows "run_live E mx s0 t"
proof -
  have w: "workable s" "wake_inv (core s)" "live_inv E mx s0 s"
    using run_live_workable [OF run] run by (simp_all add: run_live_def)
  then show ?thesis
    using live_inv_step [OF step] workable_step [OF step] wake_live_step [OF step] by (simp add: run_live_def workable_def)
qed

lemma run_live_init: "live_started s0 mx s \<Longrightarrow> run_live E mx s0 s"
  using live_inv_init wakes.inv_init by (auto simp: run_live_def sys_init_def busy_def)

interpretation live_runs: inductive_invariant
  "live_started s0 mx" "live_step fair False oks (own_file E) E F show_io" "run_live E mx s0"
  by unfold_locales (auto intro: run_live_init run_live_step)

lemma run_live_work: "run_live E mx s0 s \<Longrightarrow> work fair E F show_io s t \<Longrightarrow> run_live E mx s0 t"
  using live_runs.inv_step [of E mx s0 s fair "\<lambda>_. True"] live_step.works by blast

interpretation workables: inductive_invariant
  "live_started s0 mx" "live_step fair waits oks regs E F show_io" workable
  by unfold_locales (auto intro: workable_step run_live_workable run_live_init)

interpretation awakes: inductive_invariant
  "live_started s0 mx" "live_step fair False oks regs E F show_io" "\<lambda>s. workable s \<and> wake_inv (core s)"
proof unfold_locales
  show "workable s \<and> wake_inv (core s)" if "live_started s0 mx s" for s
    using run_live_workable [OF run_live_init [OF that]] run_live_init [OF that] unfolding run_live_def by blast
  show "workable t \<and> wake_inv (core t)"
    if "workable s \<and> wake_inv (core s)" "live_step fair False oks regs E F show_io s t" for s t
    using that(1) workable_step [OF that(2)] wake_live_step [OF that(2)] by blast
qed


section \<open>Runs come to rest\<close>

fun others_left :: "lt_pc \<Rightarrow> nat" where
  "others_left (LT_Others logs v) = length logs"
| "others_left pc = 0"

lemma one_decreases:
  assumes "lpc s = LT_Others (d # logs) v"
  shows "(l_other_one E F d logs v s, s) \<in> measures [thread_work, \<lambda>s. others_left (lpc s)]"
proof -
  obtain r t where b: "other_backends E F d (sst s) = (r, t)" by (meson surj_pair)
  have "ctl_view t = ctl_view (sst s)" using framesD [OF other_be.run_frame b] .
  from ctl_flags [OF this] show ?thesis
    using assms by (cases r) (auto simp: l_other_one_def b thread_work_def)
qed

definition live_measures :: "('w live \<Rightarrow> nat) list" where
  "live_measures = [\<lambda>s. card (dom (owes s)), \<lambda>s. client_work (core s), \<lambda>s. thread_work (core s),
     \<lambda>s. others_left (lpc (core s))]"

lemma work_decreases:
  assumes "work fair E F show_io s t" "workable s"
  shows "(t, s) \<in> measures live_measures"
  using assms
proof (induction rule: work.induct)
  case (serve s t)
  have "(t, core s) \<in> measures [client_work, thread_work]"
    using serve_decreases [OF serve.hyps] serve.prems by (simp add: workable_def)
  then show ?case by (auto simp: live_measures_def)
next
  case (one s d logs v)
  have "client_work (l_other_one E F d logs v (core s)) = client_work (core s)"
    using client_work_same [of "l_other_one E F d logs v (core s)" "core s"] by (simp add: one_fields)
  then show ?case using one_decreases [OF one.hyps, of E F] by (auto simp: live_measures_def)
next
  case (report s i d)
  have "i \<in> dom (owes s)" "finite (dom (owes s))" using report by (auto simp: workable_def)
  then have "card (dom (owes s) - {i}) < card (dom (owes s))" by (intro card_Diff1_less)
  then show ?case by (simp add: live_measures_def)
qed

interpretation works: terminating_steps
  workable "work fair E F show_io" "measures live_measures"
  by unfold_locales (simp_all add: workable_work work_decreases)

definition live_rest :: "bool \<Rightarrow> 'z aenv_scheme \<Rightarrow> features \<Rightarrow> (io_error \<Rightarrow> rstr) \<Rightarrow> 'w live \<Rightarrow> bool" where
  "live_rest fair E F show_io s \<longleftrightarrow> (\<forall>t. \<not> work fair E F show_io s t)"

lemma reaches_live_rest:
  "workable s \<Longrightarrow> \<exists>t. (work fair E F show_io)\<^sup>*\<^sup>* s t \<and> live_rest fair E F show_io t"
  using works.comes_to_rest unfolding finished_def live_rest_def .

lemma rest_done:
  assumes inv: "run_live E mx s0 s" and rest: "live_rest fair E F show_io s"
  shows "clients (core s) i = C_Idle" "owes s i = None"
    "lpc (core s) = LT_Dead \<or> (\<exists>v. lpc (core s) = LT_Blocked v) \<and> log_queue (fst (sst (core s))) = []"
proof -
  have stuck: "\<not> serve E F show_io (core s) t" for t
    using rest work.serve unfolding live_rest_def by blast
  have idle: "clients (core s) j = C_Idle" for j
    using client_can_step [of "core s" j E F show_io] stuck inv by (auto simp: run_live_def wake_inv_def)
  have fin: "finite (dom (context_map (fst (sst (core s)))))"
    using inv by (simp add: run_live_def live_inv_def core_ok_def ctx_ok_def)
  have pc: "lpc (core s) = LT_Dead \<or> (\<exists>v. lpc (core s) = LT_Blocked v) \<and> log_queue (fst (sst (core s))) = []"
    using serve_progress [of "core s" E F show_io] stuck fin inv unfolding run_live_def by blast
  then have "may_read fair (core s)" by (auto simp: may_read_def)
  then show "owes s i = None"
    using work.report [of s i _ fair] idle rest unfolding live_rest_def by (cases "owes s i") blast+
  show "clients (core s) i = C_Idle" by (rule idle)
  show "lpc (core s) = LT_Dead \<or> (\<exists>v. lpc (core s) = LT_Blocked v) \<and> log_queue (fst (sst (core s))) = []"
    by (rule pc)
qed

section \<open>Nothing is lost\<close>

definition entrusted :: "'w live \<Rightarrow> nat \<Rightarrow> log_data \<Rightarrow> bool" where
  "entrusted s i d \<longleftrightarrow> clients (core s) i = C_Push d \<or> owes s i = Some d \<or> d \<in> set (pushed (core s))"

lemma work_entrusted:
  assumes "work fair E F show_io s t" "entrusted s i d"
  shows "entrusted t i d"
  using assms
proof (induction rule: work.induct)
  case (serve s t)
  then show ?case using serve_pending [OF serve.hyps] by (auto simp: entrusted_def)
next
  case (one s d' logs v)
  then show ?case by (auto simp: entrusted_def l_other_one_def split: prod.splits)
qed (auto simp: entrusted_def)

lemma works_entrusted: "(work fair E F show_io)\<^sup>*\<^sup>* s t \<Longrightarrow> entrusted s i d \<Longrightarrow> entrusted t i d"
  by (induction rule: rtranclp_induct) (use work_entrusted in blast)+

lemma works_live: "(work fair E F show_io)\<^sup>*\<^sup>* s t \<Longrightarrow> (live_step fair waits oks regs E F show_io)\<^sup>*\<^sup>* s t"
  by (induction rule: rtranclp_induct) (auto intro: live_step.works rtranclp.rtrancl_into_rtrancl)

section \<open>The thread stays alive\<close>

definition good_sinks :: "('w sink \<Rightarrow> bool) \<Rightarrow> bool" where
  "good_sinks oks \<longleftrightarrow> (\<forall>k. oks k \<longrightarrow> (\<forall>d. never_fails (k d)))"

lemma living_state: "living s \<Longrightarrow> sinks (fst st) = sinks (fst (sst s)) \<Longrightarrow> living (s\<lparr>sst := st\<rparr>)"
  by (simp add: living_def safe_sinks_def)

lemma living_one:
  assumes "safe_env E F mx" "living s"
  shows "living (l_other_one E F d logs v s)"
proof -
  have "succeeds safe_sinks (other_backends E F d)"
    using assms(1) by (intro other_backends_safe) (simp add: safe_env_def)
  from living_run [OF this assms(2), of "LT_Others logs v" "\<lambda>e. e"] show ?thesis
    by (auto simp: l_other_one_def split: prod.splits)
qed

lemma living_work:
  assumes "work fair E F show_io s t" "safe_env E F mx" "core_ok mx (core s)" "living (core s)"
  shows "living (core t)"
  using assms
proof (induction rule: work.induct)
  case (serve s t)
  then show ?case using living_serve [OF serve.hyps] by (auto simp: core_ok_def)
next
  case (one s d logs v)
  then show ?case using living_one by simp
qed (simp add: living_def)

lemma living_live:
  assumes step: "live_step fair waits oks regs E F show_io s t" and env: "safe_env E F mx" "good_sinks oks"
    and ok: "core_ok mx (core s)" and al: "living (core s)"
  shows "living (core t)"
  using step
proof (cases rule: live_step.cases)
  case works
  then show ?thesis using living_work env ok al by blast
next
  case (call t')
  from call(2) show ?thesis
  proof (cases rule: sys_step.cases)
    case served
    then show ?thesis using living_serve [OF served env(1)] ok al call by (simp add: core_ok_def)
  qed (use al call in \<open>auto simp: living_def\<close>)
next
  case (register i t' now)
  obtain st where "core t = (core s)\<lparr>sst := st\<rparr>" "same_queue (fst (sst (core s))) (fst st)"
    unfolding register by (rule register_core)
  then show ?thesis using living_state [OF al, of st] by (simp add: same_queue_def)
next
  case (unregister t')
  then show ?thesis
    using living_state [OF al, of "remove_context E t' (sst (core s))"]
      remove_context_fields(1) [of "sst (core s)" E t'] by (simp add: unregister_step_def same_queue_def)
next
  case (sink k)
  then show ?thesis using al env(2)
    by (auto simp: sink_step_def living_def safe_sinks_def add_sink_def good_sinks_def)
qed

interpretation live_lives: inductive_invariant
  "\<lambda>s. (safe_env E F mx \<and> good_sinks oks \<and> safe_sinks s0) \<and> live_started s0 mx s"
  "live_step fair waits oks (own_file E) E F show_io"
  "\<lambda>s. safe_env E F mx \<and> good_sinks oks \<and> live_inv E mx s0 s \<and> living (core s)"
proof unfold_locales
  show "safe_env E F mx \<and> good_sinks oks \<and> live_inv E mx s0 s \<and> living (core s)"
    if "(safe_env E F mx \<and> good_sinks oks \<and> safe_sinks s0) \<and> live_started s0 mx s" for s
    using that live_inv_init by (auto simp: sys_init_def living_def)
  show "safe_env E F mx \<and> good_sinks oks \<and> live_inv E mx s0 t \<and> living (core t)"
    if "safe_env E F mx \<and> good_sinks oks \<and> live_inv E mx s0 s \<and> living (core s)"
      "live_step fair waits oks (own_file E) E F show_io s t" for s t
    using that living_live live_inv_step unfolding live_inv_def [of _ _ _ s] by (metis live_inv_def)
qed

text \<open>So no reachable state has a failed or ended log thread.\<close>

theorem registry_thread_survives:
  assumes env: "safe_env E F mx" "safe_sinks s0" "good_sinks oks"
    and r: "reach (live_started s0 mx) (live_step fair waits oks (own_file E) E F show_io) s"
  shows "alive (lpc (core s))"
proof -
  have "reach (\<lambda>s. (safe_env E F mx \<and> good_sinks oks \<and> safe_sinks s0) \<and> live_started s0 mx s)
      (live_step fair waits oks (own_file E) E F show_io) s"
    using reach_weaken [OF r, of "safe_env E F mx \<and> good_sinks oks \<and> safe_sinks s0"] env by blast
  from live_lives.reach_inv [OF this] have "living (core s)" by blast
  then show ?thesis by (simp add: living_def)
qed

end
