(* ===== verification/Registry_Spec.thy ===== *)
theory Registry_Spec
  imports Registry_Liveness
begin

text \<open>
  What the logger with its threads promises, as a system of four events: a record is accepted,
  accepted records are committed in order, a context is opened and closed.  The files are
  functions of the abstract state.  The steps of \<open>Pipeline_Registry\<close> refine it: each is one
  event or is not visible.
\<close>

section \<open>The abstract system\<close>

text \<open>
  The records accepted so far, how many of them are committed, and for every open context how
  many were when it was opened and what its file held then.
\<close>

record log_spec =
  accepted :: "log_data list"
  committed :: nat
  opened :: "rstr \<Rightarrow> (nat \<times> byte list) option"

inductive spec_step :: "log_spec \<Rightarrow> log_spec \<Rightarrow> bool" where
  accept: "spec_step a (a\<lparr>accepted := accepted a @ [d]\<rparr>)"
| commit: "committed a < n \<Longrightarrow> n \<le> length (accepted a) \<Longrightarrow> spec_step a (a\<lparr>committed := n\<rparr>)"
| open_context: "spec_step a (a\<lparr>opened := (opened a)(t \<mapsto> (committed a, []))\<rparr>)"
| close_context: "spec_step a (a\<lparr>opened := (opened a)(t := None)\<rparr>)"

text \<open>The contents of the files in an abstract state; \<open>g0\<close> is what the global file held at the start.\<close>

definition pieces_of :: "'z env_scheme \<Rightarrow> nat \<Rightarrow> log_data list \<Rightarrow> log_data list" where
  "pieces_of E mx ds = (case split_str_into_chunks E ds mx of None \<Rightarrow> [] | Some ps \<Rightarrow> ps)"

definition spec_global :: "'z env_scheme \<Rightarrow> nat \<Rightarrow> byte list \<Rightarrow> log_spec \<Rightarrow> byte list" where
  "spec_global E mx g0 a = g0 @ full_lines E (pieces_of E mx (take (committed a) (accepted a)))"

definition spec_context :: "'z env_scheme \<Rightarrow> nat \<Rightarrow> log_spec \<Rightarrow> rstr \<Rightarrow> byte list option" where
  "spec_context E mx a u =
     (case opened a u of None \<Rightarrow> None
      | Some (k, b) \<Rightarrow>
          Some (b @ context_lines E (pieces_of E mx (drop k (take (committed a) (accepted a)))) u))"

section \<open>The abstraction\<close>

definition spec_of :: "'w live \<Rightarrow> log_spec" where
  "spec_of s =
     \<lparr>accepted = pushed (core s), committed = done_count (core s),
      opened = (\<lambda>u. case context_map (fst (sst (core s))) u of None \<Rightarrow> None
                   | Some b \<Rightarrow> Some (since s u, base s u))\<rparr>"

lemma spec_of_done:
  assumes "core_ok mx (core s)" "written_since E mx s0 s dn"
  shows "committed (spec_of s) = length dn" "take (length dn) (pushed (core s)) = dn"
    "length dn \<le> length (pushed (core s))"
  using assms by (simp_all add: core_ok_def written_since_def spec_of_def done_count_def)

lemma spec_contents:
  assumes inv: "live_inv E mx s0 s" and al: "alive (lpc (core s))"
  shows "global_stream (sst (core s)) = spec_global E mx (global_stream s0) (spec_of s)"
    "ctx_stream (sst (core s)) u = spec_context E mx (spec_of s) u"
proof -
  obtain dn where w: "written_since E mx s0 s dn" using inv al by (auto simp: live_inv_def)
  have ok: "core_ok mx (core s)" using inv by (simp add: live_inv_def)
  note d = spec_of_done [OF ok w]
  have t: "take (committed (spec_of s)) (accepted (spec_of s)) = dn"
    using d(1,2) by (simp add: spec_of_def)
  show "global_stream (sst (core s)) = spec_global E mx (global_stream s0) (spec_of s)"
    using w unfolding spec_global_def t by (auto simp: written_since_def pieces_of_def)
  show "ctx_stream (sst (core s)) u = spec_context E mx (spec_of s) u"
  proof (cases "ctx_stream (sst (core s)) u")
    case None
    then show ?thesis by (simp add: ctx_stream_def spec_context_def spec_of_def)
  next
    case (Some x)
    obtain logs where "split_str_into_chunks E (drop (since s u) dn) mx = Some logs"
        "x = base s u @ context_lines E logs u"
      using w Some by (auto simp: written_since_def)
    moreover obtain b where "context_map (fst (sst (core s))) u = Some b"
      using Some by (auto simp: ctx_stream_def)
    then have "opened (spec_of s) u = Some (since s u, base s u)" by (simp add: spec_of_def)
    ultimately show ?thesis using Some by (simp add: spec_context_def t pieces_of_def)
  qed
qed

section \<open>The simulation\<close>

text \<open>A step that accepts nothing commits what it writes.\<close>

lemma commit_or_stutter:
  assumes "opened b = opened a" "accepted b = accepted a" "committed a \<le> committed b"
    "committed b \<le> length (accepted b)"
  shows "spec_step\<^sup>=\<^sup>= a b"
proof (cases "committed b = committed a")
  case True
  then have "b = a" using assms(1,2) by simp
  then show ?thesis by simp
next
  case False
  then have "spec_step a (a\<lparr>committed := committed b\<rparr>)"
    using assms by (intro spec_step.commit) simp_all
  moreover have "a\<lparr>committed := committed b\<rparr> = b" using assms(1,2) by simp
  ultimately show ?thesis by simp
qed

lemma effect_commits:
  assumes inv: "live_inv E mx s0 s" "live_inv E mx s0 t" and al: "alive (lpc (core t))"
    and e: "effect E mx (core s) (core t)"
    and same: "since t = since s" "base t = base s"
      "dom (context_map (fst (sst (core t)))) = dom (context_map (fst (sst (core s))))"
    and p: "pushed (core t) = pushed (core s)"
  shows "spec_step\<^sup>=\<^sup>= (spec_of s) (spec_of t)"
proof (rule commit_or_stutter)
  obtain ds where a: "alive (lpc (core s))"
      "\<And>dn. taken (core s) = dn @ in_hand (lpc (core s)) \<Longrightarrow> taken (core t) = dn @ ds @ in_hand (lpc (core t))"
    using e al unfolding effect_def by blast
  obtain dn where w: "written_since E mx s0 s dn" using inv(1) a(1) by (auto simp: live_inv_def)
  then have "taken (core t) = (dn @ ds) @ in_hand (lpc (core t))"
    using a(2) by (simp add: written_since_def)
  then have "done_count (core t) = length dn + length ds" by (simp add: done_count_def)
  moreover have "done_count (core s) = length dn" using w by (simp add: written_since_def done_count_def)
  ultimately show "committed (spec_of s) \<le> committed (spec_of t)" by (simp add: spec_of_def)
  obtain dn' where w': "written_since E mx s0 t dn'" using inv(2) al by (auto simp: live_inv_def)
  have "core_ok mx (core t)" using inv(2) by (simp add: live_inv_def)
  from spec_of_done [OF this w'] show "committed (spec_of t) \<le> length (accepted (spec_of t))"
    by (simp add: spec_of_def)
  have "(context_map (fst (sst (core t))) u = None) = (context_map (fst (sst (core s))) u = None)" for u
    using same(3) by (metis domIff)
  then show "opened (spec_of t) = opened (spec_of s)"
    by (auto simp: spec_of_def same(1,2) fun_eq_iff split: option.splits) (metis not_None_eq)+
qed (simp add: spec_of_def p)

lemma ending_dies: "ending s t \<Longrightarrow> \<not> alive (lpc t)"
  by (auto simp: ending_def)

text \<open>
  Neither a step of the thread nor one of a client changes the registered contexts, or the flag
  that the logger has been started.
\<close>

definition ctx_dom :: "'w sys \<Rightarrow> bool \<times> rstr set" where
  "ctx_dom s = (inited (fst (sst s)), dom (context_map (fst (sst s))))"

lemma ctl_dom: "ctl_view t = ctl_view s \<Longrightarrow>
    inited (fst t) = inited (fst s) \<and> dom (context_map (fst t)) = dom (context_map (fst s))"
  by (simp add: ctl_view_def)

lemma flush_dom:
  assumes "lt_flush E ks s = (r, t)"
  shows "inited (fst t) = inited (fst s) \<and> dom (context_map (fst t)) = dom (context_map (fst s))"
proof -
  obtain r' where f: "flush E ks s = (r', t)" using assms by (rule lt_flush_cases)
  obtain r1 u where u: "flush_files E ks s = (r1, u)" by (meson surj_pair)
  have "inited (fst t) = inited (fst u) \<and> context_map (fst t) = context_map (fst u)"
    using f u by (cases r1) (auto simp: flush_def signal_flush_def split: prod.splits)
  then show ?thesis using ctl_dom [OF framesD [OF flush_files_frame u]] by simp
qed

lemma serve_dom:
  assumes "serve E F show_io s t" "pool_ok (log_pool (sthr s))" "alive (lpc t)"
  shows "ctx_dom t = ctx_dom s"
  using assms
proof (cases rule: serve.cases)
  case take
  obtain q v th c where tk: "lt_take (sthr s) (fst (sst s)) = (q, v, th, c)" by (metis prod_cases4)
  from lt_take_spec(2) [OF assms(2) tk] show ?thesis by (simp add: take l_take_def ctx_dom_def tk)
next
  case (batch q v)
  then show ?thesis
    by (simp add: l_batch_def ctx_dom_def ctl_dom [OF framesD [OF batch_frame]] split: prod.splits option.splits)
next
  case (others logs v)
  then show ?thesis
    by (simp add: l_others_def ctx_dom_def ctl_dom [OF framesD [OF other_be.runs_frame]] split: prod.splits)
next
  case (flush v ks)
  then show ?thesis by (simp add: l_flush_def ctx_dom_def flush_dom split: prod.splits)
next
  case (exit e ks)
  then show ?thesis using assms(3) ending_dies [OF exit_flush_ending] by blast
next
  case (report e now)
  then show ?thesis using assms(3) ending_dies [OF report_ending] by blast
next
  case (notify d)
  then show ?thesis using assms(3) ending_dies [OF notify_ending] by blast
qed (auto simp: ctx_dom_def queue_push_def queue_signal_def wait_for_flush_poll_def l_check_def
    l_wait_check_def l_wake_def split: prod.splits)

lemma serve_pushed:
  assumes "serve E F show_io s t"
  obtains (push) i d where "t = map_ctx (queue_push d) (set_client i C_Signal (s\<lparr>pushed := pushed s @ [d]\<rparr>))"
  | (same) "pushed t = pushed s"
  using assms
proof (cases rule: serve.cases)
  case (c_push i d)
  then show ?thesis using push by blast
qed (use same in \<open>auto simp: l_hist l_same_kept\<close>)

lemma serve_simulates:
  assumes step: "serve E F show_io (core s) t" and inv: "live_inv E mx s0 s" "live_inv E mx s0 (s\<lparr>core := t\<rparr>)"
    and al: "alive (lpc t)"
  shows "spec_step\<^sup>=\<^sup>= (spec_of s) (spec_of (s\<lparr>core := t\<rparr>))"
  using step
proof (cases rule: serve_pushed)
  case (push i d)
  then have "spec_of (s\<lparr>core := t\<rparr>) = (spec_of s)\<lparr>accepted := accepted (spec_of s) @ [d]\<rparr>"
    by (simp add: spec_of_def done_count_def queue_push_def cong: option.case_cong)
  then show ?thesis by (simp add: spec_step.accept)
next
  case same
  have ok: "core_ok mx (core s)" "pool_ok (log_pool (sthr (core s)))"
    using inv(1) by (simp_all add: live_inv_def core_ok_def)
  show ?thesis
    by (rule effect_commits [OF inv])
      (use al same sys_effect [OF sys_step.served [OF step, of False False] ok(1)]
        serve_dom [OF step ok(2) al] in \<open>simp_all add: ctx_dom_def\<close>)
qed

lemma one_dom: "ctx_dom (l_other_one E F d logs v s) = ctx_dom s"
proof -
  obtain r t where b: "other_backends E F d (sst s) = (r, t)" by (meson surj_pair)
  from ctl_dom [OF framesD [OF other_be.run_frame b]] show ?thesis by (simp add: l_other_one_def ctx_dom_def b)
qed

lemma one_pushed: "pushed (l_other_one E F d logs v s) = pushed s"
  by (simp add: l_other_one_def split: prod.splits)

lemma clients_stutter [simp]: "spec_of (s\<lparr>core := set_client i p (core s), owes := w\<rparr>) = spec_of s"
  "spec_of (s\<lparr>core := set_client i p (core s)\<rparr>) = spec_of s"
  by (simp_all add: spec_of_def done_count_def cong: option.case_cong)

lemma register_simulates:
  assumes inv: "live_inv E mx s0 s" and own: "own_file E t (sst (core s))"
  shows "spec_step\<^sup>=\<^sup>= (spec_of s) (spec_of (register_step E show_io now i t s))"
proof -
  obtain r st where a: "add_context E t (sst (core s)) = (r, st)" by (meson surj_pair)
  show ?thesis
  proof (cases r)
    case (Ok u)
    then have cm: "\<exists>b. context_map (fst st) = (context_map (fst (sst (core s))))(t \<mapsto> b)"
      using a by (auto simp: add_context_def Let_def split: prod.splits res.splits)
    then have "spec_of (register_step E show_io now i t s) =
        (spec_of s)\<lparr>opened := (opened (spec_of s))(t \<mapsto> (committed (spec_of s), []))\<rparr>"
      by (auto simp: register_step_def a Ok spec_of_def done_count_def fun_eq_iff cong: option.case_cong)
    then show ?thesis by (simp add: spec_step.open_context)
  next
    case (Err e)
    then have "context_map (fst st) = context_map (fst (sst (core s)))"
      using a by (auto simp: add_context_def Let_def split: prod.splits res.splits)
    then show ?thesis by (simp add: register_step_def a Err spec_of_def done_count_def cong: option.case_cong)
  next
    case (Panic p)
    then have "context_map (fst st) = context_map (fst (sst (core s)))"
      using a by (auto simp: add_context_def Let_def split: prod.splits res.splits)
    then show ?thesis by (simp add: register_step_def a Panic spec_of_def done_count_def cong: option.case_cong)
  qed
qed

lemma live_simulates:
  assumes step: "live_step fair waits oks (own_file E) E F show_io s t" and inv: "live_inv E mx s0 s"
    and al: "alive (lpc (core t))"
  shows "spec_step\<^sup>=\<^sup>= (spec_of s) (spec_of t)"
proof -
  have inv': "live_inv E mx s0 t" by (rule live_inv_step [OF step inv])
  have ok: "core_ok mx (core s)" using inv by (simp add: live_inv_def)
  from step show ?thesis
  proof (cases rule: live_step.cases)
    case works
    then show ?thesis
    proof (cases rule: work.cases)
      case (serve t')
      then show ?thesis using serve_simulates inv inv' al by fastforce
    next
      case (one d logs v)
      show ?thesis
        by (rule effect_commits [OF inv inv' al])
          (use one_effect [where F = F and E = E and E' = E, OF one(2) ok]
              one_dom [of E F d logs v "core s"] one_pushed in \<open>simp_all add: one(1) ctx_dom_def\<close>)
    next
      case (report i d)
      then show ?thesis by simp
    qed
  next
    case (call t')
    from call(2) show ?thesis
    proof (cases rule: sys_step.cases)
      case served
      then show ?thesis using serve_simulates inv inv' al call(1) by fastforce
    qed (simp_all add: call(1))
  next
    case (register i t' now)
    then show ?thesis using register_simulates inv by blast
  next
    case (unregister t')
    have "spec_of (unregister_step E t' s) = (spec_of s)\<lparr>opened := (opened (spec_of s))(t' := None)\<rparr>"
      by (auto simp: unregister_step_def remove_context_def spec_of_def done_count_def fun_eq_iff
          split: prod.splits cong: option.case_cong)
    then show ?thesis by (simp add: unregister spec_step.close_context)
  next
    case (sink k)
    then show ?thesis by (simp add: sink_step_def spec_of_def done_count_def add_sink_def cong: option.case_cong)
  qed
qed

section \<open>Runs of the abstract log\<close>

lemma live_alive_back:
  assumes "live_step fair waits oks regs E F show_io s t" "alive (lpc (core t))"
  shows "alive (lpc (core s))"
  using assms(1)
proof (cases rule: live_step.cases)
  case works
  then show ?thesis
  proof (cases rule: work.cases)
    case (serve t')
    then show ?thesis using alive_back [OF sys_step.served [OF serve(2), of False False]] assms(2) by simp
  qed (use assms(2) in simp_all)
next
  case (call t')
  then show ?thesis using alive_back [OF call(2)] assms(2) by simp
next
  case (register i t' now)
  then show ?thesis using assms(2) by (simp add: register_step_def split: prod.splits res.splits)
qed (use assms(2) in \<open>simp_all add: unregister_step_def sink_step_def\<close>)

text \<open>
  While the thread lives, a state stands for its abstraction; after its end the abstract log
  stays where it was.
\<close>

definition stands_for :: "'z aenv_scheme \<Rightarrow> nat \<Rightarrow> 'w st \<Rightarrow> 'w live \<Rightarrow> log_spec \<Rightarrow> bool" where
  "stands_for E mx s0 s a \<longleftrightarrow> live_inv E mx s0 s \<and> (alive (lpc (core s)) \<longrightarrow> a = spec_of s)"

definition spec_init :: "log_spec \<Rightarrow> bool" where
  "spec_init a \<longleftrightarrow> committed a = 0 \<and> (\<forall>u k b. opened a u = Some (k, b) \<longrightarrow> k = 0)"

interpretation spec_sim: simulation
  "live_started s0 mx" "live_step fair waits oks (own_file E) E F show_io" "stands_for E mx s0" spec_init spec_step
proof unfold_locales
  fix s assume i: "live_started s0 mx s"
  have "spec_init (spec_of s)"
    using i by (auto simp: spec_init_def spec_of_def done_count_def sys_init_def live_init_def split: option.splits)
  moreover have "live_inv E mx s0 s" by (rule live_inv_init) (use i in simp_all)
  then have "stands_for E mx s0 s (spec_of s)" by (simp add: stands_for_def)
  ultimately show "\<exists>a. spec_init a \<and> stands_for E mx s0 s a" by blast
next
  fix s a t assume r: "stands_for E mx s0 s a" and step: "live_step fair waits oks (own_file E) E F show_io s t"
  have inv: "live_inv E mx s0 s" using r by (simp add: stands_for_def)
  have inv': "live_inv E mx s0 t" by (rule live_inv_step [OF step inv])
  show "\<exists>b. spec_step\<^sup>*\<^sup>* a b \<and> stands_for E mx s0 t b"
  proof (cases "alive (lpc (core t))")
    case True
    then have "a = spec_of s" using r live_alive_back [OF step] by (simp add: stands_for_def)
    then have "spec_step\<^sup>*\<^sup>* a (spec_of t)" using live_simulates [OF step inv True] by auto
    moreover have "stands_for E mx s0 t (spec_of t)" using inv' by (simp add: stands_for_def)
    ultimately show ?thesis by blast
  next
    case False
    then show ?thesis using inv' by (auto simp: stands_for_def)
  qed
qed

text \<open>An invariant of the abstract log, and what it says of the logger.\<close>

definition spec_ok :: "log_spec \<Rightarrow> bool" where
  "spec_ok a \<longleftrightarrow> committed a \<le> length (accepted a) \<and>
     (\<forall>u k b. opened a u = Some (k, b) \<longrightarrow> k \<le> committed a)"

interpretation spec: inductive_invariant spec_init spec_step spec_ok
proof unfold_locales
  show "spec_ok a" if "spec_init a" for a using that by (auto simp: spec_init_def spec_ok_def)
next
  fix a b assume ok: "spec_ok a" and step: "spec_step a b"
  from step show "spec_ok b"
  proof (cases rule: spec_step.cases)
    case (commit n)
    have "k \<le> n" if "opened a u = Some (k, c)" for u k c
    proof -
      have "k \<le> committed a" using ok that unfolding spec_ok_def by blast
      then show ?thesis using commit(2) by simp
    qed
    then show ?thesis using commit by (auto simp: spec_ok_def)
  qed (use ok in \<open>auto simp: spec_ok_def split: if_splits\<close>)
qed

lemma reached_spec:
  assumes "reach (live_started s0 mx) (live_step fair waits oks (own_file E) E F show_io) s" "alive (lpc (core s))"
  shows "reach spec_init spec_step (spec_of s)" "spec_ok (spec_of s)"
proof -
  obtain a where "reach spec_init spec_step a" "stands_for E mx s0 s a"
    using spec_sim.sim_reach [OF assms(1)] by blast
  then show r: "reach spec_init spec_step (spec_of s)" using assms(2) by (simp add: stands_for_def)
  show "spec_ok (spec_of s)" by (rule spec.reach_inv [OF r])
qed

end
