(* ===== verification/Registry_Anywhere.thy ===== *)
theory Registry_Anywhere
  imports Registry_Order
begin

text \<open>
  The global file, whatever contexts are registered.  \<open>Registry_Order\<close> asks that the file of
  a new context is used by no open writer; here only the global file is spared, so a tag may be
  registered twice, or two tags may share a file.  The context files may then be spoilt, but
  every writer still touches its own inode only, so the global file holds every record in
  order, and at any moment all records up to the last flush.
\<close>

section \<open>Every operation of a writer stays on its file\<close>

text \<open>This needs no invariant of the writer: the cursor may be anywhere.\<close>

definition stays_local :: "(fs \<times> bufw, 'e, unit) act \<Rightarrow> bool" where
  "stays_local m \<longleftrightarrow> (\<forall>s. bw_local s (snd (m s)))"

lemma stays_localD: "stays_local m \<Longrightarrow> m s = (r, t) \<Longrightarrow> bw_local s t"
  by (metis stays_local_def snd_conv)

lemma flush_buf_stays: "stays_local (bw_flush_buf E)"
  unfolding stays_local_def bw_flush_buf_def bw_local_def
  by (auto split: prod.splits dest: write_loop_local)

lemma through_stays: "stays_local (bw_through E bs)"
  unfolding stays_local_def bw_through_def bw_local_def
  by (auto split: prod.splits dest: write_loop_local)

lemma push_stays: "stays_local (bw_push bs)"
  by (simp add: stays_local_def bw_push_def bw_local_def split: prod.splits)

lemma ret_stays: "stays_local (ret ())"
  by (simp add: stays_local_def)

lemma seq_stays: "stays_local m \<Longrightarrow> stays_local n \<Longrightarrow> stays_local (seq_act m n)"
  unfolding stays_local_def seq_act_def bind_act_def
  by (auto split: prod.splits res.splits) (metis bw_local_trans snd_conv)+

lemma for_each_stays: "(\<And>x. stays_local (f x)) \<Longrightarrow> stays_local (for_each f xs)"
  by (induction xs) (simp_all add: ret_stays seq_stays)

lemma write_all_cases:
  "bw_write_all E bs s = bw_push bs s \<or> (\<exists>b c. bw_write_all E bs s =
     seq_act (guarded b (bw_flush_buf E)) (if c then bw_through E bs else bw_push bs) s)"
proof (cases "length bs < bw_capacity - length (bw_buf (snd s))")
  case True
  then show ?thesis by (simp add: bw_write_all_def)
next
  case False
  then have "bw_write_all E bs s =
      seq_act (guarded (bw_capacity - length (bw_buf (snd s)) < length bs) (bw_flush_buf E))
        (if bw_capacity \<le> length bs then bw_through E bs else bw_push bs) s"
    by (simp only: bw_write_all_def if_False)
  then show ?thesis by blast
qed

lemma write_all_stays: "stays_local (bw_write_all E bs)"
proof -
  have g: "stays_local (guarded b (bw_flush_buf E))" for b
    by (cases b) (simp_all add: ret_stays flush_buf_stays)
  have "stays_local (seq_act (guarded b (bw_flush_buf E)) (if c then bw_through E bs else bw_push bs))" for b c
    by (intro seq_stays g) (simp add: through_stays push_stays)
  then have "bw_local s (snd (seq_act (guarded b (bw_flush_buf E))
      (if c then bw_through E bs else bw_push bs) s))" for b c s
    unfolding stays_local_def by blast
  moreover have "bw_local s (snd (bw_push bs s))" for s
    using push_stays unfolding stays_local_def by blast
  ultimately show ?thesis
    unfolding stays_local_def using write_all_cases [of E bs] by metis
qed

lemma compact_stays: "stays_local (write_compact_to_io E d)"
  unfolding write_compact_to_io_def by (intro for_each_stays write_all_stays)

section \<open>The disk only grows\<close>

text \<open>A sound writer appends to its file: what is there stays.\<close>

definition disk_grows :: "(fs \<times> bufw, 'e, unit) act \<Rightarrow> bool" where
  "disk_grows m \<longleftrightarrow> (\<forall>s. bw_ok s \<longrightarrow> prefix (bw_disk s) (bw_disk (snd (m s))))"

lemma flush_buf_grows: "disk_grows (bw_flush_buf E)"
  unfolding disk_grows_def
proof (intro allI impI)
  fix s :: "fs \<times> bufw" assume ok: "bw_ok s"
  obtain f w where s: "s = (f, w)" by (cases s)
  obtain r rem k g where l: "write_loop E (bw_file w) (bw_buf w) f = (r, rem, k, g)" by (metis prod_cases4)
  have "at_end f (bw_file w)" using ok by (simp add: bw_ok_def s)
  from write_loop_spec [OF l this] show "prefix (bw_disk s) (bw_disk (snd (bw_flush_buf E s)))"
    by (auto simp: s bw_flush_buf_def l bw_disk_def appended_def)
qed

lemma through_grows: "disk_grows (bw_through E bs)"
  unfolding disk_grows_def
proof (intro allI impI)
  fix s :: "fs \<times> bufw" assume ok: "bw_ok s"
  obtain f w where s: "s = (f, w)" by (cases s)
  obtain r rem k g where l: "write_loop E (bw_file w) bs f = (r, rem, k, g)" by (metis prod_cases4)
  have "at_end f (bw_file w)" using ok by (simp add: bw_ok_def s)
  from write_loop_spec [OF l this] show "prefix (bw_disk s) (bw_disk (snd (bw_through E bs s)))"
    by (auto simp: s bw_through_def l bw_disk_def appended_def)
qed

lemma push_grows: "disk_grows (bw_push bs)"
  by (simp add: disk_grows_def bw_push_def bw_disk_def split: prod.splits)

lemma ret_grows: "disk_grows (ret ())"
  by (simp add: disk_grows_def)

lemma seq_grows:
  assumes "disk_grows m" "keeps bw_ok m" "disk_grows n"
  shows "disk_grows (seq_act m n)"
  unfolding disk_grows_def
proof (intro allI impI)
  fix s assume ok: "bw_ok s"
  obtain r t where m: "m s = (r, t)" by (meson surj_pair)
  have t: "bw_ok t" using keepsD [OF assms(2) ok m] .
  have "prefix (bw_disk s) (bw_disk t)"
    using assms(1) [unfolded disk_grows_def, rule_format, OF ok] m by simp
  then show "prefix (bw_disk s) (bw_disk (snd (seq_act m n s)))"
    using m assms(3) [unfolded disk_grows_def, rule_format, OF t]
    by (cases r) (auto intro: prefix_order.trans)
qed

lemma write_all_grows: "disk_grows (bw_write_all E bs)"
proof -
  have g: "disk_grows (guarded b (bw_flush_buf E))" "keeps bw_ok (guarded b (bw_flush_buf E))" for b
    by (cases b; simp add: ret_grows flush_buf_grows keeps_ret bw.flush_inv [unfolded bw_flush_def])+
  have "disk_grows (seq_act (guarded b (bw_flush_buf E)) (if c then bw_through E bs else bw_push bs))" for b c
    by (intro seq_grows g) (simp add: through_grows push_grows)
  then have "bw_ok s \<Longrightarrow> prefix (bw_disk s) (bw_disk (snd (seq_act (guarded b (bw_flush_buf E))
      (if c then bw_through E bs else bw_push bs) s)))" for b c s
    unfolding disk_grows_def by blast
  moreover have "bw_ok s \<Longrightarrow> prefix (bw_disk s) (bw_disk (snd (bw_push bs s)))" for s
    using push_grows unfolding disk_grows_def by blast
  ultimately show ?thesis
    unfolding disk_grows_def using write_all_cases [of E bs] by metis
qed

lemma full_grows: "disk_grows (write_to_io E d)"
proof -
  have "disk_grows (for_each (\<lambda>p. bw_write_all E (utf8 p)) ps)" for ps
  proof (induction ps)
    case Nil
    show ?case by (simp add: ret_grows)
  next
    case (Cons p ps)
    show ?case unfolding for_each.simps by (intro seq_grows write_all_grows bw.write_inv Cons)
  qed
  then show ?thesis by (simp add: write_to_io_def)
qed

section \<open>The global file alone\<close>

text \<open>The writer of the global file is sound, and no context is on its file.\<close>

definition global_ok :: "'w st \<Rightarrow> bool" where
  "global_ok s \<longleftrightarrow> bw_ok (w_fs (snd s), global_file (fst s)) \<and>
     (\<forall>u b. context_map (fst s) u = Some b \<longrightarrow> w_ino b \<noteq> w_ino (global_file (fst s)))"

lemma global_ok_weaker: "ctx_ok s \<Longrightarrow> global_ok s"
  by (simp add: ctx_ok_def global_ok_def)

text \<open>
  An action that is to write the records \<open>ds\<close> to the global file: exactly their lines when it
  succeeds, a prefix of them when it fails; nothing that is on disk is lost.
\<close>

definition global_writes :: "'z env_scheme \<Rightarrow> log_data list \<Rightarrow> ('w st, 'e, unit) act \<Rightarrow> bool" where
  "global_writes E ds m \<longleftrightarrow> (\<forall>s r t. global_ok s \<longrightarrow> m s = (r, t) \<longrightarrow>
     global_ok t \<and> prefix (global_disk s) (global_disk t) \<and>
     (\<exists>G. global_stream t = global_stream s @ G \<and> prefix G (full_lines E ds) \<and>
        (is_ok r \<longrightarrow> G = full_lines E ds)))"

lemma global_writesD:
  assumes "global_writes E ds m" "global_ok s" "m s = (r, t)"
  shows "global_ok t" "prefix (global_disk s) (global_disk t)"
    "is_ok r \<Longrightarrow> global_stream t = global_stream s @ full_lines E ds"
  using assms unfolding global_writes_def by blast+

text \<open>An action that leaves the stream of the global file alone.\<close>

lemma global_writes_NilI:
  assumes "\<And>s r t. global_ok s \<Longrightarrow> m s = (r, t) \<Longrightarrow>
    global_ok t \<and> prefix (global_disk s) (global_disk t) \<and> global_stream t = global_stream s"
  shows "global_writes E [] m"
  using assms by (simp add: global_writes_def)

lemma global_writes_ret: "global_writes E [] (ret ())"
  by (rule global_writes_NilI) simp

lemma global_writes_seq:
  assumes m: "global_writes E ds m" and n: "global_writes E es n"
  shows "global_writes E (ds @ es) (seq_act m n)"
  unfolding global_writes_def
proof (intro allI impI)
  fix s r t assume ok: "global_ok s" and run: "seq_act m n s = (r, t)"
  obtain r1 s1 where g: "m s = (r1, s1)" by (meson surj_pair)
  obtain G where G: "global_ok s1" "prefix (global_disk s) (global_disk s1)"
      "global_stream s1 = global_stream s @ G" "prefix G (full_lines E ds)"
      "is_ok r1 \<longrightarrow> G = full_lines E ds"
    using m ok g unfolding global_writes_def by blast
  let ?goal = "global_ok t \<and> prefix (global_disk s) (global_disk t) \<and>
     (\<exists>G. global_stream t = global_stream s @ G \<and> prefix G (full_lines E (ds @ es)) \<and>
        (is_ok r \<longrightarrow> G = full_lines E (ds @ es)))"
  show ?goal
  proof (cases "is_ok r1")
    case True
    then have r1: "n s1 = (r, t)" using run g by (cases r1) simp_all
    obtain G' where G': "global_ok t" "prefix (global_disk s1) (global_disk t)"
        "global_stream t = global_stream s1 @ G'" "prefix G' (full_lines E es)"
        "is_ok r \<longrightarrow> G' = full_lines E es"
      using n G(1) r1 unfolding global_writes_def by blast
    then show ?goal
      using G True prefix_order.trans [OF G(2) G'(2)] by (intro conjI exI [of _ "G @ G'"]) auto
  next
    case False
    then have "t = s1" "\<not> is_ok r" using run g by (cases r1; simp)+
    then show ?goal using G by (intro conjI exI [of _ G]) (auto intro: prefix_prefix)
  qed
qed

lemma global_writes_seq_Nil:
  "global_writes E [] m \<Longrightarrow> global_writes E [] n \<Longrightarrow> global_writes E [] (seq_act m n)"
  using global_writes_seq [of E "[]" m "[]" n] by simp

lemma global_writes_for_each:
  "(\<And>x. global_writes E [] (f x)) \<Longrightarrow> global_writes E [] (for_each f xs)"
  by (induction xs) (simp_all add: global_writes_ret global_writes_seq_Nil)

lemma global_writes_conv: "global_writes E ds m \<Longrightarrow> global_writes E ds (conv_err f m)"
  unfolding global_writes_def conv_err_def
  by (auto split: prod.splits)

text \<open>When the result is dropped, at least the disk is kept.\<close>

definition global_kept :: "('w st, 'e, unit) act \<Rightarrow> bool" where
  "global_kept m \<longleftrightarrow> (\<forall>s. global_ok s \<longrightarrow>
     global_ok (snd (m s)) \<and> prefix (global_disk s) (global_disk (snd (m s))))"

lemma global_writes_kept: "global_writes E ds m \<Longrightarrow> global_kept m"
  unfolding global_kept_def using global_writesD [of E ds m] prod.collapse by metis

lemma kept_ignore: "global_kept m \<Longrightarrow> global_kept (ignore_err m)"
  by (simp add: global_kept_def ignore_err_snd)

lemma kept_seq:
  fixes m :: "('w st, 'e, unit) act"
  shows "global_kept m \<Longrightarrow> global_kept n \<Longrightarrow> global_kept (seq_act m n)"
  unfolding global_kept_def
proof (intro allI impI)
  fix s :: "'w st"
  assume m: "\<forall>s. global_ok s \<longrightarrow> global_ok (snd (m s)) \<and> prefix (global_disk s) (global_disk (snd (m s)))"
    and n: "\<forall>s. global_ok s \<longrightarrow> global_ok (snd (n s)) \<and> prefix (global_disk s) (global_disk (snd (n s)))"
    and ok: "global_ok s"
  obtain r t where run: "m s = (r, t)" by (meson surj_pair)
  have t: "global_ok t" "prefix (global_disk s) (global_disk t)" using m ok run by (metis snd_conv)+
  have n': "global_ok (snd (n t))" "prefix (global_disk t) (global_disk (snd (n t)))"
    using n t(1) by blast+
  then show "global_ok (snd (seq_act m n s)) \<and> prefix (global_disk s) (global_disk (snd (seq_act m n s)))"
    using t run prefix_order.trans [OF t(2) n'(2)] by (cases r) simp_all
qed

section \<open>The operations of the logger\<close>

lemma on_global_writes:
  assumes m: "bw_appends bs m" and d: "disk_grows m" and l: "bs = full_lines E ds"
  shows "global_writes E ds (on_global m)"
  unfolding global_writes_def
proof (intro allI impI)
  fix s :: "'w st" and r t assume ok: "global_ok s" and run: "on_global m s = (r, t)"
  obtain c w where s: "s = (c, w)" by (cases s)
  obtain f b where mb: "m (w_fs w, global_file c) = (r, (f, b))"
      "t = (c\<lparr>global_file := b\<rparr>, w\<lparr>w_fs := f\<rparr>)"
    using run by (auto simp: on_global_def s split: prod.splits)
  have g: "bw_ok (w_fs w, global_file c)" using ok by (simp add: global_ok_def s)
  note spec = m [unfolded bw_appends_def, rule_format, OF g mb(1)]
  have "w_ino b = w_ino (global_file c)" using spec by (simp add: bw_local_def w_ino_def)
  then have "global_ok t" using ok spec by (simp add: global_ok_def mb(2) s)
  moreover have "prefix (global_disk s) (global_disk t)"
    using d [unfolded disk_grows_def, rule_format, OF g] mb by (simp add: global_disk_def s)
  moreover obtain G where "bw_stream (f, b) = bw_stream (w_fs w, global_file c) @ G"
      "prefix G bs" "is_ok r \<longrightarrow> G = bs"
    using spec take_is_prefix by (cases "is_ok r") auto
  ultimately show "global_ok t \<and> prefix (global_disk s) (global_disk t) \<and>
     (\<exists>G. global_stream t = global_stream s @ G \<and> prefix G (full_lines E ds) \<and>
        (is_ok r \<longrightarrow> G = full_lines E ds))"
    unfolding l by (intro conjI exI [of _ G]) (simp_all add: global_stream_def s mb(2))
qed

lemma other_file:
  assumes "bw_local (f, b) (g, d)" "w_ino x \<noteq> w_ino b"
  shows "bw_ok (g, x) = bw_ok (f, x)" "bw_stream (g, x) = bw_stream (f, x)"
    "bw_disk (g, x) = bw_disk (f, x)" "w_ino d = w_ino b"
  using assms by (simp_all add: bw_local_def bw_ok_def at_end_def bw_stream_def bw_disk_def w_ino_def)

lemma on_context_writes:
  assumes "stays_local m"
  shows "global_writes E [] (on_context u m)"
proof (rule global_writes_NilI)
  fix s :: "'w st" and r t assume ok: "global_ok s" and run: "on_context u m s = (r, t)"
  obtain c w where s: "s = (c, w)" by (cases s)
  show "global_ok t \<and> prefix (global_disk s) (global_disk t) \<and> global_stream t = global_stream s"
  proof (cases "context_map c u")
    case None
    then show ?thesis using run ok by (simp add: on_context_def s)
  next
    case (Some b)
    obtain f d where mb: "m (w_fs w, b) = (r, (f, d))"
        "t = (c\<lparr>context_map := (context_map c)(u \<mapsto> d)\<rparr>, w\<lparr>w_fs := f\<rparr>)"
      using run Some by (auto simp: on_context_def s split: prod.splits)
    have "w_ino (global_file c) \<noteq> w_ino b" using ok Some by (metis global_ok_def fst_conv s)
    from other_file [OF stays_localD [OF assms mb(1)] this] show ?thesis
      using ok Some by (auto simp: global_ok_def global_disk_def global_stream_def s mb(2))
  qed
qed

lemma global_record: "global_writes E [d] (file_do_log E d)"
proof -
  have "global_writes E [] (case tag d of None \<Rightarrow> ret ()
      | Some t \<Rightarrow> on_context t (write_compact_to_io E d))"
    by (cases "tag d") (simp_all add: global_writes_ret on_context_writes compact_stays)
  moreover have "global_writes E [d] (on_global (write_to_io E d))"
    by (rule on_global_writes [OF write_to_io_appends full_grows]) simp
  ultimately show ?thesis using global_writes_seq [where ds = "[d]" and es = "[]"]
    by (fastforce simp: file_do_log_def)
qed

lemma global_batch: "global_writes E ds (file_do_log_batch E ds)"
  unfolding batch_is_for_each
proof (induction ds)
  case (Cons d ds)
  then show ?case using global_writes_seq [OF global_record Cons, of d] by simp
qed (simp add: global_writes_ret)

lemma global_world_only: "world_only m \<Longrightarrow> global_writes E [] m"
  by (rule global_writes_NilI, drule (1) world_only_state)
    (simp add: global_ok_def global_disk_def global_stream_def)

lemma global_signal: "global_writes E [] signal_flush"
  by (rule global_writes_NilI)
    (auto simp: signal_flush_def global_ok_def global_disk_def global_stream_def split: prod.splits)

lemma bw_flush_grows: "disk_grows (bw_flush E)" "stays_local (bw_flush E)"
  by (simp_all add: bw_flush_def flush_buf_grows flush_buf_stays)

lemma global_flush: "global_writes E [] (flush E' ks)"
  unfolding flush_def flush_files_def
  by (intro global_writes_seq_Nil global_signal global_writes_for_each on_context_writes
      bw_flush_grows on_global_writes [OF bw_flush_appends]) simp

lemma global_guarded: "world_only m \<Longrightarrow> global_writes E [] (guarded b m)"
  by (cases b) (simp_all add: global_writes_ret global_world_only)

text \<open>What the steps after an error do keeps the global file.\<close>

lemma global_do_log_files: "global_writes E [d] (do_log_files E F d)"
  using global_writes_seq [OF global_guarded [OF logcat_world_only] global_writes_conv [OF global_record]]
  by (simp add: do_log_files_def)

lemma kept_flush: "global_kept (flush E ks)"
  by (rule global_writes_kept [OF global_flush])

lemma kept_after_flush: "global_kept (do_log_files E F d)" "global_kept (do_log_rest E F d)"
  by (rule global_writes_kept [OF global_do_log_files, of E]
      global_writes_kept [OF global_world_only [OF rest_world_only], of E])+

section \<open>The steps, with registrations anywhere but on the global file\<close>

definition apart :: "'z os_scheme \<Rightarrow> rstr \<Rightarrow> 'w st \<Rightarrow> bool" where
  "apart E t s \<longleftrightarrow> (creates E (context_path (fst s) t) (w_fs (snd s)) \<longrightarrow>
     ino_for E (context_path (fst s) t) (w_fs (snd s)) \<noteq> w_ino (global_file (fst s)))"

lemma own_file_apart: "own_file E t s \<Longrightarrow> apart E t s"
  by (simp add: own_file_def unused_def apart_def)

text \<open>Any sink may be added, and any context registered but on the file of the global log.\<close>

abbreviation free_step ::
  "bool \<Rightarrow> bool \<Rightarrow> 'z aenv_scheme \<Rightarrow> features \<Rightarrow> (io_error \<Rightarrow> rstr) \<Rightarrow> 'w live \<Rightarrow> 'w live \<Rightarrow> bool" where
  "free_step fair waits E F show_io \<equiv> live_step fair waits (\<lambda>_. True) (apart E) E F show_io"

lemma live_step_more:
  assumes "live_step fair waits oks regs E F show_io s t" "\<forall>t s. regs t s \<longrightarrow> regs' t s"
  shows "live_step fair waits (\<lambda>_. True) regs' E F show_io s t"
  using assms
proof (induction rule: live_step.induct)
  case (register s i t now)
  then show ?case by (intro live_step.register) blast+
qed (auto intro: live_step.intros)

lemma live_step_free: "live_step fair waits oks (own_file E) E F show_io s t \<Longrightarrow> free_step fair waits E F show_io s t"
  using live_step_more own_file_apart by blast

section \<open>The invariant\<close>

text \<open>
  The records taken, less the batch in hand, are in the stream of the global file while the
  thread lives; a thread about to wait has flushed; and all records taken but the last
  \<open>logged\<close> are on disk, also after the thread has died.
\<close>

definition all_written :: "'z aenv_scheme \<Rightarrow> nat \<Rightarrow> 'w st \<Rightarrow> 'w sys \<Rightarrow> bool" where
  "all_written E mx s0 s \<longleftrightarrow> (\<exists>dn logs. taken s = dn @ in_hand (lpc s) \<and>
     split_str_into_chunks E dn mx = Some logs \<and>
     global_stream (sst s) = global_stream s0 @ full_lines E logs)"

definition on_disk :: "'z aenv_scheme \<Rightarrow> nat \<Rightarrow> 'w st \<Rightarrow> log_data list \<Rightarrow> byte list \<Rightarrow> bool" where
  "on_disk E mx s0 ds f \<longleftrightarrow> (\<exists>logs. split_str_into_chunks E ds mx = Some logs \<and>
     prefix (global_stream s0 @ full_lines E logs) f)"

definition flushed :: "'z aenv_scheme \<Rightarrow> nat \<Rightarrow> 'w st \<Rightarrow> 'w sys \<Rightarrow> bool" where
  "flushed E mx s0 s \<longleftrightarrow> (\<exists>fl rest. taken s = fl @ rest \<and> length rest = logged (sthr s) \<and>
     on_disk E mx s0 fl (global_disk (sst s)))"

fun between_batches :: "lt_pc \<Rightarrow> bool" where
  "between_batches LT_Start \<longleftrightarrow> True"
| "between_batches (LT_WaitCheck v) \<longleftrightarrow> True"
| "between_batches (LT_Blocked v) \<longleftrightarrow> True"
| "between_batches pc \<longleftrightarrow> False"

definition global_settled :: "'w sys \<Rightarrow> bool" where
  "global_settled s \<longleftrightarrow>
     (\<forall>v. lpc s = LT_WaitCheck v \<longrightarrow> clean_global (sst s) \<or> log_queue (fst (sst s)) \<noteq> []) \<and>
     (\<forall>v. lpc s = LT_Blocked v \<longrightarrow> clean_global (sst s)) \<and>
     (between_batches (lpc s) \<longrightarrow> logged (sthr s) < 100)"

definition free_inv :: "'z aenv_scheme \<Rightarrow> nat \<Rightarrow> 'w st \<Rightarrow> 'w sys \<Rightarrow> bool" where
  "free_inv E mx s0 s \<longleftrightarrow>
     pushed s = taken s @ log_queue (fst (sst s)) \<and> pool_ok (log_pool (sthr s)) \<and>
     global_ok (sst s) \<and> max_string_len (config (fst (sst s))) = mx \<and> flushed E mx s0 s \<and>
     (alive (lpc s) \<longrightarrow> all_written E mx s0 s \<and> global_settled s)"

lemma free_init:
  assumes "started s0 mx s" "clean_global s0"
  shows "free_inv E mx s0 s"
proof -
  have "global_disk s0 = global_stream s0"
    using assms(2) by (simp add: clean_global_def global_disk_def global_stream_def bw_disk_def bw_stream_def)
  then show ?thesis
    using assms(1)
    by (auto simp: free_inv_def sys_init_def thr_init_def pool_ok_initial global_ok_weaker flushed_def
        on_disk_def all_written_def global_settled_def split_chunks_simps)
qed

text \<open>What a step leaves of the parts of the invariant.\<close>

lemma flushed_more:
  assumes "flushed E mx s0 s" "prefix (global_disk (sst s)) (global_disk (sst t))"
    "taken t = taken s @ q" "logged (sthr t) = logged (sthr s) + length q"
  shows "flushed E mx s0 t"
proof -
  obtain fl rest where f: "taken s = fl @ rest" "length rest = logged (sthr s)"
      "on_disk E mx s0 fl (global_disk (sst s))"
    using assms(1) by (auto simp: flushed_def)
  have "on_disk E mx s0 fl (global_disk (sst t))"
    using f(3) prefix_order.trans [OF _ assms(2)] by (auto simp: on_disk_def)
  then show ?thesis
    unfolding flushed_def
    by (intro exI [of _ fl] exI [of _ "rest @ q"]) (simp add: f assms(3,4))
qed

lemma all_flushed:
  assumes "all_written E mx s0 s" "in_hand (lpc s) = []" "global_disk (sst t) = global_stream (sst s)"
    "taken t = taken s" "logged (sthr t) = 0"
  shows "flushed E mx s0 t"
  using assms by (auto simp: all_written_def flushed_def on_disk_def)

text \<open>Changes outside the global file.\<close>

definition global_same :: "'w sys \<Rightarrow> 'w sys \<Rightarrow> bool" where
  "global_same s t \<longleftrightarrow> global_ok (sst t) \<and> global_stream (sst t) = global_stream (sst s) \<and>
     global_disk (sst t) = global_disk (sst s) \<and> global_file (fst (sst t)) = global_file (fst (sst s)) \<and>
     config (fst (sst t)) = config (fst (sst s)) \<and> taken t = taken s"

lemma free_inv_same:
  assumes inv: "free_inv E mx s0 s" and same: "global_same s t" and th: "logged (sthr t) = logged (sthr s)"
    "pool_ok (log_pool (sthr t))"
    and q: "pushed t = pushed s @ ps" "log_queue (fst (sst t)) = log_queue (fst (sst s)) @ ps"
    and pc: "alive (lpc t) \<Longrightarrow> alive (lpc s) \<and> in_hand (lpc t) = in_hand (lpc s)"
    and st: "alive (lpc t) \<Longrightarrow> global_settled t"
  shows "free_inv E mx s0 t"
proof -
  have "flushed E mx s0 t"
    by (rule flushed_more [of E mx s0 s t "[]"]) (use inv same th in \<open>simp_all add: free_inv_def global_same_def\<close>)
  then show ?thesis
    using inv same th q pc st by (auto simp: free_inv_def global_same_def all_written_def)
qed

section \<open>The steps keep the invariant\<close>

lemma global_ok_ctx:
  assumes "files_same c d"
  shows "global_ok (d, w) = global_ok (c, w)" "global_stream (d, w) = global_stream (c, w)"
    "global_disk (d, w) = global_disk (c, w)"
  using assms by (simp_all add: files_same_def global_ok_def global_stream_def global_disk_def)

text \<open>The clients, and a thread that does not touch the files.\<close>

lemma free_client:
  assumes inv: "free_inv E mx s0 s" and f: "files_same (fst (sst s)) c"
    "log_queue c = log_queue (fst (sst s)) @ ps"
  shows "free_inv E mx s0 (s\<lparr>sst := (c, snd (sst s)), clients := k, pushed := pushed s @ ps\<rparr>)"
proof (rule free_inv_same [OF inv, where ps = ps])
  let ?t = "s\<lparr>sst := (c, snd (sst s)), clients := k, pushed := pushed s @ ps\<rparr>"
  show "global_same s ?t"
    using inv f global_ok_ctx [OF f(1), of "snd (sst s)"]
    by (simp add: global_same_def free_inv_def files_same_def)
  show "global_settled ?t" if "alive (lpc ?t)"
    using inv that f by (auto simp: free_inv_def global_settled_def clean_global_def files_same_def)
qed (use inv f in \<open>simp_all add: free_inv_def\<close>)

lemma free_clients: "free_inv E mx s0 s \<Longrightarrow> free_inv E mx s0 (s\<lparr>clients := k\<rparr>)"
  using free_client [of E mx s0 s "fst (sst s)" "[]" k] by (simp add: files_same_def)

lemma free_take:
  assumes inv: "free_inv E mx s0 s" and pc: "lpc s = LT_Start"
  shows "free_inv E mx s0 (l_take s)"
proof -
  obtain q v th c where tk: "lt_take (sthr s) (fst (sst s)) = (q, v, th, c)" by (metis prod_cases4)
  have "pool_ok (log_pool (sthr s))" using inv by (simp add: free_inv_def)
  note take = lt_take_spec [OF this tk]
  have fs: "files_same (fst (sst s)) c" by (simp add: files_same_def take(2))
  note g = global_ok_ctx [OF fs, of "snd (sst s)"]
  have fl: "flushed E mx s0 (l_take s)"
    by (rule flushed_more [of E mx s0 s _ q]) (use inv g take(4) in \<open>simp_all add: free_inv_def l_take_def tk\<close>)
  have "all_written E mx s0 (l_take s)"
    using inv pc g by (auto simp: free_inv_def all_written_def l_take_def tk)
  then show ?thesis
    using inv fl g take(1-3) fs
    by (simp add: free_inv_def l_take_def tk global_settled_def files_same_def)
qed

text \<open>An action of the thread on the files: what it writes comes next.\<close>

lemma free_action:
  assumes inv: "free_inv E mx s0 s" and w: "global_writes E logs m"
    and run: "m (sst s) = (r, st)" and v: "queue_view st = queue_view (sst s)"
    and t: "t = s\<lparr>sst := st, lpc := after f pc r\<rparr>"
    and ds: "split_str_into_chunks E ds mx = Some logs" "in_hand (lpc s) = ds" "in_hand pc = []"
    and pc: "alive (lpc s)" "\<not> between_batches pc" "alive pc"
  shows "free_inv E mx s0 t"
proof -
  have ok: "global_ok (sst s)" using inv by (simp add: free_inv_def)
  note g = global_writesD [OF w ok run]
  have "flushed E mx s0 t"
    by (rule flushed_more [of E mx s0 s _ "[]"]) (use inv g(2) in \<open>simp_all add: free_inv_def t\<close>)
  moreover have "all_written E mx s0 t \<and> global_settled t" if al: "alive (lpc t)"
  proof -
    have r: "is_ok r" using al alive_after by (simp add: t)
    obtain dn ls where d: "taken s = dn @ ds" "split_str_into_chunks E dn mx = Some ls"
        "global_stream (sst s) = global_stream s0 @ full_lines E ls"
      using inv pc(1) ds(2) by (auto simp: free_inv_def all_written_def)
    have "global_stream (sst t) = global_stream s0 @ full_lines E (ls @ logs)"
      using g(3) [OF r] d(3) by (simp add: t)
    then have "all_written E mx s0 t"
      using d(1) split_chunks_append [OF d(2) ds(1)] ds(3) r by (auto simp: all_written_def t after_ok)
    moreover have "global_settled t" using pc(2,3) r by (auto simp: global_settled_def t after_ok)
    ultimately show ?thesis by blast
  qed
  ultimately show ?thesis using inv g(1) v by (simp add: free_inv_def t queue_view_def)
qed

lemma ctl_queue: "ctl_view t = ctl_view s \<Longrightarrow> queue_view t = queue_view s"
  by (simp add: ctl_view_def queue_view_def)

lemma free_batch:
  assumes inv: "free_inv E mx s0 s" and pc: "lpc s = LT_Batch q v"
  shows "free_inv E mx s0 (l_batch E q v s)"
proof (cases "q = []")
  case True
  show ?thesis
    by (rule free_inv_same [OF inv, where ps = "[]"])
      (use inv pc True in \<open>simp_all add: l_batch_def global_same_def free_inv_def global_settled_def\<close>)
next
  case False
  have mx: "max_string_len (config (fst (sst s))) = mx" using inv by (simp add: free_inv_def)
  show ?thesis
  proof (cases "split_str_into_chunks E q mx")
    case None
    show ?thesis
      by (rule free_inv_same [OF inv, where ps = "[]"])
        (use inv pc False mx None in \<open>simp_all add: l_batch_def global_same_def free_inv_def\<close>)
  next
    case (Some logs)
    obtain r t where b: "file_do_log_batch E logs (sst s) = (r, t)" by (meson surj_pair)
    show ?thesis
      by (rule free_action [OF inv global_batch b ctl_queue [OF framesD [OF batch_frame b]] _ Some,
          where f = IoError and pc = "LT_Others logs v"])
        (simp_all add: l_batch_def False mx Some b pc)
  qed
qed

lemma free_others:
  assumes inv: "free_inv E mx s0 s" and pc: "lpc s = LT_Others logs v"
  shows "free_inv E mx s0 (l_others E F logs v s)"
proof -
  obtain r t where b: "for_each (other_backends E F) logs (sst s) = (r, t)" by (meson surj_pair)
  have w: "global_writes E [] (for_each (other_backends E F) logs)"
    by (intro global_writes_for_each global_world_only other_world_only)
  show ?thesis
    by (rule free_action [OF inv w b ctl_queue [OF framesD [OF other_be.runs_frame b]],
        where f = "\<lambda>e. e" and pc = "LT_Check v" and ds = "[]"])
      (simp_all add: l_others_def b pc split_chunks_simps)
qed

lemma free_one:
  assumes inv: "free_inv E mx s0 s" and pc: "lpc s = LT_Others (d # logs) v"
  shows "free_inv E mx s0 (l_other_one E F d logs v s)"
proof -
  obtain r t where b: "other_backends E F d (sst s) = (r, t)" by (meson surj_pair)
  show ?thesis
    by (rule free_action [OF inv global_world_only [OF other_world_only] b
          ctl_queue [OF framesD [OF other_be.run_frame b]],
        where f = "\<lambda>e. e" and pc = "LT_Others logs v" and ds = "[]"])
      (simp_all add: l_other_one_def b pc split_chunks_simps)
qed

lemma free_check:
  assumes inv: "free_inv E mx s0 s" and pc: "lpc s = LT_Check v"
  shows "free_inv E mx s0 (l_check v s)"
  by (rule free_inv_same [OF inv, where ps = "[]"])
    (use inv pc in \<open>auto simp: l_check_def global_same_def free_inv_def global_settled_def lt_should_flush_def\<close>)

lemma flush_leaves_clean:
  assumes ok: "global_ok s" and run: "flush E ks s = (Ok (), t)"
  shows "clean_global t"
proof -
  have m: "clean_global u" if "on_context k (bw_flush E) s = (Ok (), u)" "clean_global s" for s u :: "'w st" and k
    using that by (auto simp: on_context_def clean_global_def split: prod.splits option.splits)
  have fe: "clean_global u" if "for_each (\<lambda>t. on_context t (bw_flush E)) ks s = (Ok (), u)" "clean_global s"
    for s u :: "'w st" and ks
    using that
  proof (induction ks arbitrary: s)
    case (Cons k ks)
    obtain s1 where k: "on_context k (bw_flush E) s = (Ok (), s1)"
        "for_each (\<lambda>t. on_context t (bw_flush E)) ks s1 = (Ok (), u)"
      using Cons.prems(1) by (auto elim: seq_act_OkE)
    show ?case by (rule Cons.IH [OF k(2) m [OF k(1) Cons.prems(2)]])
  qed simp
  obtain s1 s2 where r: "on_global (bw_flush E) s = (Ok (), s1)"
      "for_each (\<lambda>t. on_context t (bw_flush E)) ks s1 = (Ok (), s2)" "signal_flush s2 = (Ok (), t)"
    using run unfolding flush_def flush_files_def by (auto elim!: seq_act_OkE)
  obtain c w where s: "s = (c, w)" by (cases s)
  obtain g b where b: "bw_flush E (w_fs w, global_file c) = (Ok (), (g, b))" "global_file (fst s1) = b"
    using r(1) by (auto simp: on_global_def s split: prod.splits)
  have "bw_ok (w_fs w, global_file c)" using ok by (simp add: global_ok_def s)
  from bw_flush_buf_spec [OF this, of E] b have "clean_global s1" by (simp add: clean_global_def bw_flush_def)
  from fe [OF r(2) this] r(3) show ?thesis
    by (auto simp: signal_flush_def clean_global_def split: prod.splits)
qed

lemma free_flush:
  assumes inv: "free_inv E mx s0 s" and pc: "lpc s = LT_Flush v"
  shows "free_inv E mx s0 (l_flush E ks v s)"
proof -
  obtain r t where b: "lt_flush E ks (sst s) = (r, t)" by (meson surj_pair)
  then obtain r' where f: "flush E ks (sst s) = (r', t)" "r = map_err FlushError r'"
    by (rule lt_flush_cases)
  have ok: "global_ok (sst s)" using inv by (simp add: free_inv_def)
  note g = global_writesD [OF global_flush [of E] ok f(1)]
  let ?t = "l_flush E ks v s"
  show ?thesis
  proof (cases "is_ok r")
    case True
    then have r': "r' = Ok ()" using f(2) by (simp add: is_ok_unit)
    have cl: "clean_global t" using flush_leaves_clean [OF ok] f(1) r' by blast
    have st: "global_stream t = global_stream (sst s)" using g(3) r' by simp
    then have disk: "global_disk t = global_stream (sst s)"
      using cl by (simp add: clean_global_def global_disk_def global_stream_def bw_disk_def bw_stream_def)
    have aw: "all_written E mx s0 s" using inv pc by (simp add: free_inv_def)
    have t: "?t = s\<lparr>sst := t, sthr := (sthr s)\<lparr>logged := 0\<rparr>, lpc := LT_WaitCheck v\<rparr>"
      using True by (simp add: l_flush_def b after_ok)
    have "flushed E mx s0 ?t" by (rule all_flushed [OF aw]) (simp_all add: pc disk t)
    moreover have "all_written E mx s0 ?t" using aw pc by (simp add: all_written_def t st)
    ultimately show ?thesis
      using inv g(1) cl flush_ctl [OF f(1)] by (simp add: free_inv_def t global_settled_def)
  next
    case False
    then have t: "?t = s\<lparr>sst := t, lpc := lpc ?t\<rparr>" "\<not> alive (lpc ?t)"
      using alive_after by (auto simp: l_flush_def b)
    have "flushed E mx s0 (s\<lparr>sst := t, lpc := lpc ?t\<rparr>)"
      by (rule flushed_more [of E mx s0 s _ "[]"]) (use inv g(2) in \<open>simp_all add: free_inv_def\<close>)
    then show ?thesis
      using inv g(1) t(2) flush_ctl [OF f(1)] by (subst t(1)) (simp add: free_inv_def)
  qed
qed

lemma free_wait_check:
  assumes inv: "free_inv E mx s0 s" and pc: "lpc s = LT_WaitCheck v"
  shows "free_inv E mx s0 (l_wait_check v s)"
  by (rule free_inv_same [OF inv, where ps = "[]"])
    (use inv pc in \<open>auto simp: l_wait_check_def global_same_def free_inv_def global_settled_def
      lt_release_def vp.give_inv\<close>)

lemma free_wake:
  assumes inv: "free_inv E mx s0 s" and pc: "lpc s = LT_Blocked v"
  shows "free_inv E mx s0 (l_wake v s)"
proof -
  note g = files_same_ops(3) [of "fst (sst s)"]
  show ?thesis
    by (rule free_inv_same [OF inv, where ps = "[]"])
      (use inv pc global_ok_ctx [OF g, of "snd (sst s)"] g in \<open>auto simp: l_wake_def global_same_def
        free_inv_def global_settled_def lt_release_def vp.give_inv files_same_def\<close>)
qed

lemma free_ending:
  assumes inv: "free_inv E mx s0 s" and m: "global_kept m" "frames queue_view m"
    and t: "t = s\<lparr>sst := snd (m (sst s)), lpc := pc\<rparr>" "\<not> alive pc"
  shows "free_inv E mx s0 t"
proof -
  let ?u = "snd (m (sst s))"
  have "global_ok (sst s)" using inv by (simp add: free_inv_def)
  then have g: "global_ok ?u" "prefix (global_disk (sst s)) (global_disk ?u)"
    using m(1) unfolding global_kept_def by blast+
  have "queue_view ?u = queue_view (sst s)" using m(2) unfolding frames_def by blast
  moreover have "flushed E mx s0 t"
    by (rule flushed_more [of E mx s0 s _ "[]"]) (use inv g in \<open>simp_all add: free_inv_def t(1)\<close>)
  ultimately show ?thesis using inv g t(2) by (simp add: free_inv_def t(1) queue_view_def)
qed

lemma free_exit_flush: "free_inv E mx s0 s \<Longrightarrow> free_inv E mx s0 (l_exit_flush E' ks e s)"
  by (erule free_ending [OF _ kept_flush [of E' ks] flush_queue_view,
        where pc = "if panics (fst (flush E' ks (sst s))) then LT_Dead else LT_Report e"])
    (auto simp: l_exit_flush_def prod.case_eq_if)

lemma free_report: "free_inv E mx s0 s \<Longrightarrow> free_inv E mx s0 (l_report E' F show_io now e s)"
  by (erule free_ending [OF _ kept_after_flush(1) [of E' F "exit_report show_io now e"] ctl_queue_view [OF files_be.run_frame],
        where pc = "lpc (l_report E' F show_io now e s)"])
    (auto simp: l_report_def prod.case_eq_if)

lemma free_notify: "free_inv E mx s0 s \<Longrightarrow> free_inv E mx s0 (l_notify E' F d s)"
  by (erule free_ending [OF _ kept_after_flush(2) [of E' F d] ctl_queue_view [OF rest_be.run_frame], where pc = LT_Dead])
    (auto simp: l_notify_def)

lemma free_serve: "serve E F show_io s t \<Longrightarrow> free_inv E mx s0 s \<Longrightarrow> free_inv E mx s0 t"
proof (induction rule: serve.induct)
  case (c_push s i d)
  from free_client [OF c_push.prems files_same_ops(1) queue_ops_queue(1) [of d],
      of "(clients s)(i := C_Signal)"]
  show ?case by (rule back_subst) (cases s, simp)
next
  case (c_signal s i)
  from free_client [OF c_signal.prems files_same_ops(2), of "[]" "(clients s)(i := C_Idle)"]
  show ?case by (simp, elim back_subst) (cases s, simp)
next
  case (c_wake s i b)
  from free_client [OF c_wake.prems files_same_ops(3), of "[]" "(clients s)(i := C_Idle)"]
  show ?case by (simp, elim back_subst) (cases s, simp)
qed (auto intro: free_take free_batch free_others free_check free_flush free_wait_check free_wake
    free_exit_flush free_report free_notify free_clients)

section \<open>Registering, unregistering and adding sinks\<close>

lemma drop_other_file:
  assumes "\<And>b. m = Some b \<Longrightarrow> w_ino b \<noteq> w_ino x"
  shows "bw_ok (drop_opt E m f, x) = bw_ok (f, x)" "bw_stream (drop_opt E m f, x) = bw_stream (f, x)"
    "bw_disk (drop_opt E m f, x) = bw_disk (f, x)"
proof -
  have "bw_ok (drop_opt E m f, x) = bw_ok (f, x) \<and> bw_stream (drop_opt E m f, x) = bw_stream (f, x) \<and>
      bw_disk (drop_opt E m f, x) = bw_disk (f, x)"
  proof (cases m)
    case None
    then show ?thesis by (simp add: drop_opt_def)
  next
    case (Some b)
    obtain r g d where run: "bw_flush_buf E (f, b) = (r, (g, d))" by (metis prod_cases3)
    have "drop_opt E m f = g" by (simp add: Some drop_opt_def bw_drop_def run)
    then show ?thesis
      using other_file [OF stays_localD [OF flush_buf_stays run], of x] assms [OF Some] by metis
  qed
  then show "bw_ok (drop_opt E m f, x) = bw_ok (f, x)" "bw_stream (drop_opt E m f, x) = bw_stream (f, x)"
    "bw_disk (drop_opt E m f, x) = bw_disk (f, x)"
    by blast+
qed

lemma created_other_file:
  assumes "file_create E p f = (Ok h, g)" "ino_for E p f \<noteq> w_ino x" "bw_ok (f, x)"
  shows "bw_ok (g, x)" "bw_stream (g, x) = bw_stream (f, x)" "bw_disk (g, x) = bw_disk (f, x)"
    "f_ino h = ino_for E p f"
  using assms
  by (auto simp: file_create_def Let_def ino_for_def bw_ok_def at_end_def bw_stream_def bw_disk_def
      w_ino_def split: option.splits)

lemma add_context_apart:
  assumes ok: "global_ok s" and ap: "apart E t s" and run: "add_context E t s = (r, s')"
  shows "global_ok s' \<and> global_stream s' = global_stream s \<and> global_disk s' = global_disk s \<and>
    global_file (fst s') = global_file (fst s) \<and> queue_view s' = queue_view s"
proof -
  obtain c w where s: "s = (c, w)" by (cases s)
  let ?p = "context_path c t"
  obtain x f where fc: "file_create E ?p (w_fs w) = (x, f)" by (meson surj_pair)
  have g: "bw_ok (w_fs w, global_file c)" and m: "\<And>u b. context_map c u = Some b \<Longrightarrow> w_ino b \<noteq> w_ino (global_file c)"
    using ok by (auto simp: global_ok_def s)
  show ?thesis
  proof (cases x)
    case (Ok h)
    have "creates E ?p (w_fs w)" using fc Ok file_create_Err [of E ?p "w_fs w"] by auto
    then have i: "ino_for E ?p (w_fs w) \<noteq> w_ino (global_file c)" using ap by (simp add: apart_def s)
    note n = created_other_file [OF fc [unfolded Ok] i g]
    note d = drop_other_file [of "context_map c t" "global_file c" E f, OF m]
    have s': "s' = (c\<lparr>context_map := (context_map c)(t \<mapsto> bw_new h)\<rparr>,
        w\<lparr>w_fs := drop_opt E (context_map c t) f\<rparr>)"
      using run by (simp add: add_context_def s fc Ok)
    have "w_ino (bw_new h) \<noteq> w_ino (global_file c)" using n(4) i by (simp add: w_ino_def bw_new_def)
    then show ?thesis
      using n d m by (auto simp: s s' global_ok_def global_stream_def global_disk_def queue_view_def)
  next
    case (Err e)
    then have "\<not> creates E ?p (w_fs w)" using fc by (auto simp: creates_def file_create_def Let_def split: option.splits)
    from file_create_Err [OF this] fc have "f = w_fs w\<lparr>ticks := Suc (ticks (w_fs w))\<rparr>" by auto
    then show ?thesis
      using run ok by (auto simp: add_context_def s fc Err global_ok_def global_stream_def global_disk_def
          queue_view_def bw_ok_def at_end_def bw_stream_def bw_disk_def)
  next
    case (Panic e)
    then show ?thesis using fc by (auto simp: file_create_def Let_def split: option.splits)
  qed
qed

lemma remove_context_apart:
  assumes ok: "global_ok s"
  shows "global_ok (remove_context E t s) \<and> global_stream (remove_context E t s) = global_stream s \<and>
    global_disk (remove_context E t s) = global_disk s \<and>
    global_file (fst (remove_context E t s)) = global_file (fst s) \<and>
    queue_view (remove_context E t s) = queue_view s"
proof -
  obtain c w where s: "s = (c, w)" by (cases s)
  have m: "\<And>u b. context_map c u = Some b \<Longrightarrow> w_ino b \<noteq> w_ino (global_file c)"
    using ok by (auto simp: global_ok_def s)
  note d = drop_other_file [of "context_map c t" "global_file c" E "w_fs w", OF m]
  show ?thesis
    using ok d by (auto simp: remove_context_def s global_ok_def global_stream_def global_disk_def queue_view_def)
qed

text \<open>A change of the state that leaves the global file and the queue alone.\<close>

lemma free_state:
  assumes inv: "free_inv E mx s0 s" and st: "global_ok st" "global_stream st = global_stream (sst s)"
    "global_disk st = global_disk (sst s)" "global_file (fst st) = global_file (fst (sst s))"
    "queue_view st = queue_view (sst s)"
  shows "free_inv E mx s0 (s\<lparr>sst := st\<rparr>)"
  by (rule free_inv_same [OF inv, where ps = "[]"])
    (use inv st in \<open>auto simp: global_same_def queue_view_def free_inv_def global_settled_def clean_global_def\<close>)

lemma register_state:
  "core (register_step E show_io now i t s) = (core s)\<lparr>sst := snd (add_context E t (sst (core s)))\<rparr>"
  by (simp add: register_step_def split: prod.splits res.splits)

lemma free_work: "work fair E F show_io s t \<Longrightarrow> free_inv E mx s0 (core s) \<Longrightarrow> free_inv E mx s0 (core t)"
  by (induction rule: work.induct) (auto intro: free_serve free_one free_clients)

lemma free_inv_step:
  "free_step fair waits E F show_io s t \<Longrightarrow> free_inv E mx s0 (core s) \<Longrightarrow> free_inv E mx s0 (core t)"
proof (induction rule: live_step.induct)
  case (works s t)
  then show ?case by (rule free_work)
next
  case (call s t)
  from call.hyps(1) show ?case
  proof (cases rule: sys_step.cases)
    case served
    then show ?thesis using free_serve call.prems by simp
  qed (use call.prems free_clients in simp_all)
next
  case (register s i t now)
  obtain r st where a: "add_context E t (sst (core s)) = (r, st)" by (meson surj_pair)
  have "global_ok (sst (core s))" using register.prems by (simp add: free_inv_def)
  note ap = add_context_apart [OF this register.hyps(3) a]
  show ?case unfolding register_state a snd_conv by (rule free_state [OF register.prems]) (use ap in blast)+
next
  case (unregister s t)
  have "global_ok (sst (core s))" using unregister.prems by (simp add: free_inv_def)
  from remove_context_apart [OF this, of E t] free_state [OF unregister.prems] show ?case
    by (simp add: unregister_step_def)
next
  case (sink s k)
  show ?case
    unfolding sink_step_def
    using free_client [OF sink.prems, of "add_sink k (fst (sst (core s)))" "[]" "clients (core s)"]
    by (simp add: files_same_def add_sink_def)
qed

abbreviation free_started :: "'w st \<Rightarrow> nat \<Rightarrow> 'w live \<Rightarrow> bool" where
  "free_started s0 mx s \<equiv> clean_global s0 \<and> live_started s0 mx s"

interpretation anywhere: inductive_invariant
  "free_started s0 mx" "free_step fair waits E F show_io" "\<lambda>s. free_inv E mx s0 (core s)"
  by unfold_locales (auto intro: free_init free_inv_step)

end
