(* ===== verification/Iteration_Steps.thy ===== *)
theory Iteration_Steps
  imports Log_Pipeline
begin

text \<open>
  Two models of the body of \<open>log_thread\<close>: \<open>log_iter\<close> of \<open>Log_Thread\<close> runs it in one piece,
  \<open>serve\<close> of \<open>Log_Pipeline\<close> one critical section at a time.  Without other threads in between
  they agree on every outcome, so what is shown of either holds of the other.
\<close>

section \<open>From the large step to the small ones\<close>

text \<open>What the thread's position tells of the outcome of the iteration.\<close>

fun outcome :: "(logger_error, thr) res \<Rightarrow> 'w sys \<Rightarrow> bool" where
  "outcome (Ok th) s \<longleftrightarrow> (\<exists>v. lpc s = LT_WaitCheck v \<and> lt_release v (sthr s) = th)"
| "outcome (Err e) s \<longleftrightarrow> lpc s = LT_Failed e"
| "outcome (Panic p) s \<longleftrightarrow> lpc s = LT_Dead"

text \<open>The result of a step of the thread and of the actions that follow.\<close>

definition runs_to :: "'z aenv_scheme \<Rightarrow> features \<Rightarrow> (io_error \<Rightarrow> rstr) \<Rightarrow> 'w sys \<Rightarrow>
    (logger_error, thr) res \<Rightarrow> 'w st \<Rightarrow> bool" where
  "runs_to E F show_io s r t \<longleftrightarrow> (\<exists>u. (serve E F show_io)\<^sup>*\<^sup>* s u \<and> outcome r u \<and>
     sst u = t \<and> clients u = clients s)"

lemma runs_to_step:
  "serve E F show_io s s' \<Longrightarrow> clients s' = clients s \<Longrightarrow> runs_to E F show_io s' r t \<Longrightarrow> runs_to E F show_io s r t"
  unfolding runs_to_def by (metis converse_rtranclp_into_rtranclp)

lemma runs_to_here: "outcome r s \<Longrightarrow> sst s = t \<Longrightarrow> runs_to E F show_io s r t"
  unfolding runs_to_def by blast

lemma no_readers_same: "no_readers s \<Longrightarrow> clients t = clients s \<Longrightarrow> no_readers t"
  by (simp add: no_readers_def)

lemma check_runs:
  assumes pc: "lpc s = LT_Check v" and nr: "no_readers s" and ks: "visits ks (sst s)"
    and run: "(if lt_should_flush (sthr s) (fst (sst s))
               then seq_act (lt_flush E ks) (ret (lt_release v ((sthr s)\<lparr>logged := 0\<rparr>))) (sst s)
               else ret (lt_release v (sthr s)) (sst s)) = (r, t)"
  shows "runs_to E F show_io s r t"
proof (rule runs_to_step [OF serve.check [OF pc]])
  let ?c = "l_check v s"
  show "runs_to E F show_io ?c r t"
  proof (cases "lt_should_flush (sthr s) (fst (sst s))")
    case False
    then show ?thesis using run by (auto simp: l_check_def intro!: runs_to_here)
  next
    case True
    obtain x u where f: "lt_flush E ks (sst s) = (x, u)" by (meson surj_pair)
    have st: "serve E F show_io ?c (l_flush E ks v ?c)"
      using serve.flush [of ?c v ks] True nr ks by (simp add: l_check_def no_readers_def)
    have "runs_to E F show_io (l_flush E ks v ?c) r t"
      using run True f by (cases x) (auto simp: l_flush_def l_check_def intro!: runs_to_here)
    then show ?thesis using runs_to_step [OF st] by (simp add: l_flush_def split: prod.splits)
  qed
qed (simp add: l_check_def)

lemma process_dom:
  "lt_process E F q s = (r, t) \<Longrightarrow> visits ks t = visits ks s"
  using framesD [OF lt_process_frame] ctl_view_dom by (metis visits_def)

lemma batch_runs:
  assumes pc: "lpc s = LT_Batch q v" and nr: "no_readers s" and ks: "visits ks (sst s)"
    and run: "bind_act (lt_process E F q)
              (\<lambda>_ s2. if lt_should_flush (sthr s) (fst s2)
                      then seq_act (lt_flush E ks) (ret (lt_release v ((sthr s)\<lparr>logged := 0\<rparr>))) s2
                      else ret (lt_release v (sthr s)) s2) (sst s) = (r, t)"
  shows "runs_to E F show_io s r t"
proof (rule runs_to_step [OF serve.batch [OF pc]])
  let ?b = "l_batch E q v s"
  show "clients ?b = clients s" by (simp add: l_batch_def split: prod.splits option.splits)
  show "q = [] \<or> no_readers s" using nr by blast
  show "runs_to E F show_io ?b r t"
  proof (cases "q = []")
    case True
    then have "lt_process E F q (sst s) = (Ok (), sst s)" by (simp add: lt_process_def)
    then show ?thesis
      using run True by (intro check_runs [where v = v and ks = ks])
        (auto simp: l_batch_def bind_act_def ks no_readers_same [OF nr] split: if_splits)
  next
    case False
    show ?thesis
    proof (cases "split_str_into_chunks E q (max_string_len (config (fst (sst s))))")
      case None
      then show ?thesis
        using run False by (auto simp: lt_process_def bind_act_def l_batch_def intro!: runs_to_here)
    next
      case (Some logs)
      obtain x u where b: "file_do_log_batch E logs (sst s) = (x, u)" by (meson surj_pair)
      obtain y w where o: "for_each (other_backends E F) logs u = (y, w)" by (meson surj_pair)
      have p: "lt_process E F q (sst s) = (case map_err IoError x of Ok a \<Rightarrow> (y, w)
          | Err e \<Rightarrow> (Err e, u) | Panic p \<Rightarrow> (Panic p, u))"
        by (cases x) (simp_all add: lt_process_def False Some lt_write_def seq_act_def bind_act_def
            conv_err_def b o)
      have eb: "?b = s\<lparr>sst := u, lpc := after IoError (LT_Others logs v) x\<rparr>"
        by (simp add: l_batch_def False Some b)
      show ?thesis
      proof (cases x)
        case (Ok a)
        have st: "serve E F show_io ?b (l_others E F logs v ?b)" by (rule serve.others) (simp add: eb Ok)
        have eo: "l_others E F logs v ?b = s\<lparr>sst := w, lpc := after (\<lambda>e. e) (LT_Check v) y\<rparr>"
          by (simp add: l_others_def eb o)
        have "runs_to E F show_io (l_others E F logs v ?b) r t"
        proof (cases y)
          case (Ok z)
          have "visits ks w" using process_dom [of E F q "sst s" y w ks] p ks \<open>x = Ok a\<close> by simp
          then show ?thesis
            unfolding eo Ok after.simps using run p \<open>x = Ok a\<close> Ok nr
            by (intro check_runs [where v = v and ks = ks]) (auto simp: bind_act_def no_readers_def split: if_splits)
        qed (use run p \<open>x = Ok a\<close> in \<open>auto simp: bind_act_def eo intro!: runs_to_here\<close>)
        then show ?thesis using runs_to_step [OF st] by (simp add: l_others_def split: prod.splits)
      qed (use run p in \<open>auto simp: bind_act_def eb intro!: runs_to_here\<close>)
    qed
  qed
qed

lemma log_iter_eq:
  assumes "lt_take th (fst s) = (q, v, th1, c1)"
  shows "log_iter E F ks th s = bind_act (lt_process E F q)
              (\<lambda>_ s2. if lt_should_flush th1 (fst s2)
                      then seq_act (lt_flush E ks) (ret (lt_release v (th1\<lparr>logged := 0\<rparr>))) s2
                      else ret (lt_release v th1) s2) (c1, snd s)"
  using assms by (cases s) (simp add: log_iter_def)

lemma take_runs:
  assumes pc: "lpc s = LT_Start" and pool: "pool_ok (log_pool (sthr s))" and nr: "no_readers s"
    and ks: "visits ks (sst s)" and run: "log_iter E F ks (sthr s) (sst s) = (r, t)"
  shows "runs_to E F show_io s r t"
proof (rule runs_to_step [OF serve.take [OF pc]])
  obtain q v th c where tk: "lt_take (sthr s) (fst (sst s)) = (q, v, th, c)" by (metis prod_cases4)
  have c: "context_map c = context_map (fst (sst s))" using lt_take_spec(2) [OF pool tk] by simp
  have et: "l_take s = s\<lparr>sst := (c, snd (sst s)), sthr := th, lpc := LT_Batch q v, taken := taken s @ q\<rparr>"
    by (simp add: l_take_def tk)
  show "runs_to E F show_io (l_take s) r t"
    using run nr ks
    by (intro batch_runs [where q = q and v = v and ks = ks])
      (simp_all add: et log_iter_eq [OF tk] visits_def c no_readers_def cong: if_cong)
qed (simp add: l_take_def split: prod.splits)

end
