(* ===== verification/Pipeline_Failure.thy ===== *)
theory Pipeline_Failure
  imports Pipeline_Waits
begin

text \<open>
  How the log thread of \<open>Log_Pipeline\<close> ends and what the clients see of it: after its end
  calls of \<open>queue_log\<close> still succeed and nothing is written; the report of its error is
  written behind the last flush and stays in a buffer; and a chunk size of zero ends it at the
  first record.
\<close>

section \<open>After the end\<close>

text \<open>What the steps of the clients leave alone.\<close>

definition files_view :: "'w sys \<Rightarrow> bufw \<times> (rstr \<Rightarrow> bufw option) \<times> fs \<times> log_data list" where
  "files_view s = (global_file (fst (sst s)), context_map (fst (sst s)), w_fs (snd (sst s)), taken s)"

lemma files_view_streams:
  assumes "files_view t = files_view s"
  shows "global_stream (sst t) = global_stream (sst s)" "global_disk (sst t) = global_disk (sst s)"
    "ctx_stream (sst t) = ctx_stream (sst s)" "ctx_disk (sst t) = ctx_disk (sst s)"
  using assms
  by (simp_all add: files_view_def global_stream_def global_disk_def ctx_stream_def ctx_disk_def fun_eq_iff)

lemma client_ops [simp]:
  "global_file (queue_push d c) = global_file c" "context_map (queue_push d c) = context_map c"
  "global_file (queue_signal c) = global_file c" "context_map (queue_signal c) = context_map c"
  "global_file (snd (wait_for_flush_poll c)) = global_file c"
  "context_map (snd (wait_for_flush_poll c)) = context_map c"
  by (simp_all add: queue_push_def queue_signal_def wait_for_flush_poll_def split: prod.splits)

text \<open>A step made while the thread has ended or failed is a client's, or the exit of the thread.\<close>

lemma ended_step:
  assumes "sys_step fair waits E F show_io s t" "\<not> alive (lpc s)"
  obtains (client) ps where "lpc t = lpc s" "files_view t = files_view s" "ctx_ok (sst t) = ctx_ok (sst s)"
      "log_queue (fst (sst t)) = log_queue (fst (sst s)) @ ps" "pushed t = pushed s @ ps"
  | (exit) e ks where "lpc s = LT_Failed e" "visits ks (sst s)" "t = l_exit_flush E ks e s"
  | (report) e now where "lpc s = LT_Report e" "t = l_report E F show_io now e s"
  | (notify) d where "lpc s = LT_Notify d" "t = l_notify E F d s"
proof -
  from assms(1) show ?thesis
  proof (cases rule: sys_step.cases)
    case served
    then show ?thesis
    proof (cases rule: serve.cases)
      case (c_push i d)
      show ?thesis by (rule client [of "[d]"]) (simp_all add: c_push files_view_def ctx_ok_def)
    next
      case (c_signal i)
      show ?thesis by (rule client [of "[]"]) (simp_all add: c_signal files_view_def ctx_ok_def)
    next
      case (c_wake i b)
      show ?thesis by (rule client [of "[]"]) (simp_all add: c_wake files_view_def ctx_ok_def)
    next
      case (c_timeout i)
      show ?thesis by (rule client [of "[]"]) (simp_all add: c_timeout files_view_def ctx_ok_def)
    next
      case (exit e ks)
      from exit that(2) show ?thesis by blast
    next
      case (report e now)
      from report that(3) show ?thesis by blast
    next
      case (notify d)
      from notify that(4) show ?thesis by blast
    qed (use assms(2) in simp_all)
  next
    case (c_queue i d)
    show ?thesis by (rule client [of "[]"]) (simp_all add: c_queue files_view_def ctx_ok_def)
  next
    case (c_wait i b)
    show ?thesis by (rule client [of "[]"]) (simp_all add: c_wait files_view_def ctx_ok_def)
  qed
qed

lemma dead_steps:
  assumes "(sys_step fair waits E F show_io)\<^sup>*\<^sup>* s t" "lpc s = LT_Dead"
  shows "lpc t = LT_Dead \<and> files_view t = files_view s \<and>
    (\<exists>ps. log_queue (fst (sst t)) = log_queue (fst (sst s)) @ ps \<and> pushed t = pushed s @ ps)"
  using assms(1)
proof (induction rule: rtranclp_induct)
  case base
  then show ?case using assms(2) by simp
next
  case (step t u)
  then have dead: "lpc t = LT_Dead" "\<not> alive (lpc t)" by simp_all
  from step.hyps(2) dead(2) show ?case
  proof (cases rule: ended_step)
    case (client ps)
    then show ?thesis using step.IH by force
  qed (use dead in simp_all)
qed

section \<open>The report of the error\<close>

text \<open>Writes that fit behind the buffered bytes touch the buffer only.\<close>

lemma pieces_buffered:
  "length (bw_buf w) + length (concat ps) < bw_capacity \<Longrightarrow>
   for_each (bw_write_all E) ps (f, w) = (Ok (), (f, w\<lparr>bw_buf := bw_buf w @ concat ps\<rparr>))"
proof (induction ps arbitrary: w)
  case (Cons p ps)
  have "length p < bw_capacity - length (bw_buf w)" using Cons.prems by simp
  then have "bw_write_all E p (f, w) = (Ok (), (f, w\<lparr>bw_buf := bw_buf w @ p\<rparr>))"
    by (simp add: bw_write_all_def bw_push_def)
  then show ?case using Cons.IH [of "w\<lparr>bw_buf := bw_buf w @ p\<rparr>"] Cons.prems by simp
qed (simp add: ret_Ok)

lemma write_to_io_buffered:
  assumes "length (bw_buf w) + length (full_line E d) < bw_capacity"
  shows "write_to_io E d (f, w) = (Ok (), (f, w\<lparr>bw_buf := bw_buf w @ full_line E d\<rparr>))"
  using pieces_buffered [of w "map utf8 (full_pieces E d)" E f] assms
  by (simp add: write_to_io_def for_each_map full_line_def utf8_concat)

lemma on_context_global:
  assumes m: "bw_appends bs m" and ok: "ctx_ok s" and run: "on_context tg m s = (r, t)"
  shows "global_disk t = global_disk s \<and> global_stream t = global_stream s"
proof -
  obtain c w where s: "s = (c, w)" by (cases s)
  show ?thesis
  proof (cases "context_map c tg")
    case None
    then show ?thesis using run by (auto simp: on_context_def s)
  next
    case (Some b0)
    obtain f b where mb: "m (w_fs w, b0) = (r, (f, b))"
        "t = (c\<lparr>context_map := (context_map c)(tg \<mapsto> b)\<rparr>, w\<lparr>w_fs := f\<rparr>)"
      using run Some by (auto simp: on_context_def s split: prod.splits)
    have "bw_ok (w_fs w, b0)" using ok Some by (auto simp: ctx_ok_def s)
    then have loc: "bw_local (w_fs w, b0) (f, b)"
      using m mb(1) unfolding bw_appends_def by blast
    have "w_ino (global_file c) \<noteq> w_ino b0" using ok Some by (metis ctx_ok_def fst_conv s)
    then show ?thesis using loc
      by (simp add: mb(2) s global_disk_def global_stream_def bw_disk_def bw_stream_def bw_local_def w_ino_def)
  qed
qed

text \<open>A record logged to a logger whose global buffer is empty does not reach the disk.\<close>

lemma file_do_log_buffered:
  assumes ok: "ctx_ok s" and clean: "clean_global s" and len: "length (full_line E d) < bw_capacity"
    and run: "file_do_log E d s = (r, t)"
  shows "global_disk t = global_disk s \<and> global_stream t = global_stream s @ full_line E d"
proof -
  obtain c w where s: "s = (c, w)" by (cases s)
  let ?g = "global_file c"
  let ?c = "c\<lparr>global_file := ?g\<lparr>bw_buf := full_line E d\<rparr>\<rparr>"
  have b: "bw_buf ?g = []" using clean by (simp add: s clean_global_def)
  have "write_to_io E d (w_fs w, ?g) = (Ok (), (w_fs w, ?g\<lparr>bw_buf := full_line E d\<rparr>))"
    using write_to_io_buffered [of ?g E d "w_fs w"] len b by simp
  then have g: "on_global (write_to_io E d) s = (Ok (), (?c, w))" by (simp add: on_global_def s)
  have base: "global_disk (?c, w) = global_disk s" "global_stream (?c, w) = global_stream s @ full_line E d"
    using b by (simp_all add: global_disk_def global_stream_def bw_disk_def bw_stream_def s)
  have ok1: "ctx_ok (?c, w)"
    using on_global_spec [OF write_to_io_appends ok g] by blast
  show ?thesis
  proof (cases "tag d")
    case None
    then show ?thesis using run g base by (auto simp: file_do_log_def)
  next
    case (Some u)
    then have c: "on_context u (write_compact_to_io E d) (?c, w) = (r, t)"
      using run g by (simp add: file_do_log_def)
    show ?thesis using on_context_global [OF write_compact_to_io_appends ok1 c] base by simp
  qed
qed

text \<open>The steps after an error, on a disk that accepts writes.\<close>

lemma exit_flush_disk:
  fixes s :: "'w sys"
  assumes rel: "reliable E" and ok: "ctx_ok (sst s)" and ks: "visits ks (sst s)"
    and t: "t = l_exit_flush E ks e s"
  shows "lpc t = LT_Report e \<and> ctx_ok (sst t) \<and> clean_global (sst t) \<and> global_disk (sst t) = global_stream (sst s) \<and>
    global_stream (sst t) = global_stream (sst s)"
proof -
  have "is_ok (fst (flush E ks (sst s)))" using flush_reliable [OF rel] unfolding never_fails_def by blast
  then obtain u where f: "flush E ks (sst s) = (Ok (), u)"
    by (cases "flush E ks (sst s)"; cases "fst (flush E ks (sst s))") auto
  have u: "ctx_ok u" "global_stream u = global_stream (sst s)"
    using writes_flush [of "undefined :: env" E ks, unfolded writes_def, rule_format, OF ok f] by (auto simp: grows_def)
  have "all_clean u" using flush_clean [OF ok ks f] by blast
  from this clean_disk(1) [OF this] show ?thesis using u by (simp add: t l_exit_flush_def f all_clean_def)
qed

lemma report_disk:
  fixes s :: "'w sys"
  assumes ok: "ctx_ok (sst s)" "clean_global (sst s)" and nl: "\<not> ft_logcat F"
    and len: "length (full_line E (exit_report show_io now e)) < bw_capacity"
    and t: "t = l_report E F show_io now e s"
  shows "global_disk (sst t) = global_disk (sst s) \<and>
    global_stream (sst t) = global_stream (sst s) @ full_line E (exit_report show_io now e) \<and>
    (lpc t = LT_Dead \<or> lpc t = LT_Notify (exit_report show_io now e))"
proof -
  obtain r u where l: "file_do_log E (exit_report show_io now e) (sst s) = (r, u)" by (meson surj_pair)
  from file_do_log_buffered [OF ok len l] show ?thesis
    using nl by (simp add: t l_report_def do_log_files_def seq_act_def bind_act_def conv_err_def l ret_Ok)
qed

lemma notify_view: "files_view (l_notify E F d s) = files_view s"
proof -
  obtain r t where n: "do_log_rest E F d (sst s) = (r, t)" by (meson surj_pair)
  from world_only_state [OF rest_world_only n] show ?thesis by (simp add: files_view_def l_notify_def n)
qed

text \<open>From a failed thread on, the calls of the clients included.\<close>

definition reported ::
  "'z aenv_scheme \<Rightarrow> (io_error \<Rightarrow> rstr) \<Rightarrow> logger_error \<Rightarrow> 'w st \<Rightarrow> 'w sys \<Rightarrow> bool" where
  "reported E show_io e s0 t \<longleftrightarrow>
     (lpc t = LT_Dead \<or> (\<exists>d. lpc t = LT_Notify d)) \<and> global_disk (sst t) = global_stream s0 \<and>
     (\<exists>now. global_stream (sst t) = global_stream s0 @ full_line E (exit_report show_io now e))"

lemma report_steps:
  assumes run: "(sys_step fair waits E F show_io)\<^sup>*\<^sup>* s t" and pc: "lpc s = LT_Failed e"
    and rel: "reliable E" and ok: "ctx_ok (sst s)" and nl: "\<not> ft_logcat F"
    and len: "\<And>now. length (full_line E (exit_report show_io now e)) < bw_capacity"
  shows "lpc t = LT_Failed e \<and> ctx_ok (sst t) \<and> files_view t = files_view s \<or>
    lpc t = LT_Report e \<and> ctx_ok (sst t) \<and> clean_global (sst t) \<and>
      global_disk (sst t) = global_stream (sst s) \<and> global_stream (sst t) = global_stream (sst s) \<or>
    reported E show_io e (sst s) t"
  using run
proof (induction rule: rtranclp_induct)
  case base
  then show ?case using pc ok by simp
next
  case (step t u)
  from step.IH have dead: "\<not> alive (lpc t)" by (auto simp: reported_def)
  from step.hyps(2) dead show ?case
  proof (cases rule: ended_step)
    case (client ps)
    have "clean_global (sst u) = clean_global (sst t)"
      using client(2) by (simp add: files_view_def clean_global_def split: prod.splits)
    then show ?thesis using step.IH client files_view_streams [OF client(2)] by (auto simp: reported_def)
  next
    case (exit e' ks)
    then have t: "e' = e" "ctx_ok (sst t)" "files_view t = files_view s" using step.IH by (auto simp: reported_def)
    from exit_flush_disk [OF rel t(2) exit(2,3)] show ?thesis using t(1) files_view_streams [OF t(3)] by auto
  next
    case (report e' now)
    then have t: "e' = e" "ctx_ok (sst t)" "clean_global (sst t)" "global_disk (sst t) = global_stream (sst s)"
        "global_stream (sst t) = global_stream (sst s)" using step.IH by (auto simp: reported_def)
    from report_disk [OF t(2,3) nl len report(2) [unfolded t(1)]] show ?thesis
      using t(1,4,5) by (auto simp: reported_def)
  next
    case (notify d)
    then have "reported E show_io e (sst s) t" using step.IH by auto
    then show ?thesis
      using files_view_streams [OF notify_view, of E F d t] notify(2) by (auto simp: reported_def l_notify_def)
  qed
qed

text \<open>With nobody in between the steps are the end of the spawned thread in one piece.\<close>

lemma exit_is_steps:
  fixes s :: "'w sys"
  assumes pc: "lpc s = LT_Failed e" and nr: "no_readers s" and ks: "visits ks (sst s)"
  shows "(serve E F show_io)\<^sup>*\<^sup>* s (s\<lparr>sst := snd (thread_exit E F show_io ks now e (sst s)), lpc := LT_Dead\<rparr>)"
proof -
  let ?d = "exit_report show_io now e"
  let ?a = "l_exit_flush E ks e s" let ?b = "l_report E F show_io now e ?a"
  let ?t = "s\<lparr>sst := snd (thread_exit E F show_io ks now e (sst s)), lpc := LT_Dead\<rparr>"
  have a: "serve E F show_io s ?a" by (rule serve.exit [OF pc nr ks])
  obtain r u where f: "flush E ks (sst s) = (r, u)" by (meson surj_pair)
  obtain x w where d: "do_log_files E F ?d u = (x, w)" by (meson surj_pair)
  have t: "snd (thread_exit E F show_io ks now e (sst s)) =
      (if panics r then u else if is_ok x then snd (do_log_rest E F ?d w) else w)"
    by (cases r; cases x; cases "do_log_rest E F ?d w")
      (auto simp: thread_exit_def log_data_to_def do_log_parts seq_act_def bind_act_def ignore_err_def f d
        split: prod.splits res.splits)
  show ?thesis
  proof (cases "panics r")
    case True
    then have "?a = ?t" by (simp add: l_exit_flush_def f t)
    then show ?thesis using a by (simp add: r_into_rtranclp)
  next
    case False
    then have a': "?a = s\<lparr>sst := u, lpc := LT_Report e\<rparr>" by (simp add: l_exit_flush_def f)
    then have b: "serve E F show_io ?a ?b" using nr by (intro serve.report) (simp_all add: no_readers_def)
    have b': "?b = s\<lparr>sst := w, lpc := (if is_ok x then LT_Notify ?d else LT_Dead)\<rparr>"
      by (simp add: a' l_report_def d)
    have ab: "(serve E F show_io)\<^sup>*\<^sup>* s ?b" using a b by (meson r_into_rtranclp rtranclp.rtrancl_into_rtrancl)
    show ?thesis
    proof (cases "is_ok x")
      case True
      then have "serve E F show_io ?b (l_notify E F ?d ?b)" by (intro serve.notify) (simp add: b')
      moreover have "l_notify E F ?d ?b = ?t" using True False by (simp add: b' l_notify_def t)
      ultimately show ?thesis using ab by (metis rtranclp.rtrancl_into_rtrancl)
    next
      case x: False
      then have "?b = ?t" using False by (simp add: b' t)
      then show ?thesis using ab by simp
    qed
  qed
qed

section \<open>A chunk size of zero\<close>

text \<open>Nothing is ever written, whatever is queued.\<close>

definition zero_inv :: "'w st \<Rightarrow> 'w sys \<Rightarrow> bool" where
  "zero_inv s0 s \<longleftrightarrow> (\<forall>e. lpc s \<noteq> LT_Failed e \<and> lpc s \<noteq> LT_Report e) \<and> (\<forall>d. lpc s \<noteq> LT_Notify d) \<and> (\<forall>logs v. lpc s \<noteq> LT_Others logs v) \<and>
     global_stream (sst s) = global_stream s0 \<and> ctx_stream (sst s) = ctx_stream s0"

lemma zero_alive_streams:
  assumes "pipe_inv E 0 s0 s" "alive (lpc s)" "chunker (it_chunks E)"
  shows "global_stream (sst s) = global_stream s0 \<and> ctx_stream (sst s) = ctx_stream s0"
proof -
  obtain dn logs where w: "split_str_into_chunks E dn 0 = Some logs"
      "grows s0 (sst s) (full_lines E logs) (context_lines E logs)"
    using assms(1,2) by (auto simp: pipe_inv_def written_def)
  have "dn = []" using split_chunks_zero [OF assms(3)] w(1) by (cases "dn = []") auto
  then have "logs = []" using w(1) by (simp add: split_chunks_simps)
  then show ?thesis using w(2) by (auto simp: grows_def option.map_ident fun_eq_iff)
qed

lemma zero_taken:
  assumes "pipe_inv E 0 s0 s" "\<exists>v. lpc s = LT_Blocked v" "chunker (it_chunks E)"
  shows "taken s = []"
proof -
  obtain dn logs where w: "split_str_into_chunks E dn 0 = Some logs" "taken s = dn @ in_hand (lpc s)"
    using assms(1,2) by (auto simp: pipe_inv_def written_def)
  have "dn = []" using split_chunks_zero [OF assms(3)] w(1) by (cases "dn = []") auto
  then show ?thesis using w(2) assms(2) by auto
qed

lemma zero_thread_pc:
  fixes s :: "'w sys"
  assumes step: "serve E F show_io s t" and ch: "chunker (it_chunks E)" and rel: "reliable E"
    and inv: "pipe_inv E 0 s0 s" and z: "zero_inv s0 s"
  shows "(\<forall>e. lpc t \<noteq> LT_Failed e \<and> lpc t \<noteq> LT_Report e) \<and> (\<forall>d. lpc t \<noteq> LT_Notify d) \<and> (\<forall>logs v. lpc t \<noteq> LT_Others logs v) \<and>
    (alive (lpc t) \<or> files_view t = files_view s)"
  using step
proof (cases rule: serve.cases)
  case (batch q v)
  have "max_string_len (config (fst (sst s))) = 0" using inv by (simp add: pipe_inv_def)
  then have "t = (if q = [] then s\<lparr>lpc := LT_Check v\<rparr> else s\<lparr>lpc := LT_Dead\<rparr>)"
    using batch split_chunks_zero [OF ch, of q] by (simp add: l_batch_def)
  then show ?thesis by (simp add: files_view_def)
next
  case (flush v ks)
  obtain r u where f: "lt_flush E ks (sst s) = (r, u)" by (meson surj_pair)
  have "never_fails (lt_flush E ks :: ('w st, logger_error, unit) act)"
    unfolding lt_flush_def by (intro succeeds_conv flush_reliable rel)
  then have "is_ok r" using f by (rule never_failsD)
  then show ?thesis using flush by (simp add: l_flush_def f after_ok)
next
  case take
  then show ?thesis by (simp add: l_take_def split: prod.splits)
qed (use z in \<open>auto simp: zero_inv_def files_view_def l_check_def l_wait_check_def l_wake_def
    queue_push_def queue_signal_def wait_for_flush_poll_def split: prod.splits\<close>)

lemma zero_inv_step:
  assumes "sys_step fair waits E F show_io s t" "chunker (it_chunks E)" "reliable E"
    "pipe_inv E 0 s0 s" "zero_inv s0 s"
  shows "zero_inv s0 t"
  using assms(1)
proof (cases rule: sys_step.cases)
  case served
  note pc = zero_thread_pc [OF served assms(2-5)]
  have "global_stream (sst t) = global_stream s0 \<and> ctx_stream (sst t) = ctx_stream s0"
  proof (cases "alive (lpc t)")
    case True
    then show ?thesis using zero_alive_streams inv_sys_step assms by blast
  next
    case False
    then show ?thesis using pc files_view_streams [of t s] assms(5) by (simp add: zero_inv_def)
  qed
  then show ?thesis using pc by (simp add: zero_inv_def)
qed (use assms(5) in \<open>simp_all add: zero_inv_def\<close>)

interpretation zero: inductive_invariant
  "\<lambda>s. (chunker (it_chunks E) \<and> reliable E) \<and> started s0 0 s" "sys_step fair waits E F show_io"
  "\<lambda>s. (chunker (it_chunks E) \<and> reliable E) \<and> pipe_inv E 0 s0 s \<and> zero_inv s0 s"
proof unfold_locales
  show "(chunker (it_chunks E) \<and> reliable E) \<and> pipe_inv E 0 s0 s \<and> zero_inv s0 s"
    if "(chunker (it_chunks E) \<and> reliable E) \<and> started s0 0 s" for s
    using that inv_sys_init by (auto simp: zero_inv_def sys_init_def)
  show "(chunker (it_chunks E) \<and> reliable E) \<and> pipe_inv E 0 s0 t \<and> zero_inv s0 t"
    if "(chunker (it_chunks E) \<and> reliable E) \<and> pipe_inv E 0 s0 s \<and> zero_inv s0 s"
      "sys_step fair waits E F show_io s t" for s t
    using that inv_sys_step zero_inv_step by blast
qed

end
