(* ===== verification/Text_Files.thy ===== *)
theory Text_Files
  imports Registry_Order
begin

text \<open>
  The types of the strings: a record is well-typed when all its strings are valid Rust
  strings.  Splitting keeps the type, the line of a well-typed record is the UTF-8 encoding
  of a string, and so the files of \<open>Pipeline_Registry\<close> stay valid UTF-8.
\<close>

section \<open>Records and lines\<close>

definition dates_ok :: "'z env_scheme \<Rightarrow> bool" where
  "dates_ok E \<longleftrightarrow> (\<forall>t. rust_str (chrono_format E t))"

lemma rust_str_concat: "rust_str (concat xs) \<longleftrightarrow> (\<forall>x\<in>set xs. rust_str x)"
  by (induction xs) simp_all

lemma rust_str_subset: "rust_str s \<Longrightarrow> set t \<subseteq> set s \<Longrightarrow> rust_str t"
  by (auto simp: rust_str_iff)

lemma unwrap_or_typed: "(\<And>t. x = Some t \<Longrightarrow> rust_str t) \<Longrightarrow> rust_str d \<Longrightarrow> rust_str (unwrap_or x d)"
  by (cases x) simp_all

lemma pieces_typed:
  assumes "dates_ok E" "log_data_ok d"
  shows "rust_str (concat (full_pieces E d))" "rust_str (concat (compact_pieces E d))"
  using assms
  by (auto simp: full_pieces_def compact_pieces_def loc_pieces_def dates_ok_def log_data_ok_def
      show_u32_def DEFAULT_TAG_def scalar_ascii intro!: unwrap_or_typed)

text \<open>Bytes that are the encoding of a string.\<close>

definition text_bytes :: "byte list \<Rightarrow> bool" where
  "text_bytes bs \<longleftrightarrow> (\<exists>x. rust_str x \<and> bs = utf8 x)"

lemma text_bytes_Nil: "text_bytes []"
  unfolding text_bytes_def by (intro exI [of _ "[]"]) simp

lemma text_bytes_append: "text_bytes a \<Longrightarrow> text_bytes b \<Longrightarrow> text_bytes (a @ b)"
  unfolding text_bytes_def by (metis rust_str_simps(3) utf8_append)

lemma text_bytes_decode: "text_bytes bs \<Longrightarrow> from_utf8 bs \<noteq> None"
  by (auto simp: text_bytes_def from_utf8_utf8)

lemma lines_typed:
  assumes "dates_ok E" "\<forall>d\<in>set ds. log_data_ok d"
  shows "text_bytes (full_lines E ds)" "text_bytes (context_lines E ds u)"
proof -
  have line: "text_bytes (full_line E d)" "text_bytes (compact_line E d)" if "log_data_ok d" for d
    using pieces_typed [OF assms(1) that] unfolding text_bytes_def full_line_def compact_line_def by blast+
  from assms(2) show "text_bytes (full_lines E ds)" "text_bytes (context_lines E ds u)"
    by (induction ds) (auto simp: text_bytes_Nil line intro!: text_bytes_append)
qed

section \<open>Splitting\<close>

lemma split_log_typed:
  assumes ch: "chunker (it_chunks E)" and sp: "split_log E mx d = Some ps" and ok: "log_data_ok d"
  shows "\<forall>p\<in>set ps. log_data_ok p"
proof (cases mx)
  case 0
  then show ?thesis using sp chunker.those_chunks_zero [OF ch] by (simp add: split_log_def)
next
  case (Suc n)
  then obtain qs where q: "split_log E mx d = Some qs"
      "concat (map message qs) = filter (\<lambda>c. c \<noteq> 10) (message d)"
      "\<forall>p\<in>set qs. p = d\<lparr>message := message p\<rparr>"
    using split_log_spec [OF ch, of mx d] by blast
  have "log_data_ok p" if "p \<in> set ps" for p
  proof -
    have p: "p \<in> set qs" using that sp q(1) by simp
    have "set (message p) \<subseteq> set (concat (map message qs))" using p by auto
    also have "\<dots> \<subseteq> set (message d)" by (simp add: q(2))
    finally have "rust_str (message p)" using ok rust_str_subset by (auto simp: log_data_ok_def)
    then have "log_data_ok (d\<lparr>message := message p\<rparr>)" using ok by (simp add: log_data_ok_def)
    with q(3) p show ?thesis by metis
  qed
  then show ?thesis by blast
qed

lemma split_chunks_typed:
  assumes ch: "chunker (it_chunks E)"
  shows "split_str_into_chunks E ds mx = Some ps \<Longrightarrow> \<forall>d\<in>set ds. log_data_ok d \<Longrightarrow> \<forall>p\<in>set ps. log_data_ok p"
proof (induction ds arbitrary: ps)
  case (Cons d ds)
  then obtain xs ys where xy: "split_log E mx d = Some xs" "split_str_into_chunks E ds mx = Some ys" "ps = xs @ ys"
    by (auto simp: split_chunks_simps split: option.splits)
  then show ?case using Cons split_log_typed [OF ch xy(1)] by auto
qed (simp add: split_chunks_simps)

section \<open>The files of the running logger\<close>

lemma files_hold_text:
  assumes f: "files_hold E mx s0 s dn" and ch: "chunker (it_chunks E)" and dt: "dates_ok E"
    and ds: "\<forall>d\<in>set dn. log_data_ok d"
  shows "\<exists>bs. text_bytes bs \<and> global_disk (sst (core s)) = global_stream s0 @ bs"
    and "ctx_disk (sst (core s)) u = Some x \<Longrightarrow> \<exists>bs. text_bytes bs \<and> x = base s u @ bs"
proof -
  obtain logs where l: "split_str_into_chunks E dn mx = Some logs"
      "global_disk (sst (core s)) = global_stream s0 @ full_lines E logs"
    using f by (auto simp: files_hold_def)
  then show "\<exists>bs. text_bytes bs \<and> global_disk (sst (core s)) = global_stream s0 @ bs"
    using lines_typed(1) [OF dt split_chunks_typed [OF ch l(1) ds]] by blast
  assume "ctx_disk (sst (core s)) u = Some x"
  then obtain ls where c: "split_str_into_chunks E (drop (since s u) dn) mx = Some ls"
      "x = base s u @ context_lines E ls u"
    using f by (auto simp: files_hold_def)
  have "\<forall>d\<in>set (drop (since s u) dn). log_data_ok d" using ds set_drop_subset by fastforce
  from lines_typed(2) [OF dt split_chunks_typed [OF ch c(1) this]] c(2)
  show "\<exists>bs. text_bytes bs \<and> x = base s u @ bs" by blast
qed

end
