(* ===== verification/Ffi_Calls.thy ===== *)
theory Ffi_Calls
  imports Text_Files
begin

text \<open>
  A process driven from C: any sequence of calls of the functions of \<open>src/ffi.rs\<close> with any
  arguments, and of changes of the client's memory.  Calls whose behaviour is undefined and
  calls that panic, which abort the process, have no next state.  The calls are made one at a
  time, so that no other call gives a signal during a timed wait; calls that overlap are in
  \<open>Log_Pipeline\<close>.  The invariant types every
  string the logger holds, counts the log threads, and says that no sink fails.
\<close>

section \<open>Calls\<close>

inductive ffi_step ::
  "'z aenv_scheme \<Rightarrow> (io_error \<Rightarrow> rstr) \<Rightarrow> 'w proc \<Rightarrow> 'w proc \<Rightarrow> bool"
  for E :: "'z aenv_scheme" and show_io :: "io_error \<Rightarrow> rstr" where
  init: "paper2_init_logger_ffi E conf path s = (Ok b, t) \<Longrightarrow> ffi_step E show_io s t"
| register: "paper2_register_context_id E show_io now p s = (Ok u, t) \<Longrightarrow> ffi_step E show_io s t"
| unregister: "paper2_unregister_context_id E p s = (Ok u, t) \<Longrightarrow> ffi_step E show_io s t"
| queue: "paper2_queue_log_ffi now lv tg msg fl ln col fn s = (Ok b, t) \<Longrightarrow> ffi_step E show_io s t"
| add_sink: "paper2_add_log_sink E callback user_data s = (Ok b, t) \<Longrightarrow> ffi_step E show_io s t"
| wait: "paper2_wait_for_flush s = Some (b, t) \<Longrightarrow> ffi_step E show_io s t"
| wait_timeout: "paper2_wait_flush_timeout ms [] s = (b, t) \<Longrightarrow> ffi_step E show_io s t"
| log_directory: "paper2_get_log_directory s = (Ok p, t) \<Longrightarrow> ffi_step E show_io s t"
| free: "paper2_free_c_string p s = (Ok u, t) \<Longrightarrow> ffi_step E show_io s t"
| memory: "heap_ok h \<Longrightarrow> ffi_step E show_io s (s\<lparr>p_heap := h\<rparr>)"

section \<open>The types of a logger\<close>

definition ctx_typed :: "'w ctx \<Rightarrow> bool" where
  "ctx_typed c \<longleftrightarrow> inited c \<and> (\<forall>d\<in>set (log_queue c). log_data_ok d) \<and>
     (\<forall>u\<in>dom (context_map c). rust_str u) \<and> rust_str (context_log_path (config c)) \<and>
     (\<forall>k\<in>set (sinks c). \<forall>d. never_fails (k d))"

definition proc_typed :: "nat \<Rightarrow> 'w proc \<Rightarrow> bool" where
  "proc_typed n s \<longleftrightarrow> heap_ok (p_heap s) \<and> (\<forall>c. p_logger s = Some c \<longrightarrow> ctx_typed c) \<and>
     w_threads (p_world s) = n + (if p_logger s = None then 0 else 1)"

text \<open>What a logger keeps once it is set: its configuration, and what was queued and added.\<close>

definition logger_later :: "'w proc \<Rightarrow> 'w proc \<Rightarrow> bool" where
  "logger_later s t \<longleftrightarrow> (\<forall>c. p_logger s = Some c \<longrightarrow> (\<exists>d. p_logger t = Some d \<and>
     config d = config c \<and> prefix (log_queue c) (log_queue d) \<and> prefix (sinks c) (sinks d)))"

lemma logger_later_same: "p_logger t = p_logger s \<Longrightarrow> logger_later s t"
  by (simp add: logger_later_def)

lemma logger_later_trans:
  assumes st: "logger_later s t" and tu: "logger_later t u"
  shows "logger_later s u"
  unfolding logger_later_def
proof (intro allI impI)
  fix c assume "p_logger s = Some c"
  then obtain d where d: "p_logger t = Some d" "config d = config c" "prefix (log_queue c) (log_queue d)"
      "prefix (sinks c) (sinks d)"
    using st unfolding logger_later_def by blast
  then obtain e where "p_logger u = Some e" "config e = config d" "prefix (log_queue d) (log_queue e)"
      "prefix (sinks d) (sinks e)"
    using tu unfolding logger_later_def by blast
  with d show "\<exists>e. p_logger u = Some e \<and> config e = config c \<and> prefix (log_queue c) (log_queue e) \<and>
      prefix (sinks c) (sinks e)"
    using prefix_order.order_trans by (intro exI [of _ e]) auto
qed

text \<open>One argument for most calls: the fields of the logger that matter are kept or extended.\<close>

definition keeps_logger :: "nat \<Rightarrow> 'w proc \<Rightarrow> 'w proc \<Rightarrow> bool" where
  "keeps_logger n s t \<longleftrightarrow> (proc_typed n s \<longrightarrow> proc_typed n t) \<and> logger_later s t"

lemma keeps_logger_same:
  "p_logger t = p_logger s \<Longrightarrow> heap_ok (p_heap t) \<or> \<not> heap_ok (p_heap s) \<Longrightarrow>
   w_threads (p_world t) = w_threads (p_world s) \<Longrightarrow> keeps_logger n s t"
  by (auto simp: keeps_logger_def proc_typed_def logger_later_same)

lemma keeps_logger_refl [simp]: "keeps_logger n s s"
  by (rule keeps_logger_same) simp_all

lemma keeps_logger_ctx:
  assumes "p_logger s = Some c" "p_logger t = Some d" "p_heap t = p_heap s"
    "w_threads (p_world t) = w_threads (p_world s)" "ctx_typed c \<Longrightarrow> ctx_typed d" "config d = config c"
    "prefix (log_queue c) (log_queue d)" "prefix (sinks c) (sinks d)"
  shows "keeps_logger n s t"
  using assms by (simp add: keeps_logger_def proc_typed_def logger_later_def)

section \<open>Each call keeps them\<close>

lemma read_lossy_Ok: "read_lossy p s = (Ok x, t) \<Longrightarrow> t = s \<and> rust_str x"
  by (auto simp: read_lossy_def read_cstr_def bind_act_def ret_Ok split: option.splits)

lemma read_opt_Ok: "read_opt p s = (Ok x, t) \<Longrightarrow> t = s \<and> (\<forall>y. x = Some y \<longrightarrow> rust_str y)"
  by (auto simp: read_opt_def ret_Ok split: if_splits elim!: bind_act_OkE dest!: read_lossy_Ok)

lemma queue_log_typed: "ctx_typed c \<Longrightarrow> log_data_ok d \<Longrightarrow> ctx_typed (queue_log d c)"
  by (auto simp: ctx_typed_def queue_log_def queue_push_def queue_signal_def)

lemma queue_log_sinks: "sinks (queue_log d c) = sinks c"
  by (simp add: queue_log_def)

text \<open>A call that returns has queued a well-typed record, or done nothing.\<close>

lemma queue_call_form:
  assumes run: "paper2_queue_log_ffi now lv tg msg fl ln col fn s = (Ok b, t)"
  obtains (same) "t = s"
  | (queued) d where "t = s\<lparr>p_logger := map_option (queue_log d) (p_logger s)\<rparr>" "log_data_ok d"
proof (cases "msg = 0 \<or> fl = 0 \<or> p_logger s = None")
  case True
  then show ?thesis using run same
    by (auto simp: paper2_queue_log_ffi_def with_logger_def get_logger_def ret_Ok split: if_splits)
next
  case False
  then obtain tt s1 m s2 f s3 nn s4 where r: "read_opt tg s = (Ok tt, s1)" "read_lossy msg s1 = (Ok m, s2)"
      "read_lossy fl s2 = (Ok f, s3)" "read_opt fn s3 = (Ok nn, s4)"
    and t: "t = s4\<lparr>p_logger := map_option (queue_log ((log_data_default now)\<lparr>level := lv, tag := tt,
        message := m, file_name := f, line := ln, column := col, function_name := nn\<rparr>)) (p_logger s4)\<rparr>"
    using run by (auto simp: paper2_queue_log_ffi_def with_logger_def get_logger_def set_ctx_def ret_Ok
        elim!: bind_act_OkE seq_act_OkE)
  note rd = read_opt_Ok [OF r(1)] read_lossy_Ok [OF r(2)] read_lossy_Ok [OF r(3)] read_opt_Ok [OF r(4)]
  have "log_data_ok ((log_data_default now)\<lparr>level := lv, tag := tt, message := m,
      file_name := f, line := ln, column := col, function_name := nn\<rparr>)"
    using rd by (simp add: log_data_ok_def)
  moreover have "s4 = s" using rd by simp
  ultimately show ?thesis using t queued by simp
qed

lemma queue_call_keeps:
  assumes "paper2_queue_log_ffi now lv tg msg fl ln col fn s = (Ok b, t)"
  shows "keeps_logger n s t"
  using assms
proof (cases rule: queue_call_form)
  case (queued d)
  show ?thesis
  proof (cases "p_logger s")
    case (Some c)
    then show ?thesis using queued
      by (intro keeps_logger_ctx [OF Some, where d = "queue_log d c"])
        (simp_all add: queue_log_typed queue_log_simps queue_log_sinks)
  next
    case None
    then show ?thesis by (intro keeps_logger_same) (simp_all add: queued)
  qed
qed simp

text \<open>Paths and messages of errors are strings again.\<close>

lemma strip_rev_set: "set (strip_rev r) \<subseteq> set r"
  by (induction r) auto

lemma with_extension_set: "set (with_extension p ext) \<subseteq> set p \<union> {46} \<union> set ext"
proof -
  let ?r = "strip_rev (rev p)"
  obtain a d where l: "last_comp p = (a, d)" by (meson surj_pair)
  have r: "set ?r \<subseteq> set p" using strip_rev_set [of "rev p"] by simp
  have "a = takeWhile (\<lambda>c. c \<noteq> 47) ?r" "d = dropWhile (\<lambda>c. c \<noteq> 47) ?r"
    using l by (simp_all add: last_comp_def Let_def)
  then have "set a \<subseteq> set ?r" "set d \<subseteq> set ?r" by (auto dest: set_takeWhileD set_dropWhileD)
  then have "set a \<subseteq> set p" "set d \<subseteq> set p" using r by blast+
  moreover have "set (tl (dropWhile (\<lambda>c. c \<noteq> 46) a)) \<subseteq> set a"
    by (metis list.set_sel(2) set_dropWhileD subsetI tl_Nil)
  then have "set (file_stem_rev a) \<subseteq> set a" by (simp add: file_stem_rev_def Let_def)
  ultimately show ?thesis by (auto simp: with_extension_def l)
qed

lemma context_path_typed:
  assumes "rust_str (context_log_path (config c))" "rust_str t"
  shows "rust_str (context_path c t)"
proof -
  have "set (path_join b t) \<subseteq> set b \<union> set t \<union> {47}" for b by (auto simp: path_join_def)
  then have "set (context_path c t) \<subseteq> set (context_log_path (config c)) \<union> set t \<union> {46, 47} \<union> set (lit ''log'')"
    using with_extension_set unfolding context_path_def by blast
  moreover have "scalar 46" "scalar 47" by (simp_all add: scalar_def)
  moreover have "rust_str (lit ''log'')" by simp
  ultimately show ?thesis using assms unfolding rust_str_iff by blast
qed

lemma context_report_typed:
  assumes "\<And>e. rust_str (show_io e)" "rust_str t" "rust_str p"
  shows "log_data_ok (context_report show_io now t (IoSpecificError e (Some (lit x)) p))"
  using assms by (simp add: log_data_ok_def context_report_def log_data_default_def debug_opt_def scalar_def)

lemma ctx_typed_map:
  "ctx_typed c \<Longrightarrow> rust_str t \<Longrightarrow> ctx_typed (c\<lparr>context_map := (context_map c)(t := b)\<rparr>)"
  by (auto simp: ctx_typed_def split: if_splits)

lemma register_call_keeps:
  fixes s :: "'w proc"
  assumes show_io: "\<And>e. rust_str (show_io e)"
    and run: "paper2_register_context_id E show_io now p s = (Ok u, t)"
  shows "keeps_logger n s t"
proof (cases "p = 0 \<or> p_logger s = None")
  case True
  then have "t = s" using run
    by (auto simp: paper2_register_context_id_def with_logger_def get_logger_def split: if_splits)
  then show ?thesis by simp
next
  case False
  then obtain c where c: "p_logger s = Some c" by auto
  obtain tg s1 where rd: "read_lossy p s = (Ok tg, s1)"
    and m: "(case add_context E tg (c, p_world s1) of
                   (Ok u, (c, w)) \<Rightarrow> (Ok (), s1\<lparr>p_logger := Some c, p_world := w\<rparr>)
                 | (Err e, (c, w)) \<Rightarrow>
                     (Ok (), s1\<lparr>p_logger := Some (queue_log (context_report show_io now tg e) c),
                               p_world := w\<rparr>)
                 | (Panic x, (c, w)) \<Rightarrow> (Panic x, s1\<lparr>p_logger := Some c, p_world := w\<rparr>)) = (Ok u :: (fault, unit) res, t)"
    using run False c
    by (simp add: paper2_register_context_id_def with_logger_def get_logger_def)
      (erule bind_act_OkE, rule that, assumption, simp)
  have s1: "s1 = s" "rust_str tg" using read_lossy_Ok [OF rd] by simp_all
  obtain r d w where a: "add_context E tg (c, p_world s) = (r, (d, w))" by (metis prod_cases3)
  show ?thesis
  proof (cases r)
    case (Ok x)
    then obtain h where "d = c\<lparr>context_map := (context_map c)(tg \<mapsto> bw_new h)\<rparr>" "w_threads w = w_threads (p_world s)"
      using a by (auto simp: add_context_def Let_def split: prod.splits res.splits)
    then show ?thesis using m ctx_typed_map [OF _ s1(2), of c]
      by (intro keeps_logger_ctx [OF c, where d = d]) (auto simp: s1 a Ok)
  next
    case (Err e)
    obtain fr f where fc: "file_create E (context_path c tg) (w_fs (p_world s)) = (fr, f)" by (meson surj_pair)
    obtain x where x: "fr = Err x" by (cases fr) (use a Err in \<open>simp_all add: add_context_def Let_def fc\<close>)
    have e: "e = IoSpecificError x (Some (lit ''Unable to create context file'')) (context_path c tg)"
        "d = c" "w_threads w = w_threads (p_world s)"
      using a Err by (auto simp: add_context_def Let_def fc x)
    have typed: "ctx_typed (queue_log (context_report show_io now tg e) c)" if "ctx_typed c"
    proof -
      have "rust_str (context_path c tg)"
        using that s1(2) by (intro context_path_typed) (simp_all add: ctx_typed_def)
      from context_report_typed [OF show_io s1(2) this] show ?thesis
        unfolding e(1) by (rule queue_log_typed [OF that])
    qed
    show ?thesis
      by (rule keeps_logger_ctx [OF c, where d = "queue_log (context_report show_io now tg e) c"])
        (use m typed e(2,3) in \<open>auto simp: s1 a Err queue_log_simps queue_log_sinks\<close>)
  next
    case (Panic x)
    then show ?thesis using m by (simp add: s1 a)
  qed
qed

lemma unregister_call_keeps:
  assumes "paper2_unregister_context_id E p s = (Ok u, t)"
  shows "keeps_logger n s t"
proof (cases "p = 0 \<or> p_logger s = None")
  case True
  then have "t = s" using assms
    by (auto simp: paper2_unregister_context_id_def with_logger_def get_logger_def split: if_splits)
  then show ?thesis by simp
next
  case False
  then obtain c where c: "p_logger s = Some c" by auto
  obtain tg s1 where rd: "read_lossy p s = (Ok tg, s1)"
    and m: "(case remove_context E tg (c, p_world s1) of
        (c, w) \<Rightarrow> (Ok (), s1\<lparr>p_logger := Some c, p_world := w\<rparr>)) = (Ok u :: (fault, unit) res, t)"
    using assms False c
    by (simp add: paper2_unregister_context_id_def with_logger_def get_logger_def)
      (erule bind_act_OkE, rule that, assumption, simp)
  have s1: "s1 = s" "rust_str tg" using read_lossy_Ok [OF rd] by simp_all
  have "t = s\<lparr>p_logger := Some (c\<lparr>context_map := (context_map c)(tg := None)\<rparr>),
      p_world := (p_world s)\<lparr>w_fs := drop_opt E (context_map c tg) (w_fs (p_world s))\<rparr>\<rparr>"
    using m by (simp add: s1 remove_context_def)
  then show ?thesis using ctx_typed_map [OF _ s1(2), of c]
    by (intro keeps_logger_ctx [OF c, where d = "c\<lparr>context_map := (context_map c)(tg := None)\<rparr>"]) auto
qed

lemma ctx_new_init: "ctx_new E cfg p f = (Ok c, g) \<Longrightarrow> \<exists>b. c = ctx_init cfg b"
  by (auto simp: ctx_new_def elim!: seq_act_OkE bind_act_OkE)

lemma init_logger_keeps:
  fixes s :: "'w proc"
  assumes run: "init_logger E cfg p s = (Ok (), t)" and cfg: "rust_str (context_log_path cfg)"
  shows "keeps_logger n s t"
proof (cases "p_logger s")
  case None
  show ?thesis
  proof (rule make_logger_cases [of E cfg p "p_world s"])
    fix c g
    assume n: "ctx_new E cfg p (w_fs (p_world s)) = (Ok c, g)"
      and m: "make_logger E cfg p (p_world s) =
        (Ok (c\<lparr>inited := True\<rparr>), (p_world s)\<lparr>w_fs := g, w_threads := Suc (w_threads (p_world s))\<rparr>)"
    have t: "t = s\<lparr>p_logger := Some (c\<lparr>inited := True\<rparr>),
        p_world := (p_world s)\<lparr>w_fs := g, w_threads := Suc (w_threads (p_world s))\<rparr>\<rparr>"
      using run None m by (simp add: init_logger_def)
    obtain b where "c = ctx_init cfg b" using ctx_new_init [OF n] by blast
    then show ?thesis using cfg None
      by (simp add: keeps_logger_def logger_later_def proc_typed_def t ctx_typed_def ctx_init_def)
  next
    fix e g
    assume "make_logger E cfg p (p_world s) = (Panic ''Unable to create logger'', (p_world s)\<lparr>w_fs := g\<rparr>)"
    then show ?thesis using run None by (simp add: init_logger_def)
  qed
next
  case (Some c)
  then show ?thesis using run by (simp add: init_logger_def)
qed

lemma init_call_cases:
  assumes run: "paper2_init_logger_ffi E conf path s = (Ok b, t)"
  shows "\<not> b \<and> t = s \<or>
    (\<exists>cfg ps. init_logger E cfg ps s = (Ok (), t) \<and> rust_str (context_log_path cfg))"
proof (cases "path = 0")
  case True
  then show ?thesis using run by (auto simp: paper2_init_logger_ffi_def ret_Ok)
next
  case False
  then obtain bs s1 where r: "read_cstr path s = (Ok bs, s1)"
      "(case from_utf8 bs of None \<Rightarrow> ret False
        | Some path_str \<Rightarrow> bind_act (case conf of None \<Rightarrow> ret default_config | Some k \<Rightarrow> config_from k)
            (\<lambda>cfg s. case init_logger E cfg path_str s of (Ok u, t) \<Rightarrow> (Ok True, t)
               | (Err e, t) \<Rightarrow> (Ok False, t) | (Panic p, t) \<Rightarrow> (Panic p, t))) s1 = (Ok b, t)"
    using run by (auto simp: paper2_init_logger_ffi_def elim!: bind_act_OkE)
  have s1: "s1 = s" using r(1) by (auto simp: read_cstr_def split: option.splits)
  show ?thesis
  proof (cases "from_utf8 bs")
    case None
    then show ?thesis using r(2) by (auto simp: s1 ret_Ok)
  next
    case (Some ps)
    then obtain cfg s2 where cfg: "(case conf of None \<Rightarrow> ret default_config | Some k \<Rightarrow> config_from k) s1 = (Ok cfg, s2)"
        "(case init_logger E cfg ps s2 of (Ok u, t) \<Rightarrow> (Ok True, t)
               | (Err e, t) \<Rightarrow> (Ok False, t) | (Panic p, t) \<Rightarrow> (Panic p, t)) = (Ok b :: (fault, bool) res, t)"
      using r(2) by (simp only: option.case) (erule bind_act_OkE, rule that, assumption, simp)
    have c: "s2 = s \<and> rust_str (context_log_path cfg)"
      using cfg(1) by (auto simp: s1 default_config_def config_from_def split: option.splits
          elim!: bind_act_OkE dest!: read_lossy_Ok)
    have "init_logger E cfg ps s = (Ok (), t)"
      using cfg(2) init_logger_no_Err [of E cfg ps s] c by (auto split: prod.splits res.splits)
    then show ?thesis using c by blast
  qed
qed

lemma init_call_keeps:
  assumes "paper2_init_logger_ffi E conf path s = (Ok b, t)"
  shows "keeps_logger n s t"
  using init_call_cases [OF assms] init_logger_keeps by fastforce

text \<open>The first start leaves an empty logger with an empty global file.\<close>

lemma init_call_starts:
  assumes ok: "proc_ok s" and none: "p_logger s = None" and l: "p_logger t = Some c"
    and run: "paper2_init_logger_ffi E conf path s = (Ok b, t)"
  shows "ctx_ok (c, p_world t) \<and> clean_global (c, p_world t) \<and> log_queue c = [] \<and>
    global_stream (c, p_world t) = [] \<and> context_map c = Map.empty \<and> sinks c = [] \<and> p_heap t = p_heap s \<and> inited c"
proof -
  have "\<not> (\<not> b \<and> t = s)" using none l by auto
  then obtain cfg ps where i: "init_logger E cfg ps s = (Ok (), t)" using init_call_cases [OF run] by blast
  show ?thesis
  proof (rule make_logger_cases [of E cfg ps "p_world s"])
    fix d g
    assume n: "ctx_new E cfg ps (w_fs (p_world s)) = (Ok d, g)"
      and m: "make_logger E cfg ps (p_world s) =
        (Ok (d\<lparr>inited := True\<rparr>), (p_world s)\<lparr>w_fs := g, w_threads := Suc (w_threads (p_world s))\<rparr>)"
    have t: "c = d\<lparr>inited := True\<rparr>" "w_fs (p_world t) = g" "p_heap t = p_heap s"
      using i none m l by (auto simp: init_logger_def)
    have "fs_ok (w_fs (p_world s))" using ok by (simp add: proc_ok_def)
    from ctx_new_ok [OF n this, of "p_world s"] show ?thesis
      by (simp add: t ctx_ok_def all_clean_def clean_global_def global_stream_def)
  next
    fix e g
    assume "make_logger E cfg ps (p_world s) = (Panic ''Unable to create logger'', (p_world s)\<lparr>w_fs := g\<rparr>)"
    then show ?thesis using i none by (simp add: init_logger_def)
  qed
qed

lemma set_logger_keeps:
  assumes "p_logger s = Some c" "sinks d = sinks c @ ks" "\<And>k x. k \<in> set ks \<Longrightarrow> never_fails (k x)"
    "inited d = inited c" "log_queue d = log_queue c" "context_map d = context_map c" "config d = config c"
  shows "keeps_logger n s (s\<lparr>p_logger := Some d\<rparr>)"
  by (rule keeps_logger_ctx [OF assms(1), where d = d]) (use assms in \<open>auto simp: ctx_typed_def\<close>)

lemma other_calls_keep:
  "paper2_add_log_sink E callback user_data s = (Ok b, t) \<Longrightarrow> keeps_logger n s t"
  "paper2_wait_for_flush s = Some (b, t) \<Longrightarrow> keeps_logger n s t"
  "paper2_wait_flush_timeout ms [] s = (b, t) \<Longrightarrow> keeps_logger n s t"
proof -
  have sink: "never_fails (callback_sink E callback user_data d)" for d
    by (simp add: never_fails_def callback_sink_ok)
  show "keeps_logger n s t" if "paper2_add_log_sink E callback user_data s = (Ok b, t)"
  proof (cases "p_logger s")
    case None
    then show ?thesis using that by (simp add: paper2_add_log_sink_def with_logger_def get_logger_def)
  next
    case (Some c)
    then have "t = s\<lparr>p_logger := Some (add_sink (callback_sink E callback user_data) c)\<rparr>"
      using that by (simp add: paper2_add_log_sink_def with_logger_def get_logger_def set_ctx_def
          seq_act_def bind_act_def ret_Ok)
    moreover have "keeps_logger n s (s\<lparr>p_logger := Some (add_sink (callback_sink E callback user_data) c)\<rparr>)"
      by (rule set_logger_keeps [OF Some, where ks = "[callback_sink E callback user_data]"])
        (simp_all add: add_sink_def sink)
    ultimately show ?thesis by simp
  qed
  have polled: "keeps_logger n s (s\<lparr>p_logger := Some (snd (wait_for_flush_poll c))\<rparr>)" if "p_logger s = Some c" for c
    by (rule set_logger_keeps [OF that, where ks = "[]"])
      (simp_all add: wait_for_flush_poll_def split: prod.splits)
  show "keeps_logger n s t" if "paper2_wait_for_flush s = Some (b, t)"
    using that polled
    by (auto simp: paper2_wait_for_flush_def get_logger_def split: option.splits prod.splits bool.splits)
  show "keeps_logger n s t" if "paper2_wait_flush_timeout ms [] s = (b, t)"
    using that polled by (auto simp: wait_flush_timeout_alone get_logger_def split: option.splits)
qed

lemma memory_calls_keep:
  "paper2_get_log_directory s = (Ok p, t) \<Longrightarrow> keeps_logger n s t"
  "paper2_free_c_string q s = (Ok u, t) \<Longrightarrow> keeps_logger n s t"
  by (auto simp: paper2_get_log_directory_def paper2_free_c_string_def get_logger_def
      split: option.splits prod.splits if_splits dest: heap_ok_alloc heap_ok_dealloc
      intro!: keeps_logger_same)

lemma ffi_step_keeps:
  assumes "\<And>e. rust_str (show_io e)"
  shows "ffi_step E show_io s t \<Longrightarrow> keeps_logger n s t"
proof (induction rule: ffi_step.induct)
  case register
  then show ?case by (rule register_call_keeps [OF assms])
next
  case (memory h s)
  then show ?case by (intro keeps_logger_same) simp_all
qed (blast intro: init_call_keeps unregister_call_keeps queue_call_keeps other_calls_keep memory_calls_keep)+

text \<open>A process that has not called the logger yet.\<close>

definition fresh_proc :: "nat \<Rightarrow> 'w proc \<Rightarrow> bool" where
  "fresh_proc n s \<longleftrightarrow> heap_ok (p_heap s) \<and> p_logger s = None \<and> w_threads (p_world s) = n"

definition show_typed :: "(io_error \<Rightarrow> rstr) \<Rightarrow> bool" where
  "show_typed show_io \<longleftrightarrow> (\<forall>e. rust_str (show_io e))"

interpretation ffi: inductive_invariant
  "\<lambda>s. show_typed show_io \<and> fresh_proc n s" "ffi_step E show_io"
  "\<lambda>s. show_typed show_io \<and> proc_typed n s"
proof unfold_locales
  show "show_typed show_io \<and> proc_typed n s" if "show_typed show_io \<and> fresh_proc n s" for s
    using that by (simp add: fresh_proc_def proc_typed_def)
  show "show_typed show_io \<and> proc_typed n t"
    if "show_typed show_io \<and> proc_typed n s" "ffi_step E show_io s t" for s t
    using that ffi_step_keeps [of show_io E s t n] by (simp add: keeps_logger_def show_typed_def)
qed

lemma ffi_steps_later:
  assumes "show_typed show_io"
  shows "(ffi_step E show_io)\<^sup>*\<^sup>* s t \<Longrightarrow> logger_later s t"
proof (induction rule: rtranclp_induct)
  case base
  then show ?case by (simp add: logger_later_same)
next
  case (step t u)
  have "logger_later t u"
    using ffi_step_keeps [OF _ step.hyps(2)] assms by (auto simp: keeps_logger_def show_typed_def)
  with step.IH show ?case by (rule logger_later_trans)
qed

end
