(* ===== verification/C_Program.thy ===== *)
theory C_Program
  imports Ffi_Calls Registry_Anywhere
begin

text \<open>
  A C program and the log thread in one process: calls of the functions of \<open>src/ffi.rs\<close>, one
  at a time, interleaved with the steps of the thread.  Each call that leaves no
  context on the global file is a run of the steps of \<open>Registry_Anywhere\<close>, so what holds of all
  runs there holds of every C program whose calls do (\<open>sparing\<close>).
\<close>

section \<open>A call as steps of the system\<close>

text \<open>The process as the functions see it, between two calls.\<close>

definition live_proc :: "heap \<Rightarrow> 'w live \<Rightarrow> 'w proc" where
  "live_proc h s = \<lparr>p_heap = h, p_logger = Some (fst (sst (core s))), p_world = snd (sst (core s))\<rparr>"

definition calm :: "'w live \<Rightarrow> bool" where
  "calm s \<longleftrightarrow> clients (core s) = (\<lambda>_. C_Idle) \<and> owes s = Map.empty"

text \<open>No context of the process is on the global file.\<close>

definition spares_global :: "'w proc \<Rightarrow> bool" where
  "spares_global p \<longleftrightarrow> (\<forall>c u b. p_logger p = Some c \<longrightarrow> context_map c u = Some b \<longrightarrow>
     w_ino b \<noteq> w_ino (global_file c))"

definition answers ::
  "bool \<Rightarrow> 'z aenv_scheme \<Rightarrow> features \<Rightarrow> (io_error \<Rightarrow> rstr) \<Rightarrow> 'w live \<Rightarrow> 'w proc \<Rightarrow> bool" where
  "answers fair E F show_io s t \<longleftrightarrow> (\<exists>s' ds. (free_step fair True E F show_io)\<^sup>*\<^sup>* s s' \<and> calm s' \<and>
     t = live_proc (p_heap t) s' \<and> sthr (core s') = sthr (core s) \<and> lpc (core s') = lpc (core s) \<and>
     log_queue (fst (sst (core s'))) = log_queue (fst (sst (core s))) @ ds \<and>
     pushed (core s') = pushed (core s) @ ds)"

lemma answersI:
  assumes "(free_step fair True E F show_io)\<^sup>*\<^sup>* s s'" "calm s'" "p_logger t = Some (fst (sst (core s')))"
    "p_world t = snd (sst (core s'))" "sthr (core s') = sthr (core s)" "lpc (core s') = lpc (core s)"
    "log_queue (fst (sst (core s'))) = log_queue (fst (sst (core s))) @ ds"
    "pushed (core s') = pushed (core s) @ ds"
  shows "answers fair E F show_io s t"
proof -
  have "t = live_proc (p_heap t) s'" using assms(3,4) by (simp add: live_proc_def)
  with assms show ?thesis unfolding answers_def by blast
qed

lemma answers_same:
  assumes "calm s" "p_logger t = Some (fst (sst (core s)))" "p_world t = snd (sst (core s))"
  shows "answers fair E F show_io s t"
  by (rule answersI [OF rtranclp.rtrancl_refl, where ds = "[]"]) (use assms in simp_all)

text \<open>While no report is owed, the steps of the pipeline are steps of the system.\<close>

lemma sys_steps_free:
  assumes "(sys_step fair True E F show_io)\<^sup>*\<^sup>* (core s) t" "owes s = Map.empty"
  shows "(free_step fair True E F show_io)\<^sup>*\<^sup>* s (s\<lparr>core := t\<rparr>)"
  using assms(1)
proof (induction rule: rtranclp_induct)
  case base
  then show ?case by simp
next
  case (step t u)
  have "free_step fair True E F show_io (s\<lparr>core := t\<rparr>) ((s\<lparr>core := t\<rparr>)\<lparr>core := u\<rparr>)"
    by (rule live_step.call) (use step.hyps(2) assms(2) in simp_all)
  with step.IH show ?case by simp
qed

lemma queue_answers:
  assumes "calm s" "may_read fair (core s)" "p_logger t = Some (queue_log d (fst (sst (core s))))"
    "p_world t = snd (sst (core s))"
  shows "answers fair E F show_io s t"
proof -
  have q: "(sys_step fair True E F show_io)\<^sup>*\<^sup>* (core s) (queued_one 0 d (core s))"
    by (rule queue_one_steps) (use assms in \<open>simp_all add: calm_def\<close>)
  have f: "(free_step fair True E F show_io)\<^sup>*\<^sup>* s (s\<lparr>core := queued_one 0 d (core s)\<rparr>)"
    by (rule sys_steps_free [OF q]) (use assms in \<open>simp add: calm_def\<close>)
  show ?thesis
    by (rule answersI [OF f, where ds = "[d]"])
      (use assms in \<open>simp_all add: calm_def queued_one_def queue_log_fields\<close>)
qed

text \<open>A call of \<open>wait_for_flush\<close> that returns, with or without a signal.\<close>

lemma wait_answers:
  assumes c: "calm s" and m: "may_read fair (core s)"
    and t: "p_logger t = Some (snd (wait_for_flush_poll (fst (sst (core s)))))" "p_world t = snd (sst (core s))"
    and b: "fst (wait_for_flush_poll (fst (sst (core s)))) \<or> tmd"
  shows "answers fair E F show_io s t"
proof -
  let ?st = "sys_step fair True E F show_io"
  let ?a = "set_client 0 (C_Wait tmd) (core s)"
  have idle: "clients (core s) = (\<lambda>_. C_Idle)" using c by (simp add: calm_def)
  have a: "?st (core s) ?a" by (rule sys_step.c_wait) (use idle m in simp_all)
  show ?thesis
  proof (cases "fst (wait_for_flush_poll (fst (sst (core s))))")
    case True
    let ?b = "map_ctx (\<lambda>c. snd (wait_for_flush_poll c)) (set_client 0 C_Idle ?a)"
    have b: "?st ?a ?b" by (intro sys_step.served serve.c_wake) (use True in simp_all)
    from a b have "?st\<^sup>*\<^sup>* (core s) ?b" by (meson rtranclp.rtrancl_into_rtrancl rtranclp.rtrancl_refl)
    then have f: "(free_step fair True E F show_io)\<^sup>*\<^sup>* s (s\<lparr>core := ?b\<rparr>)"
      by (rule sys_steps_free) (use c in \<open>simp add: calm_def\<close>)
    show ?thesis
      by (rule answersI [OF f, where ds = "[]"]) (use c t idle in \<open>simp_all add: calm_def fun_eq_iff\<close>)
  next
    case False
    then have tm: tmd using b by simp
    have w: "snd (wait_for_flush_poll (fst (sst (core s)))) = fst (sst (core s))"
      using False by (auto simp: wait_for_flush_poll_def sem_poll_def split: if_splits)
    let ?b = "set_client 0 C_Idle ?a"
    have b: "?st ?a ?b" by (intro sys_step.served serve.c_timeout) (use tm in simp_all)
    from a b have "?st\<^sup>*\<^sup>* (core s) ?b" by (meson rtranclp.rtrancl_into_rtrancl rtranclp.rtrancl_refl)
    then have f: "(free_step fair True E F show_io)\<^sup>*\<^sup>* s (s\<lparr>core := ?b\<rparr>)"
      by (rule sys_steps_free) (use c in \<open>simp add: calm_def\<close>)
    show ?thesis
      by (rule answersI [OF f, where ds = "[]"]) (use c t idle w in \<open>simp_all add: calm_def fun_eq_iff\<close>)
  qed
qed

section \<open>The calls\<close>

lemma proc_logger [simp]: "p_logger (live_proc h s) = Some (fst (sst (core s)))"
    "p_world (live_proc h s) = snd (sst (core s))"
  by (simp_all add: live_proc_def)

lemma register_answers:
  assumes c: "calm s" and m: "may_read fair (core s)" and sp: "spares_global t"
    and run: "paper2_register_context_id E show_io now p (live_proc h s) = (Ok u, t)"
  shows "answers fair E F show_io s t"
proof (cases "p = 0")
  case True
  then show ?thesis using run c by (intro answers_same) (auto simp: paper2_register_context_id_def)
next
  case False
  obtain tg s1 where rd: "read_lossy p (live_proc h s) = (Ok tg, s1)"
    using run False by (auto simp: paper2_register_context_id_def with_logger_def get_logger_def elim!: bind_act_OkE)
  have s1: "s1 = live_proc h s" using read_lossy_Ok [OF rd] by simp
  obtain r d w where a: "add_context E tg (sst (core s)) = (r, (d, w))" by (metis prod_cases3)
  have t: "(case (r, (d, w)) of
        (Ok u, (c, w)) \<Rightarrow> (Ok (), live_proc h s\<lparr>p_logger := Some c, p_world := w\<rparr>)
      | (Err e, (c, w)) \<Rightarrow> (Ok (), live_proc h s\<lparr>p_logger := Some (queue_log (context_report show_io now tg e) c), p_world := w\<rparr>)
      | (Panic x, (c, w)) \<Rightarrow> (Panic x, live_proc h s\<lparr>p_logger := Some c, p_world := w\<rparr>)) = (Ok u :: (fault, unit) res, t)"
    using run False rd
    by (simp add: paper2_register_context_id_def with_logger_def get_logger_def bind_act_def s1 a del: prod.case)
  have nr: "no_readers (core s)" "owes s 0 = None" using c by (simp_all add: calm_def no_readers_def)
  let ?s = "register_step E show_io now 0 tg s"
  have q: "log_queue d = log_queue (fst (sst (core s)))"
    using add_context_fields(1) [OF a] by (simp add: same_queue_def)
  have free: "free_step fair True E F show_io s ?s" if "apart E tg (sst (core s))"
    by (rule live_step.register [OF nr]) (rule that)
  show ?thesis
  proof (cases r)
    case (Ok x)
    have ap: "apart E tg (sst (core s))"
      unfolding apart_def
    proof (intro impI)
      assume "creates E (context_path (fst (sst (core s))) tg) (w_fs (snd (sst (core s))))"
      then obtain g where g: "file_create E (context_path (fst (sst (core s))) tg) (w_fs (snd (sst (core s)))) =
          (Ok \<lparr>f_ino = ino_for E (context_path (fst (sst (core s))) tg) (w_fs (snd (sst (core s)))), f_pos = 0\<rparr>, g)"
        by (rule file_create_Ok)
      then have d: "context_map d tg = Some (bw_new \<lparr>f_ino = ino_for E (context_path (fst (sst (core s))) tg)
            (w_fs (snd (sst (core s)))), f_pos = 0\<rparr>)" "global_file d = global_file (fst (sst (core s)))"
        using a by (auto simp: add_context_def Let_def split: prod.splits)
      have "p_logger t = Some d" using t by (simp add: Ok) auto
      from sp [unfolded spares_global_def, rule_format, OF this d(1)]
      show "ino_for E (context_path (fst (sst (core s))) tg) (w_fs (snd (sst (core s)))) \<noteq>
          w_ino (global_file (fst (sst (core s))))"
        by (simp add: bw_new_def w_ino_def d(2))
    qed
    show ?thesis
      by (rule answersI [OF r_into_rtranclp [where r = "free_step fair True E F show_io", OF free [OF ap]], where ds = "[]"])
        (use t c q in \<open>auto simp: register_step_def a Ok calm_def\<close>)
  next
    case (Err e)
    have "\<not> creates E (context_path (fst (sst (core s))) tg) (w_fs (snd (sst (core s))))"
      using a Err by (auto simp: add_context_def creates_def file_create_def Let_def split: prod.splits option.splits)
    then have ap: "apart E tg (sst (core s))" by (simp add: apart_def)
    let ?d = "context_report show_io now tg e"
    have s': "?s = s\<lparr>core := (core s)\<lparr>sst := (d, w)\<rparr>, owes := (owes s)(0 \<mapsto> ?d)\<rparr>"
      by (simp add: register_step_def a Err)
    let ?b = "?s\<lparr>core := set_client 0 (C_Push ?d) (core ?s), owes := (owes ?s)(0 := None)\<rparr>"
    have "work fair E F show_io ?s ?b"
      by (rule work.report) (use c m in \<open>simp_all add: s' calm_def may_read_def\<close>)
    then have b: "free_step fair True E F show_io ?s ?b" by (rule live_step.works)
    let ?c = "map_ctx (queue_push ?d) (set_client 0 C_Signal (core ?b\<lparr>pushed := pushed (core ?b) @ [?d]\<rparr>))"
    let ?e = "map_ctx queue_signal (set_client 0 C_Idle ?c)"
    have "sys_step fair True E F show_io (core ?b) ?c" by (intro sys_step.served serve.c_push) simp
    moreover have "sys_step fair True E F show_io ?c ?e" by (intro sys_step.served serve.c_signal) simp
    ultimately have "(sys_step fair True E F show_io)\<^sup>*\<^sup>* (core ?b) ?e"
      by (meson rtranclp.rtrancl_into_rtrancl rtranclp.rtrancl_refl)
    then have "(free_step fair True E F show_io)\<^sup>*\<^sup>* ?b (?b\<lparr>core := ?e\<rparr>)"
      by (rule sys_steps_free) (use c in \<open>simp add: s' calm_def fun_eq_iff\<close>)
    with free [OF ap] b have f: "(free_step fair True E F show_io)\<^sup>*\<^sup>* s (?b\<lparr>core := ?e\<rparr>)"
      by (meson converse_rtranclp_into_rtranclp)
    show ?thesis
      by (rule answersI [OF f, where ds = "[?d]"])
        (use t c q in \<open>auto simp: s' s1 Err calm_def queue_log_def fun_eq_iff\<close>)
  next
    case (Panic x)
    then show ?thesis using t by simp
  qed
qed

lemma unregister_answers:
  assumes c: "calm s" and run: "paper2_unregister_context_id E p (live_proc h s) = (Ok u, t)"
  shows "answers fair E F show_io s t"
proof (cases "p = 0")
  case True
  then show ?thesis using run c by (intro answers_same) (auto simp: paper2_unregister_context_id_def)
next
  case False
  obtain tg s1 where rd: "read_lossy p (live_proc h s) = (Ok tg, s1)"
    using run False by (auto simp: paper2_unregister_context_id_def with_logger_def get_logger_def elim!: bind_act_OkE)
  have s1: "s1 = live_proc h s" using read_lossy_Ok [OF rd] by simp
  obtain d w where a: "remove_context E tg (sst (core s)) = (d, w)" by (meson surj_pair)
  have t: "t = live_proc h s\<lparr>p_logger := Some d, p_world := w\<rparr>"
    using run False rd
    by (simp add: paper2_unregister_context_id_def with_logger_def get_logger_def bind_act_def s1 a)
  have q: "log_queue d = log_queue (fst (sst (core s)))"
    using remove_context_fields(1) [of "sst (core s)" E tg] by (simp add: a same_queue_def)
  have f: "free_step fair True E F show_io s (unregister_step E tg s)"
    by (rule live_step.unregister) (use c in \<open>simp add: calm_def no_readers_def\<close>)
  show ?thesis
    by (rule answersI [OF r_into_rtranclp [where r = "free_step fair True E F show_io", OF f], where ds = "[]"])
      (use c q in \<open>simp_all add: t unregister_step_def a calm_def\<close>)
qed

lemma queue_call_answers:
  assumes c: "calm s" and m: "may_read fair (core s)"
    and run: "paper2_queue_log_ffi now lv tg msg fl ln col fn (live_proc h s) = (Ok b, t)"
  shows "answers fair E F show_io s t"
  using run
proof (cases rule: queue_call_form)
  case same
  then show ?thesis using c by (intro answers_same) simp_all
next
  case (queued d)
  then show ?thesis by (intro queue_answers [OF c m]) simp_all
qed

lemma sink_answers:
  assumes c: "calm s" and run: "paper2_add_log_sink E callback user_data (live_proc h s) = (Ok b, t)"
  shows "answers fair E F show_io s t"
proof -
  let ?k = "callback_sink E callback user_data"
  have t: "t = (live_proc h s)\<lparr>p_logger := Some (add_sink ?k (fst (sst (core s))))\<rparr>"
    using run by (simp add: paper2_add_log_sink_def with_logger_def get_logger_def set_ctx_def
        seq_act_def bind_act_def ret_Ok)
  have f: "free_step fair True E F show_io s (sink_step ?k s)"
    by (rule live_step.sink) (use c in \<open>simp_all add: calm_def no_readers_def\<close>)
  show ?thesis
    by (rule answersI [OF r_into_rtranclp [where r = "free_step fair True E F show_io", OF f], where ds = "[]"])
      (use c in \<open>simp_all add: t sink_step_def calm_def add_sink_def\<close>)
qed

text \<open>A second start of the logger changes nothing.\<close>

lemma init_again_same:
  assumes "paper2_init_logger_ffi E conf path s = (Ok b, t)" "p_logger s = Some c"
  shows "t = s"
  using init_call_cases [OF assms(1)] by (auto simp: init_logger_again [OF assms(2)])

lemma ffi_answers:
  assumes step: "ffi_step E show_io (live_proc h s) t" and c: "calm s" and m: "may_read fair (core s)"
    and sp: "spares_global t"
  shows "answers fair E F show_io s t"
  using step
proof (cases rule: ffi_step.cases)
  case (init conf path b)
  from init_again_same [OF this] c show ?thesis by (intro answers_same) simp_all
next
  case (register now p u)
  then show ?thesis by (rule register_answers [OF c m sp])
next
  case (unregister p u)
  then show ?thesis by (rule unregister_answers [OF c])
next
  case (queue now lv tg msg fl ln col fn b)
  then show ?thesis by (rule queue_call_answers [OF c m])
next
  case (add_sink callback user_data b)
  then show ?thesis by (rule sink_answers [OF c])
next
  case (wait b)
  then show ?thesis
    by (intro wait_answers [OF c m, where tmd = False])
      (auto simp: paper2_wait_for_flush_def get_logger_def split: prod.splits bool.splits)
next
  case (wait_timeout ms b)
  then show ?thesis
    by (intro wait_answers [OF c m, where tmd = True]) (auto simp: wait_flush_timeout_alone get_logger_def)
next
  case (log_directory p)
  then show ?thesis using c
    by (intro answers_same) (auto simp: paper2_get_log_directory_def get_logger_def split: option.splits prod.splits)
next
  case (free p u)
  then show ?thesis using c
    by (intro answers_same) (auto simp: paper2_free_c_string_def split: option.splits if_splits)
next
  case (memory h')
  then show ?thesis using c by (intro answers_same) simp_all
qed

section \<open>C programs\<close>

text \<open>
  The process, the locals and the position of the log thread, and as a history all records
  that calls have queued.  A call waits for the lock as a reader does.
\<close>

record 'w c_sys =
  c_proc :: "'w proc"
  c_thr :: thr
  c_pc :: lt_pc
  c_said :: "log_data list"

definition queue_of :: "'w proc \<Rightarrow> log_data list" where
  "queue_of p = (case p_logger p of None \<Rightarrow> [] | Some c \<Rightarrow> log_queue c)"

definition c_view :: "'w ctx \<Rightarrow> 'w c_sys \<Rightarrow> 'w sys" where
  "c_view c x = \<lparr>sst = (c, p_world (c_proc x)), sthr = c_thr x, lpc = c_pc x, clients = (\<lambda>_. C_Idle),
     pushed = [], taken = []\<rparr>"

inductive c_step ::
  "bool \<Rightarrow> 'z aenv_scheme \<Rightarrow> features \<Rightarrow> (io_error \<Rightarrow> rstr) \<Rightarrow> 'w c_sys \<Rightarrow> 'w c_sys \<Rightarrow> bool"
  for fair :: bool and E :: "'z aenv_scheme" and F :: features and show_io :: "io_error \<Rightarrow> rstr" where
  c_call: "ffi_step E show_io (c_proc x) p \<Longrightarrow> \<not> (fair \<and> wants_write (c_pc x)) \<Longrightarrow>
     c_step fair E F show_io x
       (x\<lparr>c_proc := p, c_said := c_said x @ drop (length (queue_of (c_proc x))) (queue_of p)\<rparr>)"
| c_thread: "p_logger (c_proc x) = Some c \<Longrightarrow> serve E F show_io (c_view c x) t \<Longrightarrow>
     c_step fair E F show_io x
       (x\<lparr>c_proc := (c_proc x)\<lparr>p_logger := Some (fst (sst t)), p_world := snd (sst t)\<rparr>,
         c_thr := sthr t, c_pc := lpc t\<rparr>)"

text \<open>Runs in which no context is on the global file.\<close>

definition sparing :: "('w c_sys \<Rightarrow> 'w c_sys \<Rightarrow> bool) \<Rightarrow> 'w c_sys \<Rightarrow> 'w c_sys \<Rightarrow> bool" where
  "sparing R x y \<longleftrightarrow> R x y \<and> spares_global (c_proc y)"

lemma sparing_mono: "(\<And>x y. R x y \<Longrightarrow> S x y) \<Longrightarrow> sparing R x y \<Longrightarrow> sparing S x y"
  by (simp add: sparing_def)

lemma sparing_steps: "(\<And>x y. R x y \<Longrightarrow> S x y) \<Longrightarrow> (sparing R)\<^sup>*\<^sup>* x y \<Longrightarrow> (sparing S)\<^sup>*\<^sup>* x y"
  using mono_rtranclp [of "sparing R" "sparing S"] sparing_mono by blast

definition c_started :: "'w st \<Rightarrow> 'w c_sys \<Rightarrow> bool" where
  "c_started s0 x \<longleftrightarrow> p_logger (c_proc x) = Some (fst s0) \<and> p_world (c_proc x) = snd s0 \<and>
     c_thr x = thr_init \<and> c_pc x = LT_Start \<and> c_said x = log_queue (fst s0)"

definition simulates :: "'w c_sys \<Rightarrow> 'w live \<Rightarrow> bool" where
  "simulates x s \<longleftrightarrow> calm s \<and> c_proc x = live_proc (p_heap (c_proc x)) s \<and> sthr (core s) = c_thr x \<and>
     lpc (core s) = c_pc x \<and> pushed (core s) = c_said x"

lemma c_call_simulated:
  assumes sim: "simulates x s" and step: "ffi_step E show_io (c_proc x) p"
    and m: "\<not> (fair \<and> wants_write (c_pc x))" and sp: "spares_global p"
  shows "\<exists>s'. (free_step fair True E F show_io)\<^sup>*\<^sup>* s s' \<and>
    simulates (x\<lparr>c_proc := p, c_said := c_said x @ drop (length (queue_of (c_proc x))) (queue_of p)\<rparr>) s'"
proof -
  have mr: "may_read fair (core s)" using sim m by (simp add: may_read_def simulates_def)
  define h where "h = p_heap (c_proc x)"
  have pr: "c_proc x = live_proc h s" and c: "calm s" using sim by (simp_all add: simulates_def h_def)
  have "answers fair E F show_io s p"
    by (rule ffi_answers [OF step [unfolded pr] c mr sp])
  then obtain s' ds where s': "(free_step fair True E F show_io)\<^sup>*\<^sup>* s s'" "calm s'" "p = live_proc (p_heap p) s'"
      "sthr (core s') = sthr (core s)" "lpc (core s') = lpc (core s)"
      "log_queue (fst (sst (core s'))) = log_queue (fst (sst (core s))) @ ds"
      "pushed (core s') = pushed (core s) @ ds"
    unfolding answers_def by blast
  have "queue_of p = log_queue (fst (sst (core s')))" using s'(3) by (metis proc_logger(1) queue_of_def option.case(2))
  moreover have "queue_of (c_proc x) = log_queue (fst (sst (core s)))"
    by (simp add: queue_of_def pr)
  ultimately have "drop (length (queue_of (c_proc x))) (queue_of p) = ds" by (simp add: s'(6))
  then have "simulates (x\<lparr>c_proc := p, c_said := c_said x @ drop (length (queue_of (c_proc x))) (queue_of p)\<rparr>) s'"
    using sim s' by (simp add: simulates_def)
  with s'(1) show ?thesis by blast
qed

lemma c_thread_simulated:
  assumes sim: "simulates x s" and l: "p_logger (c_proc x) = Some c" and step: "serve E F show_io (c_view c x) t"
  shows "\<exists>s'. (free_step fair True E F show_io)\<^sup>*\<^sup>* s s' \<and>
    simulates (x\<lparr>c_proc := (c_proc x)\<lparr>p_logger := Some (fst (sst t)), p_world := snd (sst t)\<rparr>,
         c_thr := sthr t, c_pc := lpc t\<rparr>) s'"
proof -
  have pr: "c_proc x = live_proc (p_heap (c_proc x)) s" using sim by (simp add: simulates_def)
  have st: "fst (sst (core s)) = c" "snd (sst (core s)) = p_world (c_proc x)"
    using l pr by (metis option.inject proc_logger(1)) (metis pr proc_logger(2))
  have idle: "clients (c_view c x) = (\<lambda>_. C_Idle)" by (simp add: c_view_def)
  have v: "core s = hist (pushed (core s)) (taken (core s)) (c_view c x)"
    using sim st by (cases "core s") (auto simp: simulates_def calm_def c_view_def)
  obtain ps ds where e: "pushed t = ps" "taken t = ds"
      "\<And>p k. serve E F show_io (hist p k (c_view c x)) (hist (p @ ps) (k @ ds) t)"
    using serve_extends [OF step] unfolding extends_def by (auto simp: c_view_def)
  have ps: "ps = []" "clients t = (\<lambda>_. C_Idle)"
    using step idle e(1)
    by (cases rule: serve.cases; auto simp: c_view_def l_same_kept l_take_def l_batch_def l_others_def l_check_def
        l_flush_def l_wait_check_def l_wake_def l_exit_flush_def l_report_def l_notify_def split: prod.splits option.splits)+
  let ?t = "hist (pushed (core s) @ ps) (taken (core s) @ ds) t"
  have sv: "serve E F show_io (core s) ?t" using e(3) v by metis
  have f: "free_step fair True E F show_io s (s\<lparr>core := ?t\<rparr>)"
    by (intro live_step.works work.serve sv)
  have "simulates (x\<lparr>c_proc := (c_proc x)\<lparr>p_logger := Some (fst (sst t)), p_world := snd (sst t)\<rparr>,
         c_thr := sthr t, c_pc := lpc t\<rparr>) (s\<lparr>core := ?t\<rparr>)"
    using sim ps by (simp add: simulates_def calm_def live_proc_def)
  with f show ?thesis by blast
qed

interpretation c_sim: simulation
  "\<lambda>x. ctx_ok s0 \<and> clean_global s0 \<and> max_string_len (config (fst s0)) = mx \<and> c_started s0 x"
  "sparing (c_step fair E F show_io)" simulates "free_started s0 mx" "free_step fair True E F show_io"
proof unfold_locales
  fix x
  assume i: "ctx_ok s0 \<and> clean_global s0 \<and> max_string_len (config (fst s0)) = mx \<and> c_started s0 x"
  let ?c = "\<lparr>sst = s0, sthr = thr_init, lpc = LT_Start, clients = (\<lambda>_. C_Idle),
      pushed = log_queue (fst s0), taken = []\<rparr>"
  let ?s = "\<lparr>core = ?c, owes = Map.empty, since = (\<lambda>_. 0),
      base = (\<lambda>u. case ctx_stream s0 u of None \<Rightarrow> [] | Some x \<Rightarrow> x)\<rparr>"
  have "free_started s0 mx ?s" using i by (simp add: sys_init_def live_init_def)
  moreover have "simulates x ?s"
    using i by (simp add: c_started_def simulates_def calm_def live_proc_def)
  ultimately show "\<exists>s. free_started s0 mx s \<and> simulates x s" by blast
next
  fix x y s assume s: "simulates x s" and st: "sparing (c_step fair E F show_io) x y"
  then have step: "c_step fair E F show_io x y" and sp: "spares_global (c_proc y)" by (simp_all add: sparing_def)
  from step show "\<exists>s'. (free_step fair True E F show_io)\<^sup>*\<^sup>* s s' \<and> simulates y s'"
  proof (cases rule: c_step.cases)
    case (c_call p)
    then show ?thesis using c_call_simulated [OF s c_call(2,3)] sp by simp
  next
    case (c_thread c t)
    then show ?thesis using c_thread_simulated [OF s c_thread(2,3)] by simp
  qed
qed

lemma c_simulated:
  assumes r: "reach (c_started s0) (sparing (c_step fair E F show_io)) x"
    and ok: "ctx_ok s0" "clean_global s0" "max_string_len (config (fst s0)) = mx"
  obtains s where "reach (free_started s0 mx) (free_step fair True E F show_io) s" "simulates x s"
proof -
  have "reach (\<lambda>x. (ctx_ok s0 \<and> clean_global s0 \<and> max_string_len (config (fst s0)) = mx) \<and> c_started s0 x)
      (sparing (c_step fair E F show_io)) x"
    by (rule reach_weaken [OF r]) (use ok in blast)
  then show ?thesis using that c_sim.sim_reach [of s0 mx fair E F show_io x] by auto
qed

text \<open>While the thread waits, the global file holds what it has taken.\<close>

lemma simulated_disk:
  assumes s: "simulates x s" "free_inv E mx s0 (core s)" and w: "c_pc x = LT_Blocked v"
  shows "\<exists>c dn logs. p_logger (c_proc x) = Some c \<and> c_said x = dn @ log_queue c \<and>
    split_str_into_chunks E dn mx = Some logs \<and>
    global_disk (c, p_world (c_proc x)) = global_stream s0 @ full_lines E logs"
proof -
  have pc: "lpc (core s) = LT_Blocked v" using s(1) w by (simp add: simulates_def)
  have "clean_global (sst (core s))" using s(2) pc by (simp add: free_inv_def global_settled_def)
  then have "global_disk (sst (core s)) = global_stream (sst (core s))"
    by (simp add: clean_global_def global_disk_def global_stream_def bw_disk_def bw_stream_def)
  moreover obtain logs where "split_str_into_chunks E (taken (core s)) mx = Some logs"
      "global_stream (sst (core s)) = global_stream s0 @ full_lines E logs"
    using s(2) pc by (auto simp: free_inv_def all_written_def)
  moreover have "c_said x = taken (core s) @ log_queue (fst (sst (core s)))"
    using s by (simp add: free_inv_def simulates_def)
  moreover have "p_logger (c_proc x) = Some (fst (sst (core s)))" "p_world (c_proc x) = snd (sst (core s))"
    using s(1) proc_logger unfolding simulates_def by metis+
  ultimately show ?thesis
    by (intro exI [of _ "fst (sst (core s))"] exI [of _ "taken (core s)"] exI [of _ logs]) simp
qed

text \<open>Between two calls the thread leaves the clients idle.\<close>

lemma idle_serve:
  assumes "serve E F show_io s t" "clients s = (\<lambda>_. C_Idle)"
  shows "clients t = (\<lambda>_. C_Idle) \<and> pushed t = pushed s"
  using assms
  by (cases rule: serve.cases) (auto simp: l_same_kept l_take_def l_batch_def l_others_def l_check_def
      l_flush_def l_wait_check_def l_wake_def l_exit_flush_def l_report_def l_notify_def split: prod.splits option.splits)

lemma idle_serves:
  "(serve E F show_io)\<^sup>*\<^sup>* s t \<Longrightarrow> clients s = (\<lambda>_. C_Idle) \<Longrightarrow>
   clients t = (\<lambda>_. C_Idle) \<and> pushed t = pushed s"
  by (induction rule: rtranclp_induct) (use idle_serve in metis)+

end
