(* ===== verification/C_Liveness.thy ===== *)
theory C_Liveness
  imports C_Program Registry_Spec
begin

text \<open>
  C programs that come to rest.  When no call takes the signal of the queue away from the log
  thread, and in an environment that does not fail, the thread stays alive, ends every run of
  its own steps, and then waits with the queue empty.
\<close>

section \<open>What a call leaves of the logger\<close>

text \<open>
  A logger that has been started, with finitely many contexts and sinks that never fail; a call
  that changes the queue leaves a signal.
\<close>

definition sane :: "'w ctx \<Rightarrow> bool" where
  "sane c \<longleftrightarrow> inited c \<and> finite (dom (context_map c)) \<and> (\<forall>k\<in>set (sinks c). \<forall>d. never_fails (k d))"

definition next_ctx :: "'w ctx \<Rightarrow> 'w ctx \<Rightarrow> bool" where
  "next_ctx c d \<longleftrightarrow> (sane c \<longrightarrow> sane d) \<and> (log_queue d = log_queue c \<or> log_sem d)"

lemma next_ctx_refl [simp]: "next_ctx c c"
  by (simp add: next_ctx_def)

lemma next_ctx_queue: "next_ctx c d \<Longrightarrow> next_ctx c (queue_log x d)"
  by (simp add: next_ctx_def sane_def queue_log_def queue_push_def queue_signal_def sem_signal_def)

lemma next_ctx_map: "next_ctx c (c\<lparr>context_map := (context_map c)(t := b)\<rparr>)"
  by (simp add: next_ctx_def sane_def)

lemma next_ctx_poll: "next_ctx c (snd (wait_for_flush_poll c))"
  by (simp add: next_ctx_def sane_def wait_for_flush_poll_def split: prod.splits)

lemma next_ctx_sink: "(\<And>d. never_fails (k d)) \<Longrightarrow> next_ctx c (add_sink k c)"
  by (simp add: next_ctx_def sane_def add_sink_def)

lemma register_next:
  assumes run: "paper2_register_context_id E show_io now p s = (Ok u, t)" and c: "p_logger s = Some c"
  shows "(\<exists>d. p_logger t = Some d \<and> next_ctx c d) \<and> p_heap t = p_heap s"
proof (cases "p = 0")
  case True
  then show ?thesis using run c by (simp add: paper2_register_context_id_def)
next
  case False
  obtain tg s1 where rd: "read_lossy p s = (Ok tg, s1)"
    using run False c by (auto simp: paper2_register_context_id_def with_logger_def get_logger_def elim!: bind_act_OkE)
  have s1: "s1 = s" using read_lossy_Ok [OF rd] by simp
  obtain r d w where a: "add_context E tg (c, p_world s) = (r, (d, w))" by (metis prod_cases3)
  have "d = c \<or> (\<exists>b. d = c\<lparr>context_map := (context_map c)(tg := b)\<rparr>)"
    using a by (auto simp: add_context_def Let_def split: prod.splits res.splits)
  then have n: "next_ctx c d" using next_ctx_map by auto
  from run False rd have "(p_logger t = Some d \<or> (\<exists>x. p_logger t = Some (queue_log x d))) \<and> p_heap t = p_heap s"
    by (cases r) (auto simp: paper2_register_context_id_def with_logger_def get_logger_def c bind_act_def s1 a)
  with n next_ctx_queue show ?thesis by blast
qed

lemma unregister_next:
  assumes run: "paper2_unregister_context_id E p s = (Ok u, t)" and c: "p_logger s = Some c"
  shows "(\<exists>d. p_logger t = Some d \<and> next_ctx c d) \<and> p_heap t = p_heap s"
proof (cases "p = 0")
  case True
  then show ?thesis using run c by (simp add: paper2_unregister_context_id_def)
next
  case False
  obtain tg s1 where rd: "read_lossy p s = (Ok tg, s1)"
    using run False c by (auto simp: paper2_unregister_context_id_def with_logger_def get_logger_def elim!: bind_act_OkE)
  have s1: "s1 = s" using read_lossy_Ok [OF rd] by simp
  show ?thesis using run False rd next_ctx_map
    by (auto simp: paper2_unregister_context_id_def with_logger_def get_logger_def c bind_act_def s1 remove_context_def)
qed

lemma ffi_next:
  assumes "ffi_step E show_io s t" "p_logger s = Some c"
  shows "(\<exists>d. p_logger t = Some d \<and> next_ctx c d) \<and> (heap_ok (p_heap s) \<longrightarrow> heap_ok (p_heap t))"
  using assms(1)
proof (cases rule: ffi_step.cases)
  case (init conf path b)
  from init_again_same [OF this assms(2)] assms(2) show ?thesis by simp
next
  case (register now p u)
  from register_next [OF this assms(2)] show ?thesis by simp
next
  case (unregister p u)
  from unregister_next [OF this assms(2)] show ?thesis by simp
next
  case (queue now lv tg msg fl ln col fn b)
  then show ?thesis using assms(2) by (cases rule: queue_call_form) (auto intro: next_ctx_queue)
next
  case (add_sink callback user_data b)
  have "next_ctx c (add_sink (callback_sink E callback user_data) c)"
    by (rule next_ctx_sink) (simp add: never_fails_def callback_sink_ok)
  then show ?thesis using add_sink assms(2)
    by (auto simp: paper2_add_log_sink_def with_logger_def get_logger_def set_ctx_def seq_act_def bind_act_def ret_Ok)
next
  case (wait b)
  then show ?thesis using assms(2) next_ctx_poll [of c]
    by (auto simp: paper2_wait_for_flush_def get_logger_def split: prod.splits bool.splits)
next
  case (wait_timeout ms b)
  then show ?thesis using assms(2) next_ctx_poll [of c]
    by (auto simp: wait_flush_timeout_alone get_logger_def)
qed (use assms(2) in \<open>auto simp: paper2_get_log_directory_def paper2_free_c_string_def get_logger_def
      split: option.splits prod.splits if_splits dest: heap_ok_alloc heap_ok_dealloc\<close>)

section \<open>The steps\<close>

text \<open>A call of \<open>wait_for_flush\<close> that returns because of a signal takes it from the log thread.\<close>

definition takes_signal :: "'w proc \<Rightarrow> 'w proc \<Rightarrow> bool" where
  "takes_signal p q \<longleftrightarrow> (\<exists>c d. p_logger p = Some c \<and> p_logger q = Some d \<and> log_sem c \<and> \<not> log_sem d)"

text \<open>
  The log thread on its own, and with the calls of a C program, those that take the signal
  included or not (\<open>steals\<close>).
\<close>

inductive c_own ::
  "'z aenv_scheme \<Rightarrow> features \<Rightarrow> (io_error \<Rightarrow> rstr) \<Rightarrow> 'w c_sys \<Rightarrow> 'w c_sys \<Rightarrow> bool"
  for E :: "'z aenv_scheme" and F :: features and show_io :: "io_error \<Rightarrow> rstr" where
  thread: "p_logger (c_proc x) = Some c \<Longrightarrow> serve E F show_io (c_view c x) t \<Longrightarrow>
     c_own E F show_io x
       (x\<lparr>c_proc := (c_proc x)\<lparr>p_logger := Some (fst (sst t)), p_world := snd (sst t)\<rparr>,
         c_thr := sthr t, c_pc := lpc t\<rparr>)"

definition c_after :: "'w c_sys \<Rightarrow> 'w proc \<Rightarrow> 'w c_sys" where
  "c_after x p = x\<lparr>c_proc := p, c_said := c_said x @ drop (length (queue_of (c_proc x))) (queue_of p)\<rparr>"

inductive c_talk ::
  "bool \<Rightarrow> bool \<Rightarrow> 'z aenv_scheme \<Rightarrow> features \<Rightarrow> (io_error \<Rightarrow> rstr) \<Rightarrow> 'w c_sys \<Rightarrow> 'w c_sys \<Rightarrow> bool"
  for steals :: bool and fair :: bool and E :: "'z aenv_scheme" and F :: features
  and show_io :: "io_error \<Rightarrow> rstr" where
  call: "ffi_step E show_io (c_proc x) p \<Longrightarrow> \<not> (fair \<and> wants_write (c_pc x)) \<Longrightarrow>
     steals \<or> \<not> takes_signal (c_proc x) p \<Longrightarrow> c_talk steals fair E F show_io x (c_after x p)"
| own: "c_own E F show_io x y \<Longrightarrow> c_talk steals fair E F show_io x y"

inductive_cases c_ownE: "c_own E F show_io x y"

lemma own_step: "c_own E F show_io x y \<Longrightarrow> c_step fair E F show_io x y"
  by (induction rule: c_own.induct) (rule c_step.c_thread)

lemma talk_step: "c_talk steals fair E F show_io x y \<Longrightarrow> c_step fair E F show_io x y"
  by (induction rule: c_talk.induct) (auto simp: c_after_def intro: c_step.c_call own_step)

section \<open>The invariant\<close>

text \<open>
  The program stands for a state of the running logger; the thread is alive, in a sane logger,
  and, unless calls take the signal, when it waits with records queued, a signal is there.
\<close>

definition c_fit :: "bool \<Rightarrow> 'z aenv_scheme \<Rightarrow> features \<Rightarrow> nat \<Rightarrow> 'w st \<Rightarrow> 'w c_sys \<Rightarrow> bool" where
  "c_fit steals E F mx s0 x \<longleftrightarrow> safe_env E F mx \<and> (\<exists>s. simulates x s \<and> free_inv E mx s0 (core s)) \<and>
     (\<exists>c. p_logger (c_proc x) = Some c \<and> sane c \<and> living (c_view c x) \<and>
       (\<not> steals \<longrightarrow> wake_inv (c_view c x)))"

lemma c_step_linked:
  assumes step: "sparing (c_step fair E F show_io) x y" and s: "simulates x s" "free_inv E mx s0 (core s)"
  shows "\<exists>s'. simulates y s' \<and> free_inv E mx s0 (core s')"
proof -
  obtain s' where t: "(free_step fair True E F show_io)\<^sup>*\<^sup>* s s'" "simulates y s'"
    using c_sim.sim_step [OF s(1) step] by blast
  from anywhere.steps_inv [OF s(2) t(1)] t(2) show ?thesis by blast
qed

text \<open>A fit state has no context on the global file, so the thread's steps spare it.\<close>

lemma linked_spares:
  assumes "simulates x s" "free_inv E mx s0 (core s)"
  shows "spares_global (c_proc x)"
proof -
  have "p_logger (c_proc x) = Some (fst (sst (core s)))"
    using assms(1) proc_logger unfolding simulates_def by metis
  then show ?thesis using assms(2) by (auto simp: free_inv_def global_ok_def spares_global_def split: prod.splits)
qed

lemma own_linked:
  assumes step: "c_own E F show_io x y" and s: "simulates x s" "free_inv E mx s0 (core s)"
  shows "\<exists>s'. simulates y s' \<and> free_inv E mx s0 (core s')"
  using step
proof (cases rule: c_own.cases)
  case (thread c t)
  obtain s' where t: "(free_step True True E F show_io)\<^sup>*\<^sup>* s s'" "simulates y s'"
    using c_thread_simulated [OF s(1) thread(2,3)] thread(1) by blast
  from anywhere.steps_inv [OF s(2) t(1)] t(2) show ?thesis by blast
qed

lemma view_pool:
  assumes "simulates x s" "free_inv E mx s0 (core s)" "p_logger (c_proc x) = Some c"
  shows "pool_ok (log_pool (sthr (c_view c x)))" "max_string_len (config (fst (sst (c_view c x)))) = mx"
    "global_ok (sst (c_view c x))"
proof -
  have "p_logger (c_proc x) = Some (fst (sst (core s)))" "p_world (c_proc x) = snd (sst (core s))"
    using assms(1) proc_logger unfolding simulates_def by metis+
  then have "sst (c_view c x) = sst (core s)" "sthr (c_view c x) = sthr (core s)"
    using assms by (simp_all add: c_view_def simulates_def)
  then show "pool_ok (log_pool (sthr (c_view c x)))" "max_string_len (config (fst (sst (c_view c x)))) = mx"
    "global_ok (sst (c_view c x))"
    using assms(2) by (simp_all add: free_inv_def)
qed

lemma view_after:
  assumes "clients t = (\<lambda>_. C_Idle)"
    "y = x\<lparr>c_proc := (c_proc x)\<lparr>p_logger := Some (fst (sst t)), p_world := snd (sst t)\<rparr>, c_thr := sthr t, c_pc := lpc t\<rparr>"
  shows "c_view (fst (sst t)) y = hist [] [] t"
  using assms by (cases t) (simp add: c_view_def)

text \<open>A step of the thread in a fit state.\<close>

lemma own_serves:
  assumes step: "c_own E F show_io x y" and fit: "c_fit steals E F mx s0 x"
  obtains c t where "p_logger (c_proc x) = Some c" "sane c" "serve E F show_io (c_view c x) t"
    "y = x\<lparr>c_proc := (c_proc x)\<lparr>p_logger := Some (fst (sst t)), p_world := snd (sst t)\<rparr>, c_thr := sthr t, c_pc := lpc t\<rparr>"
    "clients t = (\<lambda>_. C_Idle)" "pool_ok (log_pool (sthr (c_view c x)))" "living t"
    "\<not> steals \<longrightarrow> wake_inv t"
proof -
  obtain s c where s: "simulates x s" "free_inv E mx s0 (core s)" and env: "safe_env E F mx"
    and c: "p_logger (c_proc x) = Some c" "sane c" "living (c_view c x)" "\<not> steals \<longrightarrow> wake_inv (c_view c x)"
    using fit unfolding c_fit_def by blast
  obtain t where t: "serve E F show_io (c_view c x) t"
      "y = x\<lparr>c_proc := (c_proc x)\<lparr>p_logger := Some (fst (sst t)), p_world := snd (sst t)\<rparr>, c_thr := sthr t, c_pc := lpc t\<rparr>"
    using step c(1) by (auto elim!: c_ownE)
  note v = view_pool [OF s c(1)]
  show ?thesis
    by (rule that [OF c(1,2) t _ v(1) living_serve [OF t(1) env v(1,2) c(3)]])
      (use idle_serve [OF t(1)] wake_inv_serve [OF t(1)] c(4) in \<open>simp_all add: c_view_def\<close>)
qed

lemma own_fit:
  assumes step: "c_own E F show_io x y" and fit: "c_fit steals E F mx s0 x"
  shows "c_fit steals E F mx s0 y"
  using step fit
proof (rule own_serves)
  fix c t assume c: "sane c" and t: "serve E F show_io (c_view c x) t"
    "y = x\<lparr>c_proc := (c_proc x)\<lparr>p_logger := Some (fst (sst t)), p_world := snd (sst t)\<rparr>, c_thr := sthr t, c_pc := lpc t\<rparr>"
    and idle: "clients t = (\<lambda>_. C_Idle)" and pool: "pool_ok (log_pool (sthr (c_view c x)))"
    and l: "living t" and w: "\<not> steals \<longrightarrow> wake_inv t"
  have "ctx_dom t = ctx_dom (c_view c x)" by (rule serve_dom [OF t(1) pool]) (use l in \<open>simp add: living_def\<close>)
  then have "sane (fst (sst t))"
    using c l by (simp add: sane_def living_def safe_sinks_def ctx_dom_def c_view_def)
  moreover have "living (hist [] [] t)" "\<not> steals \<longrightarrow> wake_inv (hist [] [] t)"
    using l w by (simp_all add: living_def wake_inv_def)
  moreover obtain s where "simulates x s" "free_inv E mx s0 (core s)" and "safe_env E F mx"
    using fit unfolding c_fit_def by blast
  ultimately show "c_fit steals E F mx s0 y"
    using own_linked [OF step] view_after [OF idle t(2)] unfolding c_fit_def
    by (intro conjI exI [of _ "fst (sst t)"]) (auto simp: t(2))
qed

lemma talk_fit:
  assumes step: "sparing (c_talk steals fair E F show_io) x y" and fit: "c_fit steals E F mx s0 x"
  shows "c_fit steals E F mx s0 y"
  using step [unfolded sparing_def, THEN conjunct1]
proof (cases rule: c_talk.cases)
  case (call p)
  obtain s c where s: "simulates x s" "free_inv E mx s0 (core s)" and env: "safe_env E F mx"
    and c: "p_logger (c_proc x) = Some c" "sane c" "living (c_view c x)" "\<not> steals \<longrightarrow> wake_inv (c_view c x)"
    using fit unfolding c_fit_def by blast
  obtain d where d: "p_logger p = Some d" "next_ctx c d" using ffi_next [OF call(2) c(1)] by blast
  have "\<not> steals \<longrightarrow> log_sem c \<longrightarrow> log_sem d" using call(4) c(1) d(1) by (auto simp: takes_signal_def)
  then have "\<not> steals \<longrightarrow> wake_inv (c_view d y)"
    using c(4) d(2) by (auto simp: wake_inv_def c_view_def next_ctx_def call(1) c_after_def)
  moreover have "sane d" using c(2) d(2) by (simp add: next_ctx_def)
  moreover have "living (c_view d y)"
    using c(3) calculation(2) by (simp add: living_def c_view_def safe_sinks_def sane_def call(1) c_after_def)
  ultimately show ?thesis
    using c_step_linked [OF sparing_mono [OF talk_step step] s] env d(1) unfolding c_fit_def
    by (auto simp: call(1) c_after_def)
next
  case own
  then show ?thesis using own_fit fit by blast
qed

text \<open>What the first start leaves is fit.\<close>

abbreviation c_ready :: "'z aenv_scheme \<Rightarrow> features \<Rightarrow> nat \<Rightarrow> 'w st \<Rightarrow> 'w c_sys \<Rightarrow> bool" where
  "c_ready E F mx s0 x \<equiv> safe_env E F mx \<and> ctx_ok s0 \<and> clean_global s0 \<and>
     max_string_len (config (fst s0)) = mx \<and> inited (fst s0) \<and> sinks (fst s0) = [] \<and> c_started s0 x"

lemma ready_fit: "c_ready E F mx s0 x \<Longrightarrow> c_fit steals E F mx s0 x"
proof -
  assume r: "c_ready E F mx s0 x"
  then obtain s where s: "free_started s0 mx s" "simulates x s"
    using c_sim.sim_init [of s0 mx x] by blast
  have "free_inv E mx s0 (core s)" using anywhere.inv_init s(1) by blast
  moreover have "sane (fst s0)" using r by (simp add: sane_def ctx_ok_def)
  moreover have "living (c_view (fst s0) x)" "wake_inv (c_view (fst s0) x)"
    using r by (simp_all add: c_started_def c_view_def living_def safe_sinks_def wake_inv_def)
  ultimately show ?thesis using r s(2) unfolding c_fit_def by (auto simp: c_started_def)
qed

interpretation c_lives: inductive_invariant
  "c_ready E F mx s0" "sparing (c_talk steals fair E F show_io)" "c_fit steals E F mx s0"
  by unfold_locales (use ready_fit talk_fit in blast)+

section \<open>Runs of the thread end\<close>

definition own_work :: "'w c_sys \<Rightarrow> nat" where
  "own_work x = (case p_logger (c_proc x) of None \<Rightarrow> 0 | Some c \<Rightarrow> thread_work (c_view c x))"

lemma own_works:
  assumes step: "c_own E F show_io x y" and fit: "c_fit steals E F mx s0 x"
  shows "own_work y < own_work x"
  using step fit
proof (rule own_serves)
  fix c t assume c: "p_logger (c_proc x) = Some c" and t: "serve E F show_io (c_view c x) t"
    "y = x\<lparr>c_proc := (c_proc x)\<lparr>p_logger := Some (fst (sst t)), p_world := snd (sst t)\<rparr>, c_thr := sthr t, c_pc := lpc t\<rparr>"
    and idle: "clients t = (\<lambda>_. C_Idle)" and pool: "pool_ok (log_pool (sthr (c_view c x)))"
  have "clients (c_view c x) = (\<lambda>_. C_Idle)" by (simp add: c_view_def)
  then have "client_work t = client_work (c_view c x)" "finite (busy (c_view c x))"
    using idle client_work_same [of t "c_view c x"] by (simp_all add: busy_def)
  with serve_decreases [OF t(1) this(2) pool] have "thread_work t < thread_work (c_view c x)" by simp
  then show "own_work y < own_work x" by (simp add: own_work_def c thread_work_def t(2) c_view_def)
qed

interpretation own_runs: terminating_steps
  "c_fit steals E F mx s0" "c_own E F show_io" "measure own_work"
  by unfold_locales (auto intro: own_fit own_works)

text \<open>A thread whose signal was taken: it waits although there are records.\<close>

definition asleep :: "'w c_sys \<Rightarrow> bool" where
  "asleep x \<longleftrightarrow> (\<exists>v c. c_pc x = LT_Blocked v \<and> p_logger (c_proc x) = Some c \<and> log_queue c \<noteq> [] \<and> \<not> log_sem c)"

lemma view_wakes: "p_logger (c_proc x) = Some c \<Longrightarrow> wake_inv (c_view c x) \<longleftrightarrow> \<not> asleep x"
  by (auto simp: wake_inv_def asleep_def c_view_def)

lemma fit_awake: "c_fit steals E F mx s0 x \<Longrightarrow> c_fit False E F mx s0 x \<longleftrightarrow> \<not> asleep x"
  using view_wakes unfolding c_fit_def by blast

lemma fit_unasleep: "c_fit steals E F mx s0 x \<Longrightarrow> asleep x \<Longrightarrow> steals"
  using fit_awake [of steals E F mx s0 x] by (metis (full_types))

lemma asleep_stays:
  assumes "asleep x"
  shows "\<not> c_own E F show_io x y"
proof
  assume "c_own E F show_io x y"
  then show False using assms
    by (auto simp: asleep_def c_view_def wait_for_flush_poll_def sem_poll_def elim!: c_ownE elim: serve.cases)
qed

lemma asleep_before:
  assumes fit: "c_fit steals E F mx s0 x" and steps: "(c_own E F show_io)\<^sup>*\<^sup>* x y" and y: "asleep y"
  shows "y = x"
proof (cases "asleep x")
  case True
  from steps show ?thesis by (rule converse_rtranclpE) (use asleep_stays [OF True] in blast)+
next
  case False
  then have "c_fit False E F mx s0 x" using fit_awake [OF fit] by simp
  from own_runs.run_keeps [OF this steps] show ?thesis using fit_unasleep y by blast
qed

lemma rest_waits:
  assumes fit: "c_fit steals E F mx s0 x" and rest: "finished (c_own E F show_io) x"
  shows "\<exists>v c. c_pc x = LT_Blocked v \<and> p_logger (c_proc x) = Some c \<and> (log_queue c = [] \<or> asleep x)"
proof (cases "asleep x")
  case False
  then have "c_fit False E F mx s0 x" using fit_awake [OF fit] by simp
  then obtain c where c: "p_logger (c_proc x) = Some c" "sane c" "living (c_view c x)" "wake_inv (c_view c x)"
    unfolding c_fit_def by blast
  have stuck: "\<not> serve E F show_io (c_view c x) t" for t
    using rest c_own.thread [OF c(1)] unfolding finished_def by blast
  have "finite (dom (context_map (fst (sst (c_view c x)))))" "lpc (c_view c x) \<noteq> LT_Dead"
    using c(2,3) by (auto simp: sane_def living_def c_view_def)
  from serve_progress [OF c(4) this, of E F show_io] stuck
  obtain v where "lpc (c_view c x) = LT_Blocked v" "log_queue (fst (sst (c_view c x))) = []" by blast
  then show ?thesis using c(1) by (simp add: c_view_def)
qed (auto simp: asleep_def)

lemma own_said: "(c_own E F show_io)\<^sup>*\<^sup>* x y \<Longrightarrow> c_said y = c_said x"
  by (induction rule: rtranclp_induct) (auto elim!: c_ownE)

lemma fit_spares: "c_fit steals E F mx s0 x \<Longrightarrow> spares_global (c_proc x)"
  using linked_spares unfolding c_fit_def by blast

lemma own_talks:
  assumes "(c_own E F show_io)\<^sup>*\<^sup>* x y" "c_fit steals E F mx s0 x"
  shows "(sparing (c_talk steals fair E F show_io))\<^sup>*\<^sup>* x y"
  using assms(1)
proof (induction rule: rtranclp_induct)
  case (step y z)
  have "c_fit steals E F mx s0 z"
    by (rule own_runs.run_keeps [OF assms(2) rtranclp.rtrancl_into_rtrancl [OF step.hyps]])
  then have "sparing (c_talk steals fair E F show_io) y z"
    using c_talk.own [OF step.hyps(2)] fit_spares unfolding sparing_def by blast
  with step.IH show ?case by simp
qed simp

text \<open>
  At rest everything that was said is on disk, but for the records still in the queue; and the
  queue is empty unless the signal was taken.
\<close>

lemma rest_on_disk:
  assumes fit: "c_fit steals E F mx s0 x" and rest: "finished (c_own E F show_io) x"
  shows "\<exists>v c dn logs. c_pc x = LT_Blocked v \<and> p_logger (c_proc x) = Some c \<and>
    (log_queue c = [] \<or> asleep x) \<and> c_said x = dn @ log_queue c \<and> split_str_into_chunks E dn mx = Some logs \<and>
    global_disk (c, p_world (c_proc x)) = global_stream s0 @ full_lines E logs"
proof -
  obtain v c where w: "c_pc x = LT_Blocked v" "p_logger (c_proc x) = Some c" "log_queue c = [] \<or> asleep x"
    using rest_waits [OF fit rest] by blast
  obtain s where s: "simulates x s" "free_inv E mx s0 (core s)" using fit unfolding c_fit_def by blast
  obtain d dn logs where "p_logger (c_proc x) = Some d" "c_said x = dn @ log_queue d"
      "split_str_into_chunks E dn mx = Some logs" "global_disk (d, p_world (c_proc x)) = global_stream s0 @ full_lines E logs"
    using simulated_disk [OF s w(1)] by blast
  then show ?thesis using w by auto
qed

text \<open>A call that queues a record leaves a signal, whatever happened before.\<close>

lemma call_awake:
  assumes "ffi_step E show_io (c_proc x) p" "p_logger (c_proc x) = Some c" "c_said (c_after x p) \<noteq> c_said x"
  shows "\<not> asleep (c_after x p)"
proof -
  obtain d where d: "p_logger p = Some d" "next_ctx c d" using ffi_next [OF assms(1,2)] by blast
  have "log_queue d \<noteq> log_queue c" using assms(2,3) d(1) by (auto simp: c_after_def queue_of_def)
  then show ?thesis using d by (auto simp: next_ctx_def asleep_def c_after_def)
qed

end
