(* ===== verification/Front_Ends.thy ===== *)
theory Front_Ends
  imports C_Liveness Facades
begin

text \<open>
  Programs that use all front ends: the C interface, the \<open>log\<close> facade (\<open>paper2_log\<close>) and
  the \<open>tracing\<close> layer (\<open>paper2_tracing\<close>).  A record of a front end is a run of C calls: its
  strings are laid out in memory, \<open>paper2_queue_log_ffi\<close> is called, the strings are freed.
\<close>

section \<open>A record of a front end as C calls\<close>

definition front_call :: "'w proc \<Rightarrow> 'w proc \<Rightarrow> bool" where
  "front_call s t \<longleftrightarrow> (\<exists>g h now lv tg msg fl ln col fn b u. heap_ok g \<and> heap_ok h \<and>
     paper2_queue_log_ffi now lv tg msg fl ln col fn (s\<lparr>p_heap := g\<rparr>) = (Ok b, u) \<and> t = u\<lparr>p_heap := h\<rparr>)"

lemma arg_alloc_heap:
  assumes "arg_alloc b s = (Ok p, t)" "heap_ok (p_heap s)"
  shows "heap_ok (p_heap t)" "t = s\<lparr>p_heap := p_heap t\<rparr>"
  using assms heap_ok_alloc by (auto simp: arg_alloc_def split: option.splits prod.splits)

lemma arg_unwrap_heap:
  assumes "arg_unwrap x s = (Ok p, t)" "heap_ok (p_heap s)"
  shows "heap_ok (p_heap t)" "t = s\<lparr>p_heap := p_heap t\<rparr>"
proof -
  obtain b where "arg_alloc (Some b) s = (Ok p, t)"
    using assms(1) by (auto simp: arg_unwrap_def split: option.splits)
  from arg_alloc_heap [OF this assms(2)] show "heap_ok (p_heap t)" "t = s\<lparr>p_heap := p_heap t\<rparr>" .
qed

lemma four_args_call:
  assumes h: "heap_ok (p_heap s)" "heap_ok (p_heap s1)" "heap_ok (p_heap s2)" "heap_ok (p_heap s3)" "heap_ok (p_heap s4)"
    and s: "s1 = s\<lparr>p_heap := p_heap s1\<rparr>" "s2 = s1\<lparr>p_heap := p_heap s2\<rparr>" "s3 = s2\<lparr>p_heap := p_heap s3\<rparr>"
      "s4 = s3\<lparr>p_heap := p_heap s4\<rparr>"
    and q: "paper2_queue_log_ffi now lv tg msg fl ln col fn s4 = (Ok b, u)"
    and t: "t = u\<lparr>p_heap := drop_args ps (p_heap u)\<rparr>"
  shows "front_call s t"
proof -
  have s4: "s4 = s\<lparr>p_heap := p_heap s4\<rparr>" using s by (metis proc.surjective proc.update_convs(1))
  have "p_heap u = p_heap s4" using q by (cases rule: queue_call_form) simp_all
  then have "heap_ok (drop_args ps (p_heap u))" using h(5) drop_args_ok by simp
  with h(5) s4 q t show ?thesis unfolding front_call_def by metis
qed

lemma facade_log_form:
  assumes run: "facade_log now mx r s = (Ok v, t)" and h: "heap_ok (p_heap s)"
  shows "t = s \<or> front_call s t"
proof (cases "facade_enabled mx (l_level r) \<and> paper2_get_inited s")
  case True
  then obtain tg s1 msg s2 fl s3 fn s4 b u where a: "arg_alloc (cstring_ok (l_module_path r)) s = (Ok tg, s1)"
      "arg_alloc (cstring_ok (Some (l_args r))) s1 = (Ok msg, s2)" "arg_alloc (cstring_ok (l_file r)) s2 = (Ok fl, s3)"
      "arg_alloc (cstring_ok (l_module_path r)) s3 = (Ok fn, s4)"
      "paper2_queue_log_ffi now (log_map_level (l_level r)) tg msg fl (unwrap_or (l_line r) 0) 0 fn s4 = (Ok b, u)"
      "t = u\<lparr>p_heap := drop_args [tg, msg, fl, fn] (p_heap u)\<rparr>"
    using run by (auto simp: facade_log_def elim!: bind_act_OkE)
  note h1 = arg_alloc_heap [OF a(1) h] and h2 = arg_alloc_heap [OF a(2)] and h3 = arg_alloc_heap [OF a(3)]
    and h4 = arg_alloc_heap [OF a(4)]
  show ?thesis
    using four_args_call [OF h h1(1) h2(1) h3(1) h4(1) h1(2) h2(2) h3(2) h4(2) a(5,6)] h1(1) h2(1) h3(1) by blast
next
  case False
  then show ?thesis using run by (auto simp: facade_log_def)
qed

lemma on_event_form:
  assumes run: "on_event now tg e s = (Ok v, t)" and h: "heap_ok (p_heap s)"
  shows "front_call s t"
proof -
  obtain fn s1 tp s2 msg s3 fl s4 b u where a: "arg_unwrap (e_target e) s = (Ok fn, s1)"
      "arg_alloc tg s1 = (Ok tp, s2)" "arg_unwrap (event_message e) s2 = (Ok msg, s3)"
      "arg_unwrap (unwrap_or (e_file e) []) s3 = (Ok fl, s4)"
      "paper2_queue_log_ffi now (tracing_map_level (e_level e)) tp msg fl (unwrap_or (e_line e) 0) 0 fn s4 = (Ok b, u)"
      "t = u\<lparr>p_heap := drop_args [fn, tp, msg, fl] (p_heap u)\<rparr>"
    using run by (auto simp: on_event_def elim!: bind_act_OkE)
  note h1 = arg_unwrap_heap [OF a(1) h] and h2 = arg_alloc_heap [OF a(2)] and h3 = arg_unwrap_heap [OF a(3)]
    and h4 = arg_unwrap_heap [OF a(4)]
  show ?thesis
    using four_args_call [OF h h1(1) h2(1) h3(1) h4(1) h1(2) h2(2) h3(2) h4(2) a(5,6)] h1(1) h2(1) h3(1) by blast
qed

text \<open>Both kinds of calls by the C program, one after the other.\<close>

lemma front_call_form:
  assumes "front_call s t"
  obtains g h now lv tg msg fl ln col fn b u where "heap_ok g" "heap_ok h"
    "paper2_queue_log_ffi now lv tg msg fl ln col fn (s\<lparr>p_heap := g\<rparr>) = (Ok b, u)" "t = u\<lparr>p_heap := h\<rparr>"
    "spares_global s \<Longrightarrow> spares_global u" "\<not> takes_signal (s\<lparr>p_heap := g\<rparr>) u"
    "\<exists>ds. queue_of u = queue_of s @ ds"
proof -
  obtain g h now lv tg msg fl ln col fn b u where f: "heap_ok g" "heap_ok h"
      "paper2_queue_log_ffi now lv tg msg fl ln col fn (s\<lparr>p_heap := g\<rparr>) = (Ok b, u)" "t = u\<lparr>p_heap := h\<rparr>"
    using assms unfolding front_call_def by blast
  have "(spares_global s \<longrightarrow> spares_global u) \<and> \<not> takes_signal (s\<lparr>p_heap := g\<rparr>) u \<and> (\<exists>ds. queue_of u = queue_of s @ ds)"
    using f(3)
  proof (cases rule: queue_call_form)
    case (queued d)
    then show ?thesis by (cases "p_logger s")
      (auto simp: spares_global_def takes_signal_def queue_of_def queue_log_simps, simp add: queue_log_def queue_signal_def sem_signal_def)
  qed (auto simp: spares_global_def takes_signal_def queue_of_def)
  then show ?thesis using that [OF f] by blast
qed

lemma front_call_spares: "front_call s t \<Longrightarrow> spares_global s \<Longrightarrow> spares_global t"
  by (erule front_call_form) (simp add: spares_global_def)

lemma front_call_talks:
  assumes call: "front_call (c_proc x) p" and sp: "spares_global (c_proc x)"
    and l: "\<not> (fair \<and> wants_write (c_pc x))"
  shows "(sparing (c_talk steals fair E F show_io))\<^sup>*\<^sup>* x (c_after x p)" "heap_ok (p_heap p)"
proof -
  let ?s = "c_proc x" and ?R = "sparing (c_talk steals fair E F show_io)"
  obtain g h now lv tg msg fl ln col fn b u where f: "heap_ok g" "heap_ok h"
      "paper2_queue_log_ffi now lv tg msg fl ln col fn (?s\<lparr>p_heap := g\<rparr>) = (Ok b, u)" "p = u\<lparr>p_heap := h\<rparr>"
    and u: "spares_global u" "\<not> takes_signal (?s\<lparr>p_heap := g\<rparr>) u" "\<exists>ds. queue_of u = queue_of ?s @ ds"
    using call sp by (elim front_call_form) blast
  let ?x1 = "c_after x (?s\<lparr>p_heap := g\<rparr>)" let ?x2 = "c_after ?x1 u" let ?x3 = "c_after ?x2 p"
  have g: "spares_global (?s\<lparr>p_heap := g\<rparr>)" "spares_global p" using sp u(1) f(4) by (simp_all add: spares_global_def)
  have "c_talk steals fair E F show_io x ?x1"
    by (rule c_talk.call [OF ffi_step.memory [OF f(1)] l]) (auto simp: takes_signal_def)
  then have "?R x ?x1" using g(1) by (simp add: sparing_def c_after_def)
  moreover have "c_talk steals fair E F show_io ?x1 ?x2"
    by (rule c_talk.call) (use f(3) l u in \<open>auto simp: c_after_def intro: ffi_step.queue\<close>)
  then have "?R ?x1 ?x2" using u(1) by (simp add: sparing_def c_after_def)
  moreover have "c_talk steals fair E F show_io ?x2 ?x3"
    by (rule c_talk.call) (use ffi_step.memory [OF f(2), of E show_io u] l f(4) in
      \<open>auto simp: c_after_def takes_signal_def\<close>)
  then have "?R ?x2 ?x3" using g(2) by (simp add: sparing_def c_after_def)
  ultimately have "?R\<^sup>*\<^sup>* x ?x3" by (rule three_steps)
  moreover have "?x3 = c_after x p" using u(3) by (auto simp: c_after_def f(4) queue_of_def)
  ultimately show "?R\<^sup>*\<^sup>* x (c_after x p)" by simp
  show "heap_ok (p_heap p)" by (simp add: f)
qed

section \<open>Programs\<close>

text \<open>A step of a program: of C code, of the log thread, or a record of a front end.\<close>

inductive app_step ::
  "bool \<Rightarrow> bool \<Rightarrow> 'z aenv_scheme \<Rightarrow> features \<Rightarrow> (io_error \<Rightarrow> rstr) \<Rightarrow> 'w c_sys \<Rightarrow> 'w c_sys \<Rightarrow> bool"
  for steals :: bool and fair :: bool and E :: "'z aenv_scheme" and F :: features
  and show_io :: "io_error \<Rightarrow> rstr" where
  c: "c_talk steals fair E F show_io x y \<Longrightarrow> app_step steals fair E F show_io x y"
| facade: "facade_log now max_level r (c_proc x) = (Ok u, p) \<Longrightarrow> \<not> (fair \<and> wants_write (c_pc x)) \<Longrightarrow>
     app_step steals fair E F show_io x (c_after x p)"
| event: "on_event now tg e (c_proc x) = (Ok u, p) \<Longrightarrow> \<not> (fair \<and> wants_write (c_pc x)) \<Longrightarrow>
     app_step steals fair E F show_io x (c_after x p)"

definition app_fit :: "bool \<Rightarrow> 'z aenv_scheme \<Rightarrow> features \<Rightarrow> nat \<Rightarrow> 'w st \<Rightarrow> 'w c_sys \<Rightarrow> bool" where
  "app_fit steals E F mx s0 x \<longleftrightarrow> c_fit steals E F mx s0 x \<and> heap_ok (p_heap (c_proc x))"

lemma talk_heap:
  assumes "c_talk steals fair E F show_io x y" "app_fit steals E F mx s0 x"
  shows "heap_ok (p_heap (c_proc y))"
  using assms(1)
proof (cases rule: c_talk.cases)
  case (call p)
  obtain c where "p_logger (c_proc x) = Some c" using assms(2) unfolding app_fit_def c_fit_def by blast
  from ffi_next [OF call(2) this] assms(2) show ?thesis by (simp add: app_fit_def call(1) c_after_def)
next
  case own
  then show ?thesis using assms(2) by (auto simp: app_fit_def elim: c_own.cases)
qed

lemma app_talks:
  assumes step: "sparing (app_step steals fair E F show_io) x y" and fit: "app_fit steals E F mx s0 x"
  shows "(sparing (c_talk steals fair E F show_io))\<^sup>*\<^sup>* x y \<and> heap_ok (p_heap (c_proc y))"
  using step [unfolded sparing_def, THEN conjunct1]
proof (cases rule: app_step.cases)
  case c
  have "sparing (c_talk steals fair E F show_io) x y" using c step by (simp add: sparing_def)
  with talk_heap [OF c fit] show ?thesis by blast
next
  case (facade now lv r u p)
  have fit: "heap_ok (p_heap (c_proc x))" "spares_global (c_proc x)"
    using fit fit_spares unfolding app_fit_def by blast+
  from facade_log_form [OF facade(2) fit(1)] show ?thesis
  proof
    assume "p = c_proc x"
    then show ?thesis using fit by (simp add: facade(1) c_after_def)
  next
    assume "front_call (c_proc x) p"
    from front_call_talks [OF this fit(2) facade(3)] show ?thesis by (simp add: facade(1) c_after_def)
  qed
next
  case (event now tg e u p)
  have fit: "heap_ok (p_heap (c_proc x))" "spares_global (c_proc x)"
    using fit fit_spares unfolding app_fit_def by blast+
  from front_call_talks [OF on_event_form [OF event(2) fit(1)] fit(2) event(3)]
  show ?thesis by (simp add: event(1) c_after_def)
qed

lemma app_fit_step:
  "sparing (app_step steals fair E F show_io) x y \<Longrightarrow> app_fit steals E F mx s0 x \<Longrightarrow> app_fit steals E F mx s0 y"
  using app_talks c_lives.steps_inv unfolding app_fit_def by blast

interpretation apps: inductive_invariant
  "\<lambda>x. c_ready E F mx s0 x \<and> heap_ok (p_heap (c_proc x))" "sparing (app_step steals fair E F show_io)"
  "app_fit steals E F mx s0"
proof unfold_locales
  show "app_fit steals E F mx s0 x" if "c_ready E F mx s0 x \<and> heap_ok (p_heap (c_proc x))" for x
    using that ready_fit unfolding app_fit_def by blast
qed (rule app_fit_step)

text \<open>Every program is, step by step, a C program.\<close>

interpretation app_sim: simulation
  "\<lambda>x. c_ready E F mx s0 x \<and> heap_ok (p_heap (c_proc x))" "sparing (app_step steals fair E F show_io)"
  "\<lambda>x y. y = x \<and> app_fit steals E F mx s0 x" "c_started s0" "sparing (c_step fair E F show_io)"
proof unfold_locales
  fix x assume "c_ready E F mx s0 x \<and> heap_ok (p_heap (c_proc x))"
  then show "\<exists>a. c_started s0 a \<and> a = x \<and> app_fit steals E F mx s0 x" using apps.inv_init by blast
next
  fix x a y assume r: "a = x \<and> app_fit steals E F mx s0 x" and step: "sparing (app_step steals fair E F show_io) x y"
  have "(sparing (c_talk steals fair E F show_io))\<^sup>*\<^sup>* x y" using app_talks [OF step] r by blast
  then have "(sparing (c_step fair E F show_io))\<^sup>*\<^sup>* x y" by (rule sparing_steps [rotated]) (rule talk_step)
  then show "\<exists>b. (sparing (c_step fair E F show_io))\<^sup>*\<^sup>* a b \<and> b = y \<and> app_fit steals E F mx s0 y"
    using r app_fit_step [OF step] by blast
qed

text \<open>The front ends and the thread spare the global file.\<close>

lemma front_sparing:
  assumes "front_call (c_proc x) p" "app_fit steals E F mx s0 x" "app_step steals fair E F show_io x (c_after x p)"
  shows "sparing (app_step steals fair E F show_io) x (c_after x p)"
proof -
  have "spares_global (c_proc x)" using assms(2) fit_spares unfolding app_fit_def by blast
  from front_call_spares [OF assms(1) this] assms(3) show ?thesis by (simp add: sparing_def c_after_def)
qed

lemma owns_app:
  assumes "(c_own E F show_io)\<^sup>*\<^sup>* x y" "app_fit steals E F mx s0 x"
  shows "(sparing (app_step steals fair E F show_io))\<^sup>*\<^sup>* x y"
proof -
  have "c_fit steals E F mx s0 x" using assms(2) unfolding app_fit_def by blast
  from own_talks [OF assms(1) this] show ?thesis by (rule sparing_steps [rotated]) (rule app_step.c)
qed

section \<open>A record from its call to the disk\<close>

lemma app_said: "app_step steals fair E F show_io x y \<Longrightarrow> prefix (c_said x) (c_said y)"
proof (induction rule: app_step.induct)
  case (c x y)
  then show ?case by (cases rule: c_talk.cases) (auto simp: c_after_def elim: c_own.cases)
qed (simp_all add: c_after_def)

lemma apps_said: "(sparing (app_step steals fair E F show_io))\<^sup>*\<^sup>* x y \<Longrightarrow> prefix (c_said x) (c_said y)"
  by (induction rule: rtranclp_induct) (auto simp: sparing_def intro: prefix_order.trans app_said)

text \<open>
  A record that was queued has its lines in the global file, in one piece, at every later rest
  of the thread, unless its signal was taken.
\<close>

lemma said_on_disk:
  assumes fit: "app_fit steals E F mx s0 x" and steps: "(sparing (app_step steals fair E F show_io))\<^sup>*\<^sup>* x y"
    and said: "c_said x = ks @ [d]" and rest: "finished (c_own E F show_io) y"
    and awake: "\<not> asleep y"
  shows "\<exists>c logs a b. p_logger (c_proc y) = Some c \<and> split_log E mx d = Some logs \<and>
    global_disk (c, p_world (c_proc y)) = a @ full_lines E logs @ b"
proof -
  have fy: "c_fit steals E F mx s0 y" using apps.steps_inv [OF fit steps] by (simp add: app_fit_def)
  then have env: "chunker (it_chunks E)" "0 < mx" by (simp_all add: c_fit_def safe_env_def)
  obtain ms where y: "c_said y = ks @ d # ms" using apps_said [OF steps] said by (auto simp: prefix_def)
  obtain c ls where c: "p_logger (c_proc y) = Some c" "split_str_into_chunks E (c_said y) mx = Some ls"
      "global_disk (c, p_world (c_proc y)) = global_stream s0 @ full_lines E ls"
    using rest_on_disk [OF fy rest] awake by fastforce
  obtain l1 l2 l3 where l: "split_str_into_chunks E ks mx = Some l1" "split_log E mx d = Some l2"
      "split_str_into_chunks E ms mx = Some l3"
    using split_chunks_Some [OF env] split_log_spec [OF env] by metis
  have "split_str_into_chunks E (d # ms) mx = Some (l2 @ l3)" using l by (simp add: split_chunks_simps)
  from split_chunks_append [OF l(1) this] have "ls = l1 @ l2 @ l3" using c(2) y by simp
  then have "global_disk (c, p_world (c_proc y)) =
      (global_stream s0 @ full_lines E l1) @ full_lines E l2 @ full_lines E l3" using c(3) by simp
  with c(1) l(2) show ?thesis by blast
qed

lemma fit_inited: "c_fit steals E F mx s0 x \<Longrightarrow> \<exists>c. p_logger (c_proc x) = Some c \<and> inited c"
  unfolding c_fit_def sane_def by blast

lemma after_queue_log:
  assumes "p_logger (c_proc x) = Some c" "p = (c_proc x)\<lparr>p_heap := h, p_logger := Some (queue_log d c)\<rparr>"
  shows "c_said (c_after x p) = c_said x @ [d]"
  using assms by (simp add: c_after_def queue_of_def queue_log_simps)

text \<open>A step that queues a record leaves a signal, so the thread is not asleep after it.\<close>

lemma front_call_awake:
  assumes "front_call (c_proc x) p" "p_logger (c_proc x) = Some c" "c_said (c_after x p) \<noteq> c_said x"
  shows "\<not> asleep (c_after x p)"
proof -
  obtain g h now lv tg msg fl ln col fn b u where u:
      "paper2_queue_log_ffi now lv tg msg fl ln col fn (c_proc x\<lparr>p_heap := g\<rparr>) = (Ok b, u)" "p = u\<lparr>p_heap := h\<rparr>"
    using assms(1) unfolding front_call_def by blast
  from u(1) show ?thesis
  proof (cases rule: queue_call_form)
    case same
    then show ?thesis using assms(3) u(2) by (simp add: c_after_def queue_of_def)
  next
    case (queued d)
    then show ?thesis using assms(2) u(2)
      by (simp add: asleep_def c_after_def queue_log_def queue_signal_def sem_signal_def)
  qed
qed

lemma queued_awake:
  assumes step: "app_step steals fair E F show_io x y" and fit: "app_fit steals E F mx s0 x"
    and said: "c_said y \<noteq> c_said x"
  shows "\<not> asleep y"
proof -
  obtain c where c: "p_logger (c_proc x) = Some c" using fit fit_inited unfolding app_fit_def by blast
  have h: "heap_ok (p_heap (c_proc x))" using fit by (simp add: app_fit_def)
  from step show ?thesis
  proof (cases rule: app_step.cases)
    case c
    then show ?thesis
    proof (cases rule: c_talk.cases)
      case (call p)
      then show ?thesis using call_awake \<open>p_logger (c_proc x) = Some c\<close> said by blast
    next
      case own
      then show ?thesis using said by (auto elim: c_ownE)
    qed
  next
    case (facade now lv r u p)
    then show ?thesis using facade_log_form [OF facade(2) h] front_call_awake c said by (auto simp: c_after_def)
  next
    case (event now tg e u p)
    then show ?thesis using front_call_awake [OF on_event_form [OF event(2) h] c] said by blast
  qed
qed

end
