(* ===== verification/Log_Paths.thy ===== *)
theory Log_Paths
  imports Front_Ends
begin

text \<open>
  The file at the path given to \<open>init_logger\<close>: whatever a program does, the path names the
  file the global writer writes to, so what the writer has put on disk is what a reader of the
  path finds.
\<close>

section \<open>Operations keep the names of files and the inode of the global file\<close>

definition file_view :: "'w st \<Rightarrow> (rstr \<Rightarrow> nat option) \<times> nat" where
  "file_view s = (names (w_fs (snd s)), w_ino (global_file (fst s)))"

lemma on_global_view:
  assumes "stays_local m"
  shows "frames file_view (on_global m)"
proof
  fix s :: "'w st"
  obtain c w where s: "s = (c, w)" by (cases s)
  obtain r f b where m: "m (w_fs w, global_file c) = (r, (f, b))" by (metis prod_cases3)
  from stays_localD [OF assms m] show "file_view (snd (on_global m s)) = file_view s"
    by (simp add: s on_global_def m file_view_def bw_local_def w_ino_def)
qed

lemma on_context_view:
  assumes "stays_local m"
  shows "frames file_view (on_context t m)"
proof
  fix s :: "'w st"
  obtain c w where s: "s = (c, w)" by (cases s)
  show "file_view (snd (on_context t m s)) = file_view s"
  proof (cases "context_map c t")
    case (Some x)
    obtain r f b where m: "m (w_fs w, x) = (r, (f, b))" by (metis prod_cases3)
    from stays_localD [OF assms m] show ?thesis
      by (simp add: s on_context_def Some m file_view_def bw_local_def)
  qed (simp add: s on_context_def)
qed

lemma world_only_view: "world_only m \<Longrightarrow> frames file_view m"
  by (simp add: frames_def world_only_def file_view_def)

lemma full_stays: "stays_local (write_to_io E d)"
  unfolding write_to_io_def by (intro for_each_stays write_all_stays)

lemma record_view: "frames file_view (file_do_log E d)"
  unfolding file_do_log_def
  by (intro frame_rules on_global_view full_stays) (simp split: option.splits, intro conjI allI impI frame_rules on_context_view compact_stays)

lemma signal_view: "frames file_view signal_flush"
  by (rule framesI) (simp add: signal_flush_def file_view_def split: prod.splits)

lemma flush_view: "frames file_view (lt_flush E ks)"
  unfolding lt_flush_def flush_def flush_files_def
  by (intro frame_rules on_global_view on_context_view signal_view bw_flush_grows(2))

lemma batch_view: "frames file_view (file_do_log_batch E ds)"
  unfolding batch_is_for_each by (intro frame_rules record_view)

lemma others_view: "frames file_view (for_each (other_backends E F) ds)"
  by (intro frame_rules world_only_view other_world_only)

lemma serve_view:
  assumes "serve E F show_io s t" "pool_ok (log_pool (sthr s))" "alive (lpc t)"
  shows "file_view (sst t) = file_view (sst s)"
  using assms
proof (cases rule: serve.cases)
  case take
  obtain q v th c where tk: "lt_take (sthr s) (fst (sst s)) = (q, v, th, c)" by (metis prod_cases4)
  from lt_take_spec(2) [OF assms(2) tk] show ?thesis by (simp add: take l_take_def file_view_def tk)
next
  case (batch q v)
  then show ?thesis
    by (simp add: l_batch_def framesD [OF batch_view] split: prod.splits option.splits)
next
  case (others logs v)
  then show ?thesis by (simp add: l_others_def framesD [OF others_view] split: prod.splits)
next
  case (flush v ks)
  then show ?thesis by (simp add: l_flush_def framesD [OF flush_view] split: prod.splits)
next
  case (exit e ks)
  then show ?thesis using assms(3) ending_dies [OF exit_flush_ending] by blast
next
  case (report e now)
  then show ?thesis using assms(3) ending_dies [OF report_ending] by blast
next
  case (notify d)
  then show ?thesis using assms(3) ending_dies [OF notify_ending] by blast
qed (simp_all add: file_view_def queue_push_def queue_signal_def wait_for_flush_poll_def l_check_def
    l_wait_check_def l_wake_def split: prod.splits)

section \<open>The path names the global file\<close>

definition at_path :: "'z os_scheme \<Rightarrow> rstr \<Rightarrow> 'w proc \<Rightarrow> bool" where
  "at_path E path p \<longleftrightarrow> (\<exists>c. p_logger p = Some c \<and>
     names (w_fs (p_world p)) (os_resolve E path) = Some (w_ino (global_file c)))"

text \<open>What a reader of a path finds.\<close>

definition read_file :: "'z os_scheme \<Rightarrow> rstr \<Rightarrow> fs \<Rightarrow> byte list option" where
  "read_file E path f = map_option (inodes f) (names f (os_resolve E path))"

lemma at_path_read:
  "at_path E path p \<Longrightarrow> p_logger p = Some c \<Longrightarrow>
   read_file E path (w_fs (p_world p)) = Some (global_disk (c, p_world p))"
  by (auto simp: at_path_def read_file_def global_disk_def bw_disk_def w_ino_def)

lemma drop_names: "names (drop_opt E b f) = names f"
proof (cases b)
  case (Some x)
  obtain r g y where m: "bw_flush_buf E (f, x) = (r, (g, y))" by (metis prod_cases3)
  from stays_localD [OF flush_buf_stays m] show ?thesis by (simp add: Some drop_opt_def bw_drop_def m bw_local_def)
qed (simp add: drop_opt_def)

lemma create_names: "names f q = Some i \<Longrightarrow> names (snd (file_create E p f)) q = Some i"
  by (auto simp: file_create_def Let_def split: option.splits)

lemma add_context_names:
  assumes "add_context E t (c, w) = (r, (d, w'))" "names (w_fs w) q = Some i"
  shows "names (w_fs w') q = Some i" "global_file d = global_file c"
  using assms create_names [OF assms(2), of E "context_path c t"]
  by (auto simp: add_context_def Let_def drop_names split: prod.splits res.splits)

lemma queue_log_file: "global_file (queue_log x d) = global_file d"
  by (simp add: queue_log_def queue_push_def queue_signal_def)

lemma ffi_at_path:
  assumes step: "ffi_step E show_io p q" and at: "at_path E path p"
  shows "at_path E path q"
  using step
proof (cases rule: ffi_step.cases)
  case (init conf pt b)
  then show ?thesis using init_again_same at unfolding at_path_def by blast
next
  case (register now pt u)
  obtain c where c: "p_logger p = Some c" "names (w_fs (p_world p)) (os_resolve E path) = Some (w_ino (global_file c))"
    using at by (auto simp: at_path_def)
  show ?thesis
  proof (cases "pt = 0")
    case False
    obtain tg s1 where rd: "read_lossy pt p = (Ok tg, s1)"
      using register False c by (auto simp: paper2_register_context_id_def with_logger_def get_logger_def elim!: bind_act_OkE)
    have s1: "s1 = p" using read_lossy_Ok [OF rd] by simp
    obtain r d w where a: "add_context E tg (c, p_world p) = (r, (d, w))" by (metis prod_cases3)
    from add_context_names [OF a c(2)] register False rd show ?thesis
      by (cases r) (auto simp: paper2_register_context_id_def with_logger_def get_logger_def c bind_act_def s1 a
          at_path_def queue_log_file)
  qed (use register at in \<open>simp add: paper2_register_context_id_def\<close>)
next
  case (unregister pt u)
  obtain c where c: "p_logger p = Some c" "names (w_fs (p_world p)) (os_resolve E path) = Some (w_ino (global_file c))"
    using at by (auto simp: at_path_def)
  show ?thesis
  proof (cases "pt = 0")
    case False
    obtain tg s1 where rd: "read_lossy pt p = (Ok tg, s1)"
      using unregister False c by (auto simp: paper2_unregister_context_id_def with_logger_def get_logger_def elim!: bind_act_OkE)
    have s1: "s1 = p" using read_lossy_Ok [OF rd] by simp
    from unregister False rd c show ?thesis
      by (auto simp: paper2_unregister_context_id_def with_logger_def get_logger_def bind_act_def s1 remove_context_def
          at_path_def drop_names)
  qed (use unregister at in \<open>simp add: paper2_unregister_context_id_def\<close>)
next
  case (queue now lv tg msg fl ln col fn b)
  then show ?thesis using at by (cases rule: queue_call_form) (auto simp: at_path_def queue_log_file)
qed (use at in \<open>auto simp: at_path_def paper2_add_log_sink_def with_logger_def get_logger_def set_ctx_def seq_act_def
    bind_act_def ret_Ok add_sink_def paper2_wait_for_flush_def wait_flush_timeout_alone wait_for_flush_poll_def
    paper2_get_log_directory_def paper2_free_c_string_def split: option.splits prod.splits bool.splits if_splits\<close>)

lemma own_at_path:
  assumes step: "c_own E F show_io x y" and fit: "c_fit steals E F mx s0 x" and at: "at_path E path (c_proc x)"
  shows "at_path E path (c_proc y)"
  using step fit
proof (rule own_serves)
  fix c t assume c: "p_logger (c_proc x) = Some c" and t: "serve E F show_io (c_view c x) t"
    "y = x\<lparr>c_proc := (c_proc x)\<lparr>p_logger := Some (fst (sst t)), p_world := snd (sst t)\<rparr>, c_thr := sthr t, c_pc := lpc t\<rparr>"
    and pool: "pool_ok (log_pool (sthr (c_view c x)))" and l: "living t"
  have "file_view (sst t) = file_view (sst (c_view c x))"
    by (rule serve_view [OF t(1) pool]) (use l in \<open>simp add: living_def\<close>)
  then show "at_path E path (c_proc y)" using at c by (simp add: at_path_def t(2) file_view_def c_view_def)
qed

lemma talk_at_path:
  assumes "sparing (c_talk steals fair E F show_io) x y" "c_fit steals E F mx s0 x" "at_path E path (c_proc x)"
  shows "at_path E path (c_proc y)"
  using assms(1) [unfolded sparing_def, THEN conjunct1]
proof (cases rule: c_talk.cases)
  case (call p)
  then show ?thesis using ffi_at_path assms(3) by (simp add: c_after_def)
next
  case own
  then show ?thesis using own_at_path assms(2,3) by blast
qed

text \<open>The same along every program.\<close>

definition path_fit :: "bool \<Rightarrow> 'z aenv_scheme \<Rightarrow> features \<Rightarrow> nat \<Rightarrow> 'w st \<Rightarrow> rstr \<Rightarrow> 'w c_sys \<Rightarrow> bool" where
  "path_fit steals E F mx s0 path x \<longleftrightarrow> app_fit steals E F mx s0 x \<and> at_path E path (c_proc x)"

lemma fit_logger:
  assumes "path_fit steals E F mx s0 path x"
  shows "\<exists>c. p_logger (c_proc x) = Some c \<and> inited c \<and> heap_ok (p_heap (c_proc x))"
proof -
  have "c_fit steals E F mx s0 x" "heap_ok (p_heap (c_proc x))" using assms by (simp_all add: path_fit_def app_fit_def)
  then show ?thesis using fit_inited by blast
qed

interpretation talk_paths: inductive_invariant
  "\<lambda>x. c_fit steals E F mx s0 x \<and> at_path E path (c_proc x)" "sparing (c_talk steals fair E F show_io)"
  "\<lambda>x. c_fit steals E F mx s0 x \<and> at_path E path (c_proc x)"
  by unfold_locales (blast intro: talk_fit talk_at_path)+

interpretation app_paths: inductive_invariant
  "\<lambda>x. c_ready E F mx s0 x \<and> heap_ok (p_heap (c_proc x)) \<and> at_path E path (c_proc x)"
  "sparing (app_step steals fair E F show_io)" "path_fit steals E F mx s0 path"
proof unfold_locales
  show "path_fit steals E F mx s0 path x"
    if "c_ready E F mx s0 x \<and> heap_ok (p_heap (c_proc x)) \<and> at_path E path (c_proc x)" for x
    using that apps.inv_init unfolding path_fit_def by blast
  show "path_fit steals E F mx s0 path y" if p: "path_fit steals E F mx s0 path x" and step: "sparing (app_step steals fair E F show_io) x y" for x y
  proof -
    have fit: "app_fit steals E F mx s0 x" and inv: "c_fit steals E F mx s0 x \<and> at_path E path (c_proc x)"
      using p by (simp_all add: path_fit_def app_fit_def)
    have "(sparing (c_talk steals fair E F show_io))\<^sup>*\<^sup>* x y" using app_talks [OF step fit] by blast
    from talk_paths.steps_inv [OF inv this] app_fit_step [OF step fit] show ?thesis by (simp add: path_fit_def)
  qed
qed

text \<open>A record of a front end leaves a fit program.\<close>

lemma front_fit:
  assumes fit: "path_fit steals E F mx s0 path x" and step: "app_step steals False E F show_io x (c_after x p)"
    and p: "p = c_proc x \<or> front_call (c_proc x) p"
  shows "path_fit steals E F mx s0 path (c_after x p)"
proof -
  have "spares_global (c_proc x)" using fit fit_spares unfolding path_fit_def app_fit_def by blast
  then have "spares_global p" using p front_call_spares by blast
  then have "sparing (app_step steals False E F show_io) x (c_after x p)"
    using step by (simp add: sparing_def c_after_def)
  then show ?thesis by (rule app_paths.inv_step [OF fit])
qed

lemma facade_fit:
  assumes fit: "path_fit steals E F mx s0 path x" and call: "facade_log now lv r (c_proc x) = (Ok u, p)"
  shows "path_fit steals E F mx s0 path (c_after x p)"
proof -
  have "heap_ok (p_heap (c_proc x))" using fit unfolding path_fit_def app_fit_def by blast
  from front_fit [OF fit app_step.facade [OF call] facade_log_form [OF call this]] show ?thesis by simp
qed

lemma event_fit:
  assumes fit: "path_fit steals E F mx s0 path x" and call: "on_event now tg e (c_proc x) = (Ok u, p)"
  shows "path_fit steals E F mx s0 path (c_after x p)"
proof -
  have "heap_ok (p_heap (c_proc x))" using fit unfolding path_fit_def app_fit_def by blast
  from front_fit [OF fit app_step.event [OF call] disjI2 [OF on_event_form [OF call this]]] show ?thesis by simp
qed

lemma owns_path:
  assumes "(c_own E F show_io)\<^sup>*\<^sup>* x y" "path_fit steals E F mx s0 path x"
  shows "(sparing (app_step steals fair E F show_io))\<^sup>*\<^sup>* x y"
  using owns_app [OF assms(1)] assms(2) unfolding path_fit_def by blast

section \<open>The first start\<close>

lemma conv_err_OkE: "conv_err f m s = (Ok a, t) \<Longrightarrow> (m s = (Ok a, t) \<Longrightarrow> thesis) \<Longrightarrow> thesis"
  by (cases "m s"; cases "fst (m s)") (auto simp: conv_err_def)

lemma ctx_new_names:
  assumes "ctx_new E cfg p f = (Ok c, g)"
  shows "names g (os_resolve E p) = Some (w_ino (global_file c))"
proof -
  obtain f2 h where "file_create E p f2 = (Ok h, g)" "c = ctx_init cfg (bw_new h)"
    using assms by (auto simp: ctx_new_def elim!: seq_act_OkE bind_act_OkE conv_err_OkE)
  then show ?thesis
    by (auto simp: file_create_def Let_def ctx_init_def w_ino_def bw_new_def split: option.splits)
qed

lemma init_logger_form:
  assumes run: "init_logger E cfg ps s = (Ok (), t)" and none: "p_logger s = None"
  obtains c g where "ctx_new E cfg ps (w_fs (p_world s)) = (Ok c, g)" "p_logger t = Some (c\<lparr>inited := True\<rparr>)"
    "w_fs (p_world t) = g" "p_heap t = p_heap s"
proof (rule make_logger_cases [of E cfg ps "p_world s"])
  fix c g
  assume n: "ctx_new E cfg ps (w_fs (p_world s)) = (Ok c, g)"
    and m: "make_logger E cfg ps (p_world s) =
      (Ok (c\<lparr>inited := True\<rparr>), (p_world s)\<lparr>w_fs := g, w_threads := Suc (w_threads (p_world s))\<rparr>)"
  show thesis by (rule that [OF n]) (use run none m in \<open>auto simp: init_logger_def\<close>)
next
  fix e g
  assume "make_logger E cfg ps (p_world s) = (Panic ''Unable to create logger'', (p_world s)\<lparr>w_fs := g\<rparr>)"
  then show thesis using run none by (simp add: init_logger_def)
qed

lemma init_call_form:
  assumes run: "paper2_init_logger_ffi E conf path s = (Ok True, t)" and held: "holds (p_heap s) path ps"
  obtains cfg where "init_logger E cfg ps s = (Ok (), t)" "conf = None \<Longrightarrow> cfg = default_config"
proof -
  have c: "path \<noteq> 0" "read_cstr path s = (Ok (utf8 ps), s)" "from_utf8 (utf8 ps) = Some ps"
    using held by (auto simp: holds_def from_utf8_utf8)
  let ?m = "case conf of None \<Rightarrow> ret default_config | Some k \<Rightarrow> config_from k"
  obtain cfg s1 where cfg: "?m s = (Ok cfg, s1)" and i: "(case init_logger E cfg ps s1 of
      (Ok u, t) \<Rightarrow> (Ok True, t) | (Err e, t) \<Rightarrow> (Ok False, t) | (Panic p, t) \<Rightarrow> (Panic p, t)) = (Ok True :: (fault, bool) res, t)"
    using run c by (auto simp: paper2_init_logger_ffi_def elim!: bind_act_OkE)
  have "s1 = s"
    using cfg by (auto simp: config_from_def ret_Ok split: option.splits elim!: bind_act_OkE dest!: read_lossy_Ok)
  then show ?thesis
    using that [of cfg] i cfg by (auto simp: ret_Ok split: prod.splits res.splits option.splits)
qed

lemma first_config:
  assumes none: "p_logger p0 = None" and held: "holds (p_heap p0) path ps"
    and run: "paper2_init_logger_ffi E None path p0 = (Ok True, p1)"
  shows "\<exists>c0. p_logger p1 = Some c0 \<and> config c0 = default_config"
proof -
  obtain cfg where i: "init_logger E cfg ps p0 = (Ok (), p1)" "cfg = default_config"
    using init_call_form [OF run held] by blast
  obtain c g where "ctx_new E cfg ps (w_fs (p_world p0)) = (Ok c, g)" "p_logger p1 = Some (c\<lparr>inited := True\<rparr>)"
    using init_logger_form [OF i(1) none] by blast
  moreover from ctx_new_init [OF this(1)] have "config c = cfg" by (auto simp: ctx_init_def)
  ultimately show ?thesis using i(2) by simp
qed

lemma first_start:
  assumes ok: "proc_ok p0" "p_logger p0 = None" and held: "holds (p_heap p0) path ps"
    and run: "paper2_init_logger_ffi E conf path p0 = (Ok True, p1)" "p_logger p1 = Some c0"
    and x0: "x0 = \<lparr>c_proc = p1, c_thr = thr_init, c_pc = LT_Start, c_said = []\<rparr>"
    and env: "safe_env E F (max_string_len (config c0))"
  shows "path_fit steals E F (max_string_len (config c0)) (c0, p_world p1) ps x0"
    "global_stream (c0, p_world p1) = []"
proof -
  note st = init_call_starts [OF ok run(2,1)]
  obtain cfg where i: "init_logger E cfg ps p0 = (Ok (), p1)"
    using init_call_form [OF run(1) held] by blast
  obtain c g where n: "ctx_new E cfg ps (w_fs (p_world p0)) = (Ok c, g)" "p_logger p1 = Some (c\<lparr>inited := True\<rparr>)"
      "w_fs (p_world p1) = g"
    using init_logger_form [OF i ok(2)] by blast
  have "at_path E ps p1" using ctx_new_names [OF n(1)] n(2,3) by (simp add: at_path_def)
  moreover have "heap_ok (p_heap p1)" using st ok(1) by (simp add: proc_ok_def)
  ultimately show "path_fit steals E F (max_string_len (config c0)) (c0, p_world p1) ps x0"
    using st env run(2) by (intro app_paths.inv_init) (simp add: x0 c_started_def)
  show "global_stream (c0, p_world p1) = []" using st by blast
qed

text \<open>At rest the path has everything that was said, unless the signal was taken.\<close>

lemma rest_at_path:
  assumes fit: "path_fit steals E F mx s0 path x" and rest: "finished (c_own E F show_io) x"
  shows "\<exists>v c dn logs. c_pc x = LT_Blocked v \<and> p_logger (c_proc x) = Some c \<and>
    (log_queue c = [] \<or> asleep x) \<and> c_said x = dn @ log_queue c \<and> split_str_into_chunks E dn mx = Some logs \<and>
    read_file E path (w_fs (p_world (c_proc x))) = Some (global_stream s0 @ full_lines E logs)"
proof -
  have "c_fit steals E F mx s0 x" "at_path E path (c_proc x)" using fit by (simp_all add: path_fit_def app_fit_def)
  with rest_on_disk [OF this(1) rest] at_path_read show ?thesis by metis
qed

text \<open>A record queued by a step of a program, at every later rest.\<close>

lemma record_at_path:
  assumes fit: "path_fit steals E F mx s0 path x" and step: "app_step steals fair E F show_io x (c_after x p)"
    and c: "p_logger (c_proc x) = Some c" and p: "p = (c_proc x)\<lparr>p_heap := h, p_logger := Some (queue_log d c)\<rparr>"
    and later: "(sparing (app_step steals fair E F show_io))\<^sup>*\<^sup>* (c_after x p) y"
    and rest: "finished (c_own E F show_io) y" "steals \<longrightarrow> \<not> asleep y"
  shows "\<exists>a b logs. read_file E path (w_fs (p_world (c_proc y))) = Some (a @ full_lines E logs @ b) \<and>
    concat (map message logs) = filter (\<lambda>c. c \<noteq> 10) (message d) \<and> (\<forall>q\<in>set logs. q = d\<lparr>message := message q\<rparr>)"
proof -
  have "spares_global (c_proc x)" using fit fit_spares unfolding path_fit_def app_fit_def by blast
  then have "spares_global p" by (simp add: p spares_global_def c queue_log_simps)
  then have "sparing (app_step steals fair E F show_io) x (c_after x p)"
    using step by (simp add: sparing_def c_after_def)
  then have fit': "path_fit steals E F mx s0 path (c_after x p)" by (rule app_paths.inv_step [OF fit])
  have fy: "path_fit steals E F mx s0 path y" by (rule app_paths.steps_inv [OF fit' later])
  have a: "app_fit steals E F mx s0 (c_after x p)" "c_fit steals E F mx s0 y" "at_path E path (c_proc y)"
    using fit' fy by (simp_all add: path_fit_def app_fit_def)
  have "\<not> asleep y" using fit_unasleep [OF a(2)] rest(2) by blast
  from said_on_disk [OF a(1) later after_queue_log [OF c p] rest(1) this]
  obtain e logs u v where d: "p_logger (c_proc y) = Some e" "split_log E mx d = Some logs"
      "global_disk (e, p_world (c_proc y)) = u @ full_lines E logs @ v"
    by blast
  then have "read_file E path (w_fs (p_world (c_proc y))) = Some (u @ full_lines E logs @ v)"
    using at_path_read [OF a(3) d(1)] by simp
  moreover have "chunker (it_chunks E)" "0 < mx" using a(2) by (simp_all add: c_fit_def safe_env_def)
  then have "concat (map message logs) = filter (\<lambda>c. c \<noteq> 10) (message d) \<and> (\<forall>q\<in>set logs. q = d\<lparr>message := message q\<rparr>)"
    using split_log_spec [of E mx d] d(2) by auto
  ultimately show ?thesis by blast
qed

end
