(* ===== verification/Facade_Test.thy ===== *)
theory Facade_Test
  imports Log_Paths Text_Files
begin

text \<open>
  The test \<open>install_and_log\<close> of \<open>paper2_log/src/lib.rs\<close>, the one program of the repository that
  uses the facade: it starts the logger on a file, installs the facade, logs one record and
  polls the file for its message.
\<close>

section \<open>The test\<close>

definition smoke_message :: rstr where
  "smoke_message = lit ''paper2_log facade test message''"

definition smoke_record :: l_record where
  "smoke_record =
     \<lparr>l_level = L_Info, l_module_path = Some (lit ''paper2_log_test''), l_args = smoke_message,
      l_file = Some (lit ''test.rs''), l_line = Some 1\<rparr>"

text \<open>
  The start of the logger, with a null configuration, on a file in a new directory; a failure
  to make the directory is ignored.  The result is the path of the file.
\<close>

definition smoke_init :: "'z os_scheme \<Rightarrow> rstr \<Rightarrow> nat \<Rightarrow> ('w, rstr) ffi" where
  "smoke_init E temp_dir pid s =
     (let tmp = path_join temp_dir (lit ''paperlog_test_'' @ show_nat pid);
          f = snd (create_dir_all E tmp (w_fs (p_world s)));
          log_path = path_join tmp (lit ''paper2_log_smoke.log'')
      in bind_act (arg_unwrap log_path) (\<lambda>path_c.
         bind_act (paper2_init_logger_ffi E None path_c) (\<lambda>_. ret log_path))
         (s\<lparr>p_world := (p_world s)\<lparr>w_fs := f\<rparr>\<rparr>))"

text \<open>
  Installing the facade, the result dropped, and logging the record directly.  The state of the
  \<open>log\<close> crate and its operations are parameters.
\<close>

definition smoke_level ::
  "('l, 'e, unit) act \<Rightarrow> (nat \<Rightarrow> 'l \<Rightarrow> 'l) \<Rightarrow> ('l \<Rightarrow> nat) \<Rightarrow> 'l \<Rightarrow> nat" where
  "smoke_level set_boxed_logger set_max_level max_level l =
     max_level (snd (init_with_max_level set_boxed_logger set_max_level (l_rank L_Info) l))"

definition smoke_log ::
  "instant \<Rightarrow> ('l, 'e, unit) act \<Rightarrow> (nat \<Rightarrow> 'l \<Rightarrow> 'l) \<Rightarrow> ('l \<Rightarrow> nat) \<Rightarrow> 'l \<Rightarrow> ('w, unit) ffi" where
  "smoke_log now set_boxed_logger set_max_level max_level l =
     facade_log now (smoke_level set_boxed_logger set_max_level max_level l) smoke_record"

text \<open>One poll, and the loop over the states it sees; reading a file that is there succeeds.\<close>

definition smoke_poll :: "'z os_scheme \<Rightarrow> rstr \<Rightarrow> 'w proc \<Rightarrow> bool" where
  "smoke_poll E log_path s =
     (case read_file E log_path (w_fs (p_world s)) of
        None \<Rightarrow> False
      | Some bs \<Rightarrow> (case from_utf8 bs of None \<Rightarrow> False | Some contents \<Rightarrow> sublist smoke_message contents))"

definition smoke_found :: "'z os_scheme \<Rightarrow> rstr \<Rightarrow> 'w proc list \<Rightarrow> bool" where
  "smoke_found E log_path ss = list_ex (smoke_poll E log_path) (take 200 ss)"

section \<open>The start\<close>

lemma path_join_set: "set (path_join b t) \<subseteq> set b \<union> set t \<union> {47}"
  by (auto simp: path_join_def)

lemma show_nat_text: "rust_str (show_nat n) \<and> 0 \<notin> set (show_nat n)"
  using show_nat_digits [of n] by auto

lemma smoke_path_text:
  assumes "rust_str temp_dir" "0 \<notin> set temp_dir"
  shows "rust_str (path_join (path_join temp_dir (lit ''paperlog_test_'' @ show_nat pid)) (lit ''paper2_log_smoke.log'')) \<and>
    0 \<notin> set (path_join (path_join temp_dir (lit ''paperlog_test_'' @ show_nat pid)) (lit ''paper2_log_smoke.log''))"
proof -
  let ?a = "lit ''paperlog_test_'' @ show_nat pid" let ?b = "lit ''paper2_log_smoke.log''"
  have "set (path_join (path_join temp_dir ?a) ?b) \<subseteq> set temp_dir \<union> set ?a \<union> set ?b \<union> {47}"
    using path_join_set [of "path_join temp_dir ?a" ?b] path_join_set [of temp_dir ?a] by blast
  moreover have "rust_str ?a" "0 \<notin> set ?a" "rust_str ?b" "0 \<notin> set ?b" "scalar 47"
    using show_nat_text [of pid] by (simp_all add: lit_def scalar_def)
  ultimately show ?thesis using assms unfolding rust_str_iff by auto
qed

lemma init_call_true:
  assumes "paper2_init_logger_ffi E conf path s = (Ok b, t)" "holds (p_heap s) path ps" "conf = None"
  shows "b"
proof -
  have "path \<noteq> 0" "read_cstr path s = (Ok (utf8 ps), s)" "from_utf8 (utf8 ps) = Some ps"
    using assms(2) by (auto simp: holds_def from_utf8_utf8)
  then show ?thesis using assms(1,3) init_logger_no_Err [of E default_config ps s]
    by (auto simp: paper2_init_logger_ffi_def bind_act_def ret_Ok split: prod.splits res.splits)
qed

lemma smoke_init_starts:
  assumes ok: "proc_ok p0" "p_logger p0 = None" and dir: "rust_str temp_dir" "0 \<notin> set temp_dir"
    and run: "smoke_init E temp_dir pid p0 = (Ok path, p1)" and env: "safe_env E F 1024"
    and x0: "x0 = \<lparr>c_proc = p1, c_thr = thr_init, c_pc = LT_Start, c_said = []\<rparr>"
  obtains s0 where "path_fit steals E F 1024 s0 path x0" "global_stream s0 = []"
proof -
  let ?tmp = "path_join temp_dir (lit ''paperlog_test_'' @ show_nat pid)"
  let ?path = "path_join ?tmp (lit ''paper2_log_smoke.log'')"
  let ?f = "snd (create_dir_all E ?tmp (w_fs (p_world p0)))"
  let ?s = "p0\<lparr>p_world := (p_world p0)\<lparr>w_fs := ?f\<rparr>\<rparr>"
  have "fs_ok ?f" using ok(1) create_dir_all_fs_ok [of E ?tmp] unfolding keeps_def proc_ok_def by blast
  then have s: "proc_ok ?s" using ok by (simp add: proc_ok_def)
  have pt: "rust_str ?path" "0 \<notin> set ?path" using smoke_path_text [OF dir] by blast+
  have h: "heap_ok (p_heap ?s)" using s by (simp add: proc_ok_def)
  obtain p h1 where al: "arg_alloc (cstring_ok (Some ?path)) ?s = (Ok p, ?s\<lparr>p_heap := h1\<rparr>)" "heap_ok h1"
      "holds_opt h1 p (Some ?path)"
    by (rule arg_alloc_holds [OF h, of "Some ?path"]) (use pt in auto)
  have held: "holds (p_heap (?s\<lparr>p_heap := h1\<rparr>)) p ?path" using al(3) by (simp add: holds_opt_Some)
  obtain b where i: "paper2_init_logger_ffi E None p (?s\<lparr>p_heap := h1\<rparr>) = (Ok b, p1)" "path = ?path"
    using run al(1) by (auto simp: smoke_init_def Let_def arg_unwrap_alloc [OF pt] ret_Ok elim!: bind_act_OkE)
  then have i': "paper2_init_logger_ffi E None p (?s\<lparr>p_heap := h1\<rparr>) = (Ok True, p1)"
    using init_call_true [OF i(1) held] by simp
  have ok2: "proc_ok (?s\<lparr>p_heap := h1\<rparr>)" "p_logger (?s\<lparr>p_heap := h1\<rparr>) = None"
    using s al(2) ok(2) by (simp_all add: proc_ok_def)
  obtain c0 where c0: "p_logger p1 = Some c0" "config c0 = default_config"
    using first_config [OF ok2(2) held i'] by blast
  then have "max_string_len (config c0) = 1024" by (simp add: default_config_def)
  with first_start [OF ok2 held i' c0(1) x0, of F] env that show ?thesis using i(2) by metis
qed

section \<open>The record\<close>

definition smoke_data :: "instant \<Rightarrow> log_data" where
  "smoke_data now = log_data_new Info (Some (lit ''paper2_log_test'')) smoke_message (lit ''test.rs'') 1 0
     (Some (lit ''paper2_log_test'')) now"

text \<open>The message is one line and one chunk.\<close>

lemma smoke_chunk: "chunks_ref 1024 smoke_message = Some [smoke_message]"
  by (simp add: chunks_ref_def smoke_message_def lit_def)

lemma smoke_split:
  assumes "chunker (it_chunks E)"
  shows "split_log E 1024 (smoke_data now) = Some [smoke_data now]"
proof -
  have "split_on 10 smoke_message = [smoke_message]" by (simp add: smoke_message_def lit_def)
  then show ?thesis
    by (simp add: split_log_def smoke_data_def log_data_new_def chunker.chunks_are_ref [OF assms] smoke_chunk)
qed

lemma smoke_line:
  assumes "dates_ok E"
  shows "\<exists>x. from_utf8 (full_lines E [smoke_data now]) = Some x \<and> sublist smoke_message x"
proof -
  let ?x = "concat (full_pieces E (smoke_data now))"
  have "log_data_ok (smoke_data now)"
    by (simp add: log_data_ok_def smoke_data_def log_data_new_def smoke_message_def)
  then have "rust_str ?x" using pieces_typed(1) [OF assms] by blast
  then have "from_utf8 (full_lines E [smoke_data now]) = Some ?x" by (simp add: full_line_def from_utf8_utf8)
  moreover have "smoke_message \<in> set (full_pieces E (smoke_data now))"
    by (simp add: full_pieces_def smoke_data_def log_data_new_def)
  then have "sublist smoke_message ?x" by (metis concat.simps(2) concat_append split_list sublist_appendI)
  ultimately show ?thesis by blast
qed

lemma smoke_log_queues:
  assumes c: "p_logger s = Some c" "inited c" "heap_ok (p_heap s)"
    and run: "smoke_log now sb sm ml l s = (Ok (), p)" and lv: "3 \<le> smoke_level sb sm ml l"
  shows "\<exists>h. p = s\<lparr>p_heap := h, p_logger := Some (queue_log (smoke_data now) c)\<rparr>"
proof -
  have en: "facade_enabled (smoke_level sb sm ml l) (l_level smoke_record)"
    using lv by (simp add: facade_enabled_def smoke_record_def)
  have "\<exists>h. facade_log now (smoke_level sb sm ml l) smoke_record s = (Ok (), s\<lparr>p_heap := h,
    p_logger := Some (queue_log (log_data_new (log_map_level (l_level smoke_record)) (l_module_path smoke_record)
      (l_args smoke_record) (lit ''test.rs'') (unwrap_or (l_line smoke_record) 0) 0 (l_module_path smoke_record) now) c)\<rparr>)"
    by (rule log_facade_queues [OF en c])
      (auto simp: smoke_record_def smoke_message_def, simp_all add: lit_def)
  then show ?thesis using run by (auto simp: smoke_log_def smoke_record_def smoke_data_def)
qed

lemma smoke_log_filtered:
  assumes "smoke_level sb sm ml l < 3"
  shows "smoke_log now sb sm ml l s = (Ok (), s)"
  using assms by (simp add: smoke_log_def facade_log_def facade_enabled_def smoke_record_def)

section \<open>The outcome\<close>

lemma smoke_rest:
  assumes fit: "path_fit False E F 1024 s0 path y" and s0: "global_stream s0 = []" and dt: "dates_ok E"
    and rest: "finished (c_own E F show_io) y" and said: "c_said y = (if b then [smoke_data now] else [])"
  shows "smoke_poll E path (c_proc y) = b"
proof -
  obtain logs where l: "split_str_into_chunks E (c_said y) 1024 = Some logs"
      "read_file E path (w_fs (p_world (c_proc y))) = Some (full_lines E logs)"
    using rest_at_path [OF fit rest] fit_unasleep [of False] fit s0 by (fastforce simp: path_fit_def app_fit_def)
  have ch: "chunker (it_chunks E)" using fit by (simp add: path_fit_def app_fit_def c_fit_def safe_env_def)
  show ?thesis
  proof (cases b)
    case True
    then have "logs = [smoke_data now]" using l(1) said smoke_split [OF ch] by (simp add: split_chunks_simps)
    then show ?thesis using l(2) smoke_line [OF dt, of now] True by (auto simp: smoke_poll_def)
  next
    case False
    then have "logs = []" using l(1) said by (simp add: split_chunks_simps)
    then show ?thesis using l(2) False by (simp add: smoke_poll_def smoke_message_def lit_def)
  qed
qed

end
