(* ===== verification/Lock_Usage.thy ===== *)
theory Lock_Usage
  imports Prelude
begin

text \<open>
  How the program uses the reader-writer lock of the logger.  Each function of \<open>src/ffi.rs\<close>,
  each round of the log thread and the panic hook is the list of its operations on the lock,
  in program order.  The lock excludes: a writer first claims it, one writer at a time, and
  then waits for the readers to leave.  Whether a waiting writer keeps new readers out, also
  those that hold the lock already, as parking_lot documents, is the parameter \<open>fair\<close>.  A call of
  \<open>wait_for_flush\<close> holds the read lock while it waits; \<open>wake\<close> says whether a signal comes to
  those that wait without a timeout.
  The sinks are called with the read lock held, so what they do with the logger is nested.
\<close>

section \<open>The operations of the code\<close>

datatype lock_op = RLock | RUnlock | WLock | WUnlock | Await bool

datatype api_call =
    A_Queue_Log
  | A_Register bool
  | A_Unregister
  | A_Add_Sink
  | A_Log_Directory
  | A_Get_Inited
  | A_Wait
  | A_Wait_Timeout

text \<open>\<open>Await True\<close>: a wait with a timeout.  \<open>A_Register False\<close> is a registration that fails and queues its report.\<close>

fun api_locks :: "api_call \<Rightarrow> lock_op list" where
  "api_locks A_Queue_Log = [RLock, RUnlock]"
| "api_locks (A_Register ok) = [WLock, WUnlock] @ (if ok then [] else [RLock, RUnlock])"
| "api_locks A_Unregister = [WLock, WUnlock]"
| "api_locks A_Add_Sink = [WLock, WUnlock]"
| "api_locks A_Log_Directory = [RLock, RUnlock]"
| "api_locks A_Get_Inited = [RLock, RUnlock]"
| "api_locks A_Wait = [RLock, Await False, RUnlock]"
| "api_locks A_Wait_Timeout = [RLock, Await True, RUnlock]"

text \<open>\<open>do_log\<close>: the file backend writes, the sinks are read; \<open>x\<close> is what the sinks do.\<close>

definition sink_locks :: "lock_op list \<Rightarrow> lock_op list" where
  "sink_locks x = RLock # x @ [RUnlock]"

definition do_log_locks :: "lock_op list \<Rightarrow> lock_op list" where
  "do_log_locks x = [WLock, WUnlock] @ sink_locks x"

text \<open>The panic hook logs one record, one more with a backtrace and one with a span trace.\<close>

definition hook_locks :: "bool \<Rightarrow> bool \<Rightarrow> lock_op list" where
  "hook_locks backtrace spantrace =
     do_log_locks [] @ (if backtrace then do_log_locks [] else []) @ (if spantrace then do_log_locks [] else [])"

text \<open>
  A round of \<open>log_thread\<close>: with a batch the configuration is read, the batch written, and each
  record handed to the sinks (\<open>xs\<close>, one entry a record); then the files may be flushed.
\<close>

definition round_locks :: "lock_op list list option \<Rightarrow> bool \<Rightarrow> lock_op list" where
  "round_locks batch flushes =
     (case batch of
        None \<Rightarrow> []
      | Some xs \<Rightarrow> [RLock, RUnlock] @ [WLock, WUnlock] @ concat (map sink_locks xs)) @
     (if flushes then [WLock, WUnlock] else [])"

text \<open>The thread after an error: a flush, and the report of the error.\<close>

definition exit_locks :: "lock_op list" where
  "exit_locks = [WLock, WUnlock] @ do_log_locks []"

section \<open>The lock\<close>

record locks =
  prog :: "nat \<Rightarrow> lock_op list"
  reading :: "nat \<Rightarrow> nat"
  claimed :: "nat option"

definition lock_init :: "(nat \<Rightarrow> lock_op list) \<Rightarrow> locks \<Rightarrow> bool" where
  "lock_init ps s \<longleftrightarrow> s = \<lparr>prog = ps, reading = (\<lambda>_. 0), claimed = None\<rparr>"

abbreviation next_op :: "nat \<Rightarrow> lock_op list \<Rightarrow> locks \<Rightarrow> locks" where
  "next_op i ops s \<equiv> s\<lparr>prog := (prog s)(i := ops)\<rparr>"

text \<open>Whether a reader gets in: no writer holds the lock, and with a fair lock none waits for it.\<close>

definition may_enter :: "bool \<Rightarrow> locks \<Rightarrow> bool" where
  "may_enter fair s \<longleftrightarrow>
     (case claimed s of
        None \<Rightarrow> True
      | Some j \<Rightarrow> \<not> fair \<and> prog s j \<noteq> [] \<and> hd (prog s j) = WLock)"

inductive lock_step :: "bool \<Rightarrow> bool \<Rightarrow> locks \<Rightarrow> locks \<Rightarrow> bool" for fair :: bool and wake :: bool where
  read_lock: "prog s i = RLock # ops \<Longrightarrow> may_enter fair s \<Longrightarrow>
     lock_step fair wake s (next_op i ops (s\<lparr>reading := (reading s)(i := Suc (reading s i))\<rparr>))"
| read_unlock: "prog s i = RUnlock # ops \<Longrightarrow> 0 < reading s i \<Longrightarrow>
     lock_step fair wake s (next_op i ops (s\<lparr>reading := (reading s)(i := reading s i - 1)\<rparr>))"
| await: "prog s i = Await timed # ops \<Longrightarrow> timed \<or> wake \<Longrightarrow> lock_step fair wake s (next_op i ops s)"
| claim: "prog s i = WLock # ops \<Longrightarrow> claimed s = None \<Longrightarrow> lock_step fair wake s (s\<lparr>claimed := Some i\<rparr>)"
| write_lock: "prog s i = WLock # ops \<Longrightarrow> claimed s = Some i \<Longrightarrow> (\<And>j. reading s j = 0) \<Longrightarrow>
     lock_step fair wake s (next_op i ops s)"
| write_unlock: "prog s i = WUnlock # ops \<Longrightarrow> claimed s = Some i \<Longrightarrow>
     lock_step fair wake s (next_op i ops (s\<lparr>claimed := None\<rparr>))"

inductive_simps lock_step_simps: "lock_step fair wake s t"

section \<open>Programs without nesting\<close>

fun flat :: "bool \<Rightarrow> lock_op list \<Rightarrow> bool" where
  "flat wake [] \<longleftrightarrow> True"
| "flat wake (RLock # RUnlock # ops) \<longleftrightarrow> flat wake ops"
| "flat wake (RLock # Await timed # RUnlock # ops) \<longleftrightarrow> (timed \<or> wake) \<and> flat wake ops"
| "flat wake (WLock # WUnlock # ops) \<longleftrightarrow> flat wake ops"
| "flat wake ops \<longleftrightarrow> False"

fun_cases flatE: "flat wake (op # ops)"

lemma flat_append: "flat wake xs \<Longrightarrow> flat wake ys \<Longrightarrow> flat wake (xs @ ys)"
  by (induction wake xs rule: flat.induct) auto

lemma flat_concat: "(\<And>x. x \<in> set xs \<Longrightarrow> flat wake x) \<Longrightarrow> flat wake (concat xs)"
  by (induction xs) (auto intro: flat_append)

lemma flat_api: "wake \<or> c \<noteq> A_Wait \<Longrightarrow> flat wake (api_locks c)"
  by (cases c) auto

lemma flat_sink: "flat wake (sink_locks [])"
  by (simp add: sink_locks_def)

lemma flat_sinks: "set xs \<subseteq> {[]} \<Longrightarrow> flat wake (concat (map sink_locks xs))"
  using flat_sink by (intro flat_concat) fastforce

lemma flat_round: "(\<And>xs. b = Some xs \<Longrightarrow> set xs \<subseteq> {[]}) \<Longrightarrow> flat wake (round_locks b f)"
  by (cases b) (auto simp: round_locks_def intro!: flat_append flat_sinks)

lemma flat_exit: "flat wake exit_locks" and flat_hook: "flat wake (hook_locks b t)"
  by (simp_all add: exit_locks_def hook_locks_def do_log_locks_def sink_locks_def)

text \<open>Where a thread can be in such a program.\<close>

definition at_flat :: "bool \<Rightarrow> nat option \<Rightarrow> nat \<Rightarrow> nat \<Rightarrow> lock_op list \<Rightarrow> bool" where
  "at_flat wake cl i n p \<longleftrightarrow>
     (if cl = Some i
      then n = 0 \<and> (flat wake p \<and> (\<exists>ops. p = WLock # ops) \<or> (\<exists>ops. p = WUnlock # ops \<and> flat wake ops))
      else n = 0 \<and> flat wake p \<or>
        n = 1 \<and> (\<exists>ops. (p = RUnlock # ops \<or> (\<exists>timed. p = Await timed # RUnlock # ops \<and> (timed \<or> wake))) \<and>
          flat wake ops))"

definition flat_inv :: "bool \<Rightarrow> locks \<Rightarrow> bool" where
  "flat_inv wake s \<longleftrightarrow> (\<forall>i. at_flat wake (claimed s) i (reading s i) (prog s i))"

lemma flat_read:
  assumes "flat wake (RLock # ops)"
  shows "\<exists>qs. (ops = RUnlock # qs \<or> (\<exists>timed. ops = Await timed # RUnlock # qs \<and> (timed \<or> wake))) \<and> flat wake qs"
  using assms by (cases rule: flatE) auto

lemma flat_inv_step: "lock_step fair wake s t \<Longrightarrow> flat_inv wake s \<Longrightarrow> flat_inv wake t"
proof (induction rule: lock_step.induct)
  case (read_lock s i ops)
  have at: "at_flat wake (claimed s) i (reading s i) (RLock # ops)"
    using read_lock.prems read_lock.hyps(1) by (metis flat_inv_def)
  then have i: "claimed s \<noteq> Some i" "reading s i = 0" "flat wake (RLock # ops)"
    by (auto simp: at_flat_def split: if_splits)
  then have "at_flat wake (claimed s) i (Suc (reading s i)) ops"
    using flat_read [OF i(3)] by (simp add: at_flat_def)
  then show ?case using read_lock.prems by (simp add: flat_inv_def)
next
  case (read_unlock s i ops)
  then show ?case by (auto simp: flat_inv_def at_flat_def split: if_splits elim!: flatE)
next
  case (await s i timed ops)
  have "at_flat wake (claimed s) i (reading s i) (Await timed # ops)"
    using await.prems await.hyps(1) by (metis flat_inv_def)
  then have "at_flat wake (claimed s) i (reading s i) ops"
    by (auto simp: at_flat_def split: if_splits elim: flatE)
  then show ?case using await.prems by (simp add: flat_inv_def)
next
  case (claim s i ops)
  then show ?case by (auto simp: flat_inv_def at_flat_def dest!: spec [of _ i])
next
  case (write_lock s i ops)
  have "flat wake (WLock # ops)" using write_lock by (auto simp: flat_inv_def at_flat_def dest!: spec [of _ i])
  then obtain qs where "ops = WUnlock # qs" "flat wake qs" by (cases rule: flatE) auto
  then show ?case using write_lock by (auto simp: flat_inv_def at_flat_def split: if_splits)
next
  case (write_unlock s i ops)
  then have "flat wake ops" by (auto simp: flat_inv_def at_flat_def elim!: flatE dest!: spec [of _ i])
  then show ?case using write_unlock by (auto simp: flat_inv_def at_flat_def split: if_splits)
qed

interpretation flat_progs: inductive_invariant
  "\<lambda>s. (\<forall>i. flat wake (ps i)) \<and> lock_init ps s" "lock_step fair wake" "flat_inv wake"
proof unfold_locales
  show "flat_inv wake s" if "(\<forall>i. flat wake (ps i)) \<and> lock_init ps s" for s
    using that by (simp add: lock_init_def flat_inv_def at_flat_def)
qed (rule flat_inv_step)

lemma flat_next:
  assumes "flat wake p" "p \<noteq> []"
  obtains ops where "p = RLock # ops" | ops where "p = WLock # ops"
  using assms by (cases "(wake, p)" rule: flat.cases) auto

lemma flat_progress:
  assumes inv: "flat_inv wake s" and work: "prog s i \<noteq> []"
  shows "\<exists>t. lock_step fair wake s t"
proof -
  have at: "at_flat wake (claimed s) j (reading s j) (prog s j)" for j using inv by (simp add: flat_inv_def)
  consider (reader) j where "reading s j \<noteq> 0" | (writer) j where "claimed s = Some j" "\<And>k. reading s k = 0"
    | (free) "claimed s = None" "\<And>k. reading s k = 0" by (cases "claimed s") auto
  then show ?thesis
  proof cases
    case reader
    then obtain ops where "prog s j = RUnlock # ops \<or> (\<exists>timed. prog s j = Await timed # ops \<and> (timed \<or> wake))"
      using at [of j] by (auto simp: at_flat_def split: if_splits)
    then show ?thesis using lock_step.read_unlock lock_step.await reader by blast
  next
    case writer
    then consider ops where "prog s j = WLock # ops" | ops where "prog s j = WUnlock # ops"
      using at [of j] by (auto simp: at_flat_def)
    then show ?thesis
      using lock_step.write_lock [OF _ writer] lock_step.write_unlock [OF _ writer(1)] by cases blast+
  next
    case free
    then have "flat wake (prog s i)" using at [of i] by (simp add: at_flat_def)
    then show ?thesis
    proof (rule flat_next)
      fix ops assume "prog s i = RLock # ops"
      from lock_step.read_lock [OF this, of fair] free(1) show ?thesis by (auto simp: may_enter_def)
    next
      fix ops assume "prog s i = WLock # ops"
      from lock_step.claim [OF this free(1)] show ?thesis by blast
    qed (rule work)
  qed
qed

text \<open>
  Every step uses up an operation or the one claim before it, so with finitely many busy
  threads the programs run to their ends.
\<close>

definition lock_work :: "nat set \<Rightarrow> locks \<Rightarrow> nat" where
  "lock_work A s = (\<Sum>i\<in>A. 2 * length (prog s i)) + (if claimed s = None then 1 else 0)"

lemma sum_next:
  assumes "finite A" "{j. prog s j \<noteq> []} \<subseteq> A" "prog s i = op # ops"
  shows "(\<Sum>j\<in>A. 2 * length (((prog s)(i := ops)) j)) + 2 = (\<Sum>j\<in>A. 2 * length (prog s j))"
    "{j. ((prog s)(i := ops)) j \<noteq> []} \<subseteq> A"
proof -
  have i: "i \<in> A" using assms(2,3) by auto
  then show "(\<Sum>j\<in>A. 2 * length (((prog s)(i := ops)) j)) + 2 = (\<Sum>j\<in>A. 2 * length (prog s j))"
    using assms(1,3) by (simp add: sum.remove [of A i])
  show "{j. ((prog s)(i := ops)) j \<noteq> []} \<subseteq> A" using assms(2) i by auto
qed

lemma lock_work_decreases:
  assumes "lock_step fair wake s t" "finite A" "{i. prog s i \<noteq> []} \<subseteq> A"
  shows "lock_work A t < lock_work A s \<and> {i. prog t i \<noteq> []} \<subseteq> A"
  using assms
proof (induction rule: lock_step.induct)
  case (read_lock s i ops)
  from sum_next [OF read_lock.prems read_lock.hyps(1)] show ?case
    by (simp add: lock_work_def del: fun_upd_apply)
next
  case (read_unlock s i ops)
  from sum_next [OF read_unlock.prems read_unlock.hyps(1)] show ?case
    by (simp add: lock_work_def del: fun_upd_apply)
next
  case (await s i timed ops)
  from sum_next [OF await.prems await.hyps(1)] show ?case
    by (simp add: lock_work_def del: fun_upd_apply)
next
  case (claim s i ops)
  then show ?case by (simp add: lock_work_def)
next
  case (write_lock s i ops)
  from sum_next [OF write_lock.prems write_lock.hyps(1)] show ?case
    by (simp add: lock_work_def del: fun_upd_apply)
next
  case (write_unlock s i ops)
  from sum_next [OF write_unlock.prems write_unlock.hyps(1)] show ?case
    using write_unlock.hyps(2) by (simp add: lock_work_def del: fun_upd_apply)
qed

interpretation lock_runs: terminating_steps
  "\<lambda>s. flat_inv wake s \<and> finite A \<and> {i. prog s i \<noteq> []} \<subseteq> A" "lock_step fair wake" "measure (lock_work A)"
proof unfold_locales
  show "flat_inv wake t \<and> finite A \<and> {i. prog t i \<noteq> []} \<subseteq> A"
    if "flat_inv wake s \<and> finite A \<and> {i. prog s i \<noteq> []} \<subseteq> A" "lock_step fair wake s t" for s t
    using lock_work_decreases [OF that(2)] flat_inv_step [OF that(2)] that(1) by simp
  show "(t, s) \<in> measure (lock_work A)"
    if "flat_inv wake s \<and> finite A \<and> {i. prog s i \<noteq> []} \<subseteq> A" "lock_step fair wake s t" for s t
    using lock_work_decreases [OF that(2)] that(1) by (simp add: in_measure)
qed simp

lemma flat_finishes:
  assumes "flat_inv wake s" "finite A" "{i. prog s i \<noteq> []} \<subseteq> A"
  shows "\<exists>t. (lock_step fair wake)\<^sup>*\<^sup>* s t \<and> (\<forall>i. prog t i = [])"
proof -
  obtain t where t: "(lock_step fair wake)\<^sup>*\<^sup>* s t" "finished (lock_step fair wake) t"
    using lock_runs.comes_to_rest assms by blast
  then have "flat_inv wake t" using lock_runs.run_keeps assms by blast
  then show ?thesis using t flat_progress unfolding finished_def by blast
qed

text \<open>The threads of the program, with sinks that leave the logger alone: clients and the log thread.\<close>

definition client_locks :: "api_call list \<Rightarrow> lock_op list" where
  "client_locks cs = concat (map api_locks cs)"

definition thread_locks :: "(nat option \<times> bool) list \<Rightarrow> bool \<Rightarrow> lock_op list" where
  "thread_locks rs ends =
     concat (map (\<lambda>(n, f). round_locks (map_option (\<lambda>k. replicate k []) n) f) rs) @
     (if ends then exit_locks else [])"

lemma flat_client: "wake \<or> A_Wait \<notin> set cs \<Longrightarrow> flat wake (client_locks cs)"
  by (auto simp: client_locks_def intro!: flat_concat flat_api)

lemma flat_thread: "flat wake (thread_locks rs ends)"
  by (auto simp: thread_locks_def flat_exit intro!: flat_append flat_concat flat_round)

section \<open>A sink that needs the write lock\<close>

text \<open>Its thread holds the read lock and asks for the write lock: it never gets any further.\<close>

definition self_blocked :: "nat \<Rightarrow> lock_op list \<Rightarrow> locks \<Rightarrow> bool" where
  "self_blocked i p s \<longleftrightarrow> prog s i = WLock # p \<and> 0 < reading s i"

lemma self_blocked_step: "lock_step fair wake s t \<Longrightarrow> self_blocked i p s \<Longrightarrow> self_blocked i p t"
  by (auto simp: lock_step_simps self_blocked_def)

lemma self_blocked_steps: "(lock_step fair wake)\<^sup>*\<^sup>* s t \<Longrightarrow> self_blocked i p s \<Longrightarrow> self_blocked i p t"
  by (induction rule: rtranclp_induct) (auto intro: self_blocked_step)

text \<open>A thread on its way, through operations without nesting, to such a sink.\<close>

definition nested_inv :: "bool \<Rightarrow> nat \<Rightarrow> lock_op list \<Rightarrow> locks \<Rightarrow> bool" where
  "nested_inv wake i p s \<longleftrightarrow> self_blocked i p s \<or>
     (\<exists>zs. prog s i = zs @ RLock # WLock # p \<and> at_flat wake (claimed s) i (reading s i) zs)"

lemma at_flat_other: "at_flat wake cl i n p \<Longrightarrow> (cl = Some i) = (cl' = Some i) \<Longrightarrow> at_flat wake cl' i n p"
  by (simp add: at_flat_def)

lemma nested_other:
  assumes "nested_inv wake i p s" "prog t i = prog s i" "reading t i = reading s i"
    "(claimed s = Some i) = (claimed t = Some i)"
  shows "nested_inv wake i p t"
  using assms at_flat_other [of wake "claimed s" i _ _ "claimed t"] by (auto simp: nested_inv_def self_blocked_def)

lemma nested_own:
  assumes "lock_step fair wake s t" "prog s i = zs @ RLock # WLock # p" "at_flat wake (claimed s) i (reading s i) zs"
    "prog t i \<noteq> prog s i \<or> claimed t = Some i \<and> claimed s = None"
  shows "nested_inv wake i p t"
  using assms(1)
proof (cases rule: lock_step.cases)
  case (read_lock j ops)
  then have j: "j = i" using assms(4) by (auto split: if_splits)
  show ?thesis
  proof (cases zs)
    case Nil
    then show ?thesis using read_lock assms(2) by (simp add: nested_inv_def self_blocked_def j)
  next
    case (Cons z qs)
    then have f: "flat wake (RLock # qs)" "reading s i = 0" "ops = qs @ RLock # WLock # p" "claimed s \<noteq> Some i"
      using read_lock assms(2,3) by (auto simp: at_flat_def j split: if_splits)
    have "at_flat wake (claimed t) i (reading t i) qs"
      using flat_read [OF f(1)] read_lock f(2,4) by (simp add: at_flat_def j)
    then show ?thesis using read_lock f(3) by (auto simp: nested_inv_def j)
  qed
next
  case (read_unlock j ops)
  then have j: "j = i" using assms(4) by (auto split: if_splits)
  obtain qs where "zs = RUnlock # qs" using read_unlock assms(2) by (cases zs) (auto simp: j)
  then show ?thesis using read_unlock assms(2,3)
    by (auto simp: nested_inv_def at_flat_def j split: if_splits elim!: flatE)
next
  case (await j timed ops)
  then have j: "j = i" using assms(4) by (auto split: if_splits)
  obtain qs where "zs = Await timed # qs" using await assms(2) by (cases zs) (auto simp: j)
  then show ?thesis using await assms(2,3)
    by (auto simp: nested_inv_def at_flat_def j split: if_splits elim: flatE)
next
  case (claim j ops)
  then have j: "j = i" using assms(4) by auto
  obtain qs where "zs = WLock # qs" using claim assms(2) by (cases zs) (auto simp: j)
  then show ?thesis using claim assms(2,3) by (auto simp: nested_inv_def at_flat_def j)
next
  case (write_lock j ops)
  then have j: "j = i" using assms(4) by (auto split: if_splits)
  obtain qs where q: "zs = WLock # qs" using write_lock assms(2) by (cases zs) (auto simp: j)
  then have "flat wake (WLock # qs)" using write_lock assms(3) by (auto simp: at_flat_def j)
  then obtain rs where "qs = WUnlock # rs" "flat wake rs" by (cases rule: flatE) auto
  then show ?thesis using write_lock assms(2) q by (auto simp: nested_inv_def at_flat_def j)
next
  case (write_unlock j ops)
  then have j: "j = i" using assms(4) by (auto split: if_splits)
  obtain qs where "zs = WUnlock # qs" using write_unlock assms(2) by (cases zs) (auto simp: j)
  then show ?thesis using write_unlock assms(2,3)
    by (auto simp: nested_inv_def at_flat_def j split: if_splits elim!: flatE)
qed

lemma other_step:
  assumes "lock_step fair wake s t" "prog t i = prog s i" "\<not> (claimed t = Some i \<and> claimed s = None)"
  shows "reading t i = reading s i \<and> (claimed s = Some i) = (claimed t = Some i)"
  using assms(1)
proof (cases rule: lock_step.cases)
  case (claim j ops)
  then show ?thesis using assms(3) by auto
next
  case (read_lock j ops)
  then have "j \<noteq> i" using assms(2) by fastforce
  then show ?thesis using read_lock by simp
next
  case (read_unlock j ops)
  then have "j \<noteq> i" using assms(2) by fastforce
  then show ?thesis using read_unlock by simp
next
  case (await j timed ops)
  then show ?thesis by simp
next
  case (write_lock j ops)
  then show ?thesis by simp
next
  case (write_unlock j ops)
  then have "j \<noteq> i" using assms(2) by fastforce
  then show ?thesis using write_unlock by simp
qed

lemma nested_inv_step:
  assumes inv: "nested_inv wake i p s" and step: "lock_step fair wake s t"
  shows "nested_inv wake i p t"
proof (cases "self_blocked i p s")
  case True
  then show ?thesis using self_blocked_step [OF step] by (simp add: nested_inv_def)
next
  case False
  then obtain zs where z: "prog s i = zs @ RLock # WLock # p" "at_flat wake (claimed s) i (reading s i) zs"
    using inv by (auto simp: nested_inv_def)
  show ?thesis
  proof (cases "prog t i = prog s i \<and> \<not> (claimed t = Some i \<and> claimed s = None)")
    case True
    then show ?thesis using nested_other [OF inv] other_step [OF step] by blast
  next
    case False
    then show ?thesis using nested_own [OF step z] by blast
  qed
qed

interpretation nested: inductive_invariant
  "\<lambda>s. (flat wake ys \<and> ps i = ys @ sink_locks (WLock # x) @ zs) \<and> lock_init ps s" "lock_step fair wake"
  "nested_inv wake i (x @ RUnlock # zs)"
proof unfold_locales
  show "nested_inv wake i (x @ RUnlock # zs) s"
    if "(flat wake ys \<and> ps i = ys @ sink_locks (WLock # x) @ zs) \<and> lock_init ps s" for s
    using that by (auto simp: lock_init_def nested_inv_def sink_locks_def at_flat_def)
qed (rule nested_inv_step)

lemma nested_unfinished: "nested_inv wake i p s \<Longrightarrow> \<exists>zs. prog s i = zs @ WLock # p"
  unfolding nested_inv_def self_blocked_def by (metis append.left_neutral append_Cons append_assoc)

section \<open>A sink that logs\<close>

text \<open>
  It takes the read lock a second time.  When another thread has claimed the lock in
  between, the claim keeps the second read out and the first read keeps the claim waiting;
  every other thread is kept out by the claim.
\<close>

lemma client_start: "client_locks cs \<noteq> Await timed # ops"
proof (induction cs)
  case (Cons c cs)
  then show ?case by (cases c) (auto simp: client_locks_def)
qed (simp add: client_locks_def)

lemma sink_reads_again:
  assumes init: "lock_init ps s" and i: "ps i = sink_locks (RLock # x) @ zs"
    and j: "ps j = WLock # ys" "i \<noteq> j" and others: "\<And>k timed ops. ps k \<noteq> Await timed # ops"
  shows "\<exists>t. (lock_step True wake)\<^sup>*\<^sup>* s t \<and> prog t i = RLock # x @ RUnlock # zs \<and> prog t j = ps j \<and>
    (\<forall>u. \<not> lock_step True wake t u)"
proof -
  let ?ops = "RLock # x @ RUnlock # zs"
  let ?a = "\<lparr>prog = ps(i := ?ops), reading = (\<lambda>_. 0)(i := 1), claimed = None\<rparr>"
  let ?t = "?a\<lparr>claimed := Some j\<rparr>"
  have s: "s = \<lparr>prog = ps, reading = (\<lambda>_. 0), claimed = None\<rparr>" using init by (simp add: lock_init_def)
  have "lock_step True wake s ?a"
    using lock_step.read_lock [of s i ?ops True wake] i by (simp add: s sink_locks_def may_enter_def)
  moreover have "lock_step True wake ?a ?t" using lock_step.claim [of ?a j ys True wake] j by simp
  ultimately have run: "(lock_step True wake)\<^sup>*\<^sup>* s ?t" by (meson r_into_rtranclp rtranclp.rtrancl_into_rtrancl)
  have "\<not> lock_step True wake ?t u" for u
  proof
    assume "lock_step True wake ?t u"
    then show False
    proof (cases rule: lock_step.cases)
      case (read_unlock k ops)
      then show False by (simp split: if_splits)
    next
      case (await k timed ops)
      then show False using others by (simp split: if_splits)
    next
      case (write_lock k ops)
      then show False by (auto dest: meta_spec [of _ i])
    next
      case (write_unlock k ops)
      then show False using j by simp
    qed (auto simp: may_enter_def)
  qed
  with run j(2) show ?thesis by (intro exI [of _ ?t]) simp
qed

end
