(* ===== verification/Samples.thy ===== *)
theory Samples
  imports Facades Scotland2 Questloader Registry_Spec Registry_Anywhere Iteration_Steps Pipeline_Failure
    Facade_Test Lock_Usage
begin

text \<open>
  A concrete environment and concrete states, on which the properties with hypotheses are
  applied: an operating system that writes at most seven bytes at a time, a logger with one
  context and one queued record, and memory with a few C strings.
\<close>

definition sample_env :: aenv where
  "sample_env =
     \<lparr>os_write = (\<lambda>k n. Inr (min n 7)), os_create = (\<lambda>_ _. None), os_mkdir = (\<lambda>_ _. None),
      os_resolve = (\<lambda>p. p), chrono_format = (\<lambda>t. lit ''12:00''), chrono_secs = word_of_int,
      it_chunks = chunks_ref, prio_code = prio_rank, is_loggable = (\<lambda>_ _. True)\<rparr>"

definition plain_features :: features where
  "plain_features =
     \<lparr>ft_logcat = False, ft_api30 = False, ft_stdout = False, ft_sinks = True, ft_tracing = False\<rparr>"

definition sample_record :: log_data where
  "sample_record = log_data_new Warn (Some (lit ''A'')) (lit ''hello'' @ [10] @ lit ''world'')
     (lit ''main.rs'') 7 3 None 0"

definition sample_fs :: fs where
  "sample_fs = \<lparr>names = [lit ''g.log'' \<mapsto> 0, lit ''./logs/A.log'' \<mapsto> 1], inodes = (\<lambda>_. []),
     next_ino = 2, ticks = 0\<rparr>"

definition sample_world :: "unit world" where
  "sample_world = \<lparr>w_fs = sample_fs, w_logcat = [], w_cbuf = [], w_stdout = [], w_events = [],
     w_user = (), w_threads = 1, w_hook = False\<rparr>"

definition sample_ctx :: "unit ctx" where
  "sample_ctx = \<lparr>config = default_config, log_queue = [sample_record], log_sem = True,
     flush_sem = False, inited = True, global_file = bw_new \<lparr>f_ino = 0, f_pos = 0\<rparr>,
     context_map = [lit ''A'' \<mapsto> bw_new \<lparr>f_ino = 1, f_pos = 0\<rparr>], sinks = [\<lambda>d u. (Ok (), u)]\<rparr>"

definition sample_st :: "unit st" where
  "sample_st = (sample_ctx, sample_world)"

definition sample_sys :: "unit sys" where
  "sample_sys = \<lparr>sst = sample_st, sthr = thr_init, lpc = LT_Start, clients = (\<lambda>_. C_Idle),
     pushed = [sample_record], taken = []\<rparr>"

definition sample_show :: "io_error \<Rightarrow> rstr" where
  "sample_show e = lit ''I/O error''"

lemmas sample_defs = sample_st_def sample_ctx_def sample_world_def sample_fs_def bw_new_def

lemma sample_ok: "ctx_ok sample_st"
  by (simp add: ctx_ok_def sample_defs fs_ok_def bw_ok_def at_end_def w_ino_def)

lemma sample_max: "max_string_len (config (fst sample_st)) = 1024"
  by (simp add: sample_defs default_config_def)

lemma sample_started: "sys_init sample_st sample_sys"
  by (simp add: sys_init_def sample_sys_def sample_defs)

lemma sample_chunker: "chunker (it_chunks sample_env)"
  by (simp add: sample_env_def ref_chunker.chunker_axioms)

lemma sample_reliable: "reliable sample_env"
  by (simp add: reliable_def sample_env_def)

lemma sample_safe: "safe_env sample_env plain_features 1024"
  by (simp add: safe_env_def sample_reliable sample_chunker plain_features_def)

lemma sample_sinks: "safe_sinks sample_st" "safe_sinks (queue_log d sample_ctx, w)"
  by (simp_all add: safe_sinks_def never_fails_def sample_defs queue_log_def queue_push_def queue_signal_def)

lemma sample_is_started: "started sample_st 1024 sample_sys"
  using sample_ok sample_max sample_started by blast

lemma sample_reach:
  "reach (\<lambda>s. started sample_st 1024 s) st sample_sys"
  by (rule reach_init) (simp add: sample_ok sample_max sample_started)

text \<open>The same system with contexts and sinks that come and go.\<close>

definition sample_live :: "unit live" where
  "sample_live = \<lparr>core = sample_sys, owes = Map.empty, since = (\<lambda>_. 0),
     base = (\<lambda>u. case ctx_stream sample_st u of None \<Rightarrow> [] | Some x \<Rightarrow> x)\<rparr>"

lemma sample_live_started: "live_started sample_st 1024 sample_live"
  using sample_is_started by (simp add: sample_live_def live_init_def)

lemma sample_live_reach: "reach (live_started sample_st 1024) st sample_live"
  by (rule reach_init) (rule sample_live_started)

lemma sample_live_safe:
  "(safe_env sample_env plain_features 1024 \<and> good_sinks (\<lambda>_. False) \<and> safe_sinks sample_st) \<and>
   live_started sample_st 1024 sample_live"
  using sample_safe sample_sinks(1) sample_live_started by (simp add: good_sinks_def)

lemma sample_live_steps:
  "(sys_step fair waits E F show_io)\<^sup>*\<^sup>* sample_sys t \<Longrightarrow>
   (live_step fair waits oks regs E F show_io)\<^sup>*\<^sup>* sample_live (sample_live\<lparr>core := t\<rparr>)"
proof (induction rule: rtranclp_induct)
  case base
  then show ?case by (simp add: sample_live_def)
next
  case (step t u)
  have "live_step fair waits oks regs E F show_io (sample_live\<lparr>core := t\<rparr>) ((sample_live\<lparr>core := t\<rparr>)\<lparr>core := u\<rparr>)"
    by (rule live_step.call) (use step.hyps(2) in \<open>simp_all add: sample_live_def\<close>)
  with step.IH show ?case by simp
qed

lemma sample_live_works:
  "(serve E F show_io)\<^sup>*\<^sup>* sample_sys t \<Longrightarrow> (work fair E F show_io)\<^sup>*\<^sup>* sample_live (sample_live\<lparr>core := t\<rparr>)"
proof (induction rule: rtranclp_induct)
  case base
  then show ?case by (simp add: sample_live_def)
next
  case (step t u)
  have "work fair E F show_io (sample_live\<lparr>core := t\<rparr>) ((sample_live\<lparr>core := t\<rparr>)\<lparr>core := u\<rparr>)"
    by (rule work.serve) (use step.hyps(2) in simp)
  with step.IH show ?case by simp
qed

lemma sample_live_rests:
  "\<exists>t. (work True sample_env plain_features sample_show)\<^sup>*\<^sup>* sample_live t \<and> quiet (core t) \<and>
     pushed (core t) = [sample_record]"
proof -
  let ?st = "sys_step True False sample_env plain_features sample_show"
  have run: "run_inv sample_env 1024 sample_st sample_sys" by (rule runs.inv_init [OF sample_is_started])
  obtain t where t: "(serve sample_env plain_features sample_show)\<^sup>*\<^sup>* sample_sys t"
      "at_rest sample_env plain_features sample_show t"
    using reaches_rest [OF run] by blast
  have steps: "?st\<^sup>*\<^sup>* sample_sys t" by (rule serves_steps [OF t(1)])
  have "living t"
    using lives.steps_inv [OF lives.inv_init steps] sample_safe sample_sinks(1) sample_is_started by blast
  then have "quiet t"
    using rest_quiet [OF runs.steps_inv [OF run steps] t(2)] by (simp add: living_def)
  moreover have "pushed t = [sample_record]" using idle_serves [OF t(1)] by (simp add: sample_sys_def)
  ultimately show ?thesis using sample_live_works [OF t(1)]
    by (intro exI [of _ "sample_live\<lparr>core := t\<rparr>"]) simp
qed

lemma sample_free_reach: "reach (free_started sample_st 1024) st sample_live"
  by (rule reach_init) (use sample_live_started in \<open>simp add: clean_global_def sample_defs\<close>)

lemma works_free: "(work fair E F show_io)\<^sup>*\<^sup>* s t \<Longrightarrow> (free_step fair waits E F show_io)\<^sup>*\<^sup>* s t"
  by (induction rule: rtranclp_induct) (auto intro: live_step.works rtranclp.rtrancl_into_rtrancl)

text \<open>A logger configured with a chunk size of zero, with a record queued.\<close>

definition zero_st :: "unit st" where
  "zero_st = (sample_ctx\<lparr>config := default_config\<lparr>max_string_len := 0\<rparr>\<rparr>, sample_world)"

definition zero_sys :: "unit sys" where
  "zero_sys = sample_sys\<lparr>sst := zero_st\<rparr>"

lemma zero_started: "started zero_st 0 zero_sys"
  using sample_ok sample_started by (simp add: zero_st_def zero_sys_def sample_st_def ctx_ok_def sys_init_def sample_sys_def)

text \<open>The report of an error fits into the buffer of a file.\<close>

lemma sample_report_short:
  "length (full_line sample_env (exit_report sample_show now (LogError []))) < bw_capacity"
  by (simp add: full_line_def full_pieces_def loc_pieces_def exit_report_def macro_record_def sample_env_def
      bw_capacity_def lit_def enc_char_def show_u32_def show_nat.simps)

lemma sample_visits: "visits [lit ''A''] sample_st"
  by (simp add: visits_def sample_defs)

lemma sample_split:
  "split_str_into_chunks sample_env [sample_record] 1024 =
     Some [sample_record\<lparr>message := lit ''hello''\<rparr>, sample_record\<lparr>message := lit ''world''\<rparr>]"
  by (simp add: split_str_into_chunks_def split_log_def sample_record_def log_data_new_def lit_def
      sample_env_def chunks_ref_def)


section \<open>Processes\<close>

definition sample_proc :: "unit proc" where
  "sample_proc = \<lparr>p_heap = empty_heap, p_logger = None, p_world = sample_world\<rparr>"

text \<open>Memory with two C strings, a path and a directory, and a C structure that uses the second.\<close>

definition sample_strings :: "addr \<times> heap" where
  "sample_strings = alloc_cstring (utf8 (lit ''p.log'')) empty_heap"

definition sample_dir :: "addr \<times> heap" where
  "sample_dir = alloc_cstring (utf8 (lit ''dir'')) (snd sample_strings)"

definition sample_text_proc :: "unit proc" where
  "sample_text_proc = \<lparr>p_heap = snd sample_dir, p_logger = None, p_world = sample_world\<rparr>"

definition sample_config_ffi :: config_ffi where
  "sample_config_ffi = \<lparr>cf_max_string_len = 64, cf_log_max_buffer_count = 8, cf_line_end = 10,
     cf_context_log_path = fst sample_dir\<rparr>"

lemma sample_texts_zero: "0 \<notin> set (lit ''dir'')" "0 \<notin> set (lit ''p.log'')"
  by (simp_all add: lit_def)

lemma sample_strings_ok: "heap_ok (snd sample_strings)" "0 < fst sample_strings"
  using heap_ok_alloc [OF heap_ok_empty prod.collapse [symmetric]] by (simp_all add: sample_strings_def)

lemma sample_dir_ok: "heap_ok (snd sample_dir)" "0 < fst sample_dir"
  using heap_ok_alloc [OF sample_strings_ok(1) prod.collapse [symmetric]] by (simp_all add: sample_dir_def)

lemma alloc_held:
  assumes "heap_ok h" "rust_str x" "0 \<notin> set x"
  shows "holds (snd (alloc_cstring (utf8 x) h)) (fst (alloc_cstring (utf8 x) h)) x"
  using cstr_alloc [OF _ prod.collapse [symmetric], of "utf8 x" h] assms
    heap_ok_alloc [OF assms(1) prod.collapse [symmetric], of "utf8 x"]
  by (simp add: holds_def zero_utf8)

lemma sample_dir_held: "holds (p_heap sample_text_proc) (fst sample_dir) (lit ''dir'')"
  using alloc_held [OF sample_strings_ok(1), of "lit ''dir''"]
  by (simp add: sample_text_proc_def sample_dir_def sample_texts_zero)

lemma sample_dir_config:
  "holds (p_heap sample_text_proc) (cf_context_log_path sample_config_ffi) (lit ''dir'')"
  using sample_dir_held by (simp add: sample_config_ffi_def)

lemma sample_path_held: "holds (p_heap sample_text_proc) (fst sample_strings) (lit ''p.log'')"
proof -
  have h: "holds (snd sample_strings) (fst sample_strings) (lit ''p.log'')"
    using alloc_held [OF heap_ok_empty, of "lit ''p.log''"] by (simp add: sample_strings_def sample_texts_zero)
  then show ?thesis
    using cstr_alloc_other [OF sample_strings_ok(1), of "utf8 (lit ''dir'')" "fst sample_dir" "snd sample_dir"]
    by (simp add: holds_def sample_text_proc_def sample_dir_def)
qed

lemma sample_fs_ok: "fs_ok sample_fs"
  by (simp add: fs_ok_def sample_fs_def)

lemma sample_proc_ok: "proc_ok sample_proc"
  by (simp add: proc_ok_def sample_proc_def sample_world_def sample_fs_ok)

lemma sample_text_ok: "proc_ok sample_text_proc"
  by (simp add: proc_ok_def sample_text_proc_def sample_world_def sample_fs_ok sample_dir_ok)

text \<open>With an operating system that refuses nothing the logger is created.\<close>

lemma create_dir_all_sample: "fst (create_dir_all sample_env p f) = Ok ()"
  by (simp add: create_dir_all_def sample_env_def)

lemma file_create_sample: "is_ok (fst (file_create sample_env p f))"
  by (simp add: file_create_def Let_def sample_env_def split: option.splits)

lemma ctx_new_sample: "never_fails (ctx_new sample_env cfg p)"
proof -
  have d: "never_fails (create_dir_all sample_env q)" for q
    by (simp add: never_fails_def create_dir_all_sample)
  have c: "never_fails (file_create sample_env q)" for q
    by (simp add: never_fails_def file_create_sample)
  show ?thesis
    unfolding ctx_new_def by (cases "path_parent p") (auto intro!: ok_rules d c)
qed

lemma sample_make: "is_ok (fst (make_logger sample_env cfg p w))"
proof (rule make_logger_cases [of sample_env cfg p w])
  fix e f
  assume "ctx_new sample_env cfg p (w_fs w) = (Err e :: (logger_error, 'a ctx) res, f)"
  moreover have "never_fails (ctx_new sample_env cfg p :: (fs, logger_error, 'a ctx) act)"
    by (rule ctx_new_sample)
  ultimately have "is_ok (Err e :: (logger_error, 'a ctx) res)" by (metis never_failsD)
  then show ?thesis by simp
qed simp

lemma sample_init_any: "p_logger s = None \<Longrightarrow> \<exists>t. init_logger sample_env cfg p s = (Ok (), t)"
  using sample_make [of cfg p "p_world s"] by (auto simp: init_logger_def split: prod.splits res.splits)

lemma sample_init: "\<exists>t. init_logger sample_env default_config (lit ''./x.log'') sample_proc = (Ok (), t)"
  by (rule sample_init_any) (simp add: sample_proc_def)

lemma sample_ffi_init:
  "\<exists>t. paper2_init_logger_ffi sample_env (Some sample_config_ffi) (fst sample_strings) sample_text_proc = (Ok True, t)"
proof -
  have n: "fst sample_strings \<noteq> 0" using sample_strings_ok(2) by simp
  have p: "read_cstr (fst sample_strings) sample_text_proc = (Ok (utf8 (lit ''p.log'')), sample_text_proc)"
    using sample_path_held by (simp add: holds_def)
  obtain cfg where c: "config_from sample_config_ffi sample_text_proc = (Ok cfg, sample_text_proc)"
    using holds_read [OF sample_dir_held]
    by (auto simp: config_from_def bind_act_def ret_Ok sample_config_ffi_def)
  obtain t where "init_logger sample_env cfg (lit ''p.log'') sample_text_proc = (Ok (), t)"
    using sample_init_any [of sample_text_proc cfg "lit ''p.log''"] by (auto simp: sample_text_proc_def)
  then show ?thesis
    using n p c by (simp add: paper2_init_logger_ffi_def from_utf8_utf8 bind_act_def)
qed

text \<open>The mod starts its logger, and later registers a context.\<close>

lemma sample_dlopen:
  "\<exists>t c. dlopen_initialize sample_env False sample_show (fst sample_dir) sample_text_proc = (Ok (), t) \<and>
     p_logger t = Some c \<and> config c = default_config\<lparr>context_log_path := mod_log_path (lit ''dir'')\<rparr> \<and>
     context_map c = Map.empty"
proof -
  let ?s = "sample_text_proc\<lparr>p_world := sample_world\<lparr>w_hook := True\<rparr>\<rparr>"
  let ?cfg = "default_config\<lparr>context_log_path := mod_log_path (lit ''dir'')\<rparr>"
  let ?p = "path_join (mod_log_path (lit ''dir'')) (lit ''Paperlog.log'')"
  have none: "p_logger ?s = None" by (simp add: sample_text_proc_def)
  have w: "p_world sample_text_proc = sample_world" by (simp add: sample_text_proc_def)
  have id: "read_lossy (fst sample_dir) ?s = (Ok (lit ''dir''), ?s)"
    using sample_dir_held by (intro holds_read) simp
  show ?thesis
  proof (rule make_logger_cases [of sample_env ?cfg ?p "p_world ?s"])
    fix c f
    assume n: "ctx_new sample_env ?cfg ?p (w_fs (p_world ?s)) = (Ok c, f)"
      and m: "make_logger sample_env ?cfg ?p (p_world ?s) =
        (Ok (c\<lparr>inited := True\<rparr>), (p_world ?s)\<lparr>w_fs := f, w_threads := Suc (w_threads (p_world ?s))\<rparr>)"
    have "config c = ?cfg \<and> context_map c = Map.empty"
      using ctx_new_ok [OF n] sample_fs_ok by (simp add: sample_world_def)
    then show ?thesis
      using id m none by (simp add: dlopen_initialize_def mod_log_info_def w bind_act_def init_logger_def)
  next
    fix e f
    assume "make_logger sample_env ?cfg ?p (p_world ?s) = (Panic ''Unable to create logger'', (p_world ?s)\<lparr>w_fs := f\<rparr>)"
    then show ?thesis using sample_make [of ?cfg ?p "p_world ?s"] by simp
  qed
qed

text \<open>A C program that starts the logger and logs one record, and the thread that writes it.\<close>

definition sample_c_record :: log_data where
  "sample_c_record = log_data_new Warn None (lit ''p.log'') (lit ''dir'') 7 3 None 0"

lemma sample_c_start:
  "\<exists>p1 c0. paper2_init_logger_ffi sample_env (Some sample_config_ffi) (fst sample_strings) sample_text_proc = (Ok True, p1) \<and>
     p_logger p1 = Some c0 \<and> max_string_len (config c0) = 64 \<and>
     paper2_queue_log_ffi 0 Warn 0 (fst sample_strings) (fst sample_dir) 7 3 0 p1 =
       (Ok True, p1\<lparr>p_logger := Some (queue_log sample_c_record c0)\<rparr>)"
proof -
  obtain p1 where p1: "paper2_init_logger_ffi sample_env (Some sample_config_ffi) (fst sample_strings) sample_text_proc = (Ok True, p1)"
    using sample_ffi_init by blast
  have none: "p_logger sample_text_proc = None" by (simp add: sample_text_proc_def)
  obtain c0 where c0: "p_logger p1 = Some c0" "max_string_len (config c0) = 64"
    using ffi_init_converts_config [OF sample_text_ok none sample_path_held sample_dir_config p1]
    by (auto simp: sample_config_ffi_def)
  have heap: "p_heap p1 = p_heap sample_text_proc" using init_call_starts [OF sample_text_ok none c0(1) p1] by blast
  have "paper2_queue_log_ffi 0 Warn 0 (fst sample_strings) (fst sample_dir) 7 3 0 p1 =
       (Ok True, p1\<lparr>p_logger := Some (queue_log sample_c_record c0)\<rparr>)"
    unfolding sample_c_record_def
    by (rule queue_log_ffi_spec)
      (use c0 sample_path_held sample_dir_held in \<open>simp_all add: get_logger_def heap holds_opt_def\<close>)
  with p1 c0 show ?thesis by blast
qed

lemma sample_safe_64: "safe_env sample_env plain_features 64"
  using sample_safe by (simp add: safe_env_def)

text \<open>The start, as a program at the path \<open>p.log\<close>, and one call that queues a record.\<close>

lemma sample_app:
  obtains p1 c0 x0 x where
    "paper2_init_logger_ffi sample_env (Some sample_config_ffi) (fst sample_strings) sample_text_proc = (Ok True, p1)"
    "p_logger p1 = Some c0" "max_string_len (config c0) = 64" "inited c0" "heap_ok (p_heap p1)"
    "x0 = \<lparr>c_proc = p1, c_thr = thr_init, c_pc = LT_Start, c_said = []\<rparr>"
    "path_fit False sample_env plain_features 64 (c0, p_world p1) (lit ''p.log'') x0"
    "sparing (c_talk False True sample_env plain_features sample_show) x0 x" "c_said x = [sample_c_record]"
proof -
  obtain p1 c0 where p1: "paper2_init_logger_ffi sample_env (Some sample_config_ffi) (fst sample_strings) sample_text_proc = (Ok True, p1)"
      "p_logger p1 = Some c0" "max_string_len (config c0) = 64"
    and q: "paper2_queue_log_ffi 0 Warn 0 (fst sample_strings) (fst sample_dir) 7 3 0 p1 =
       (Ok True, p1\<lparr>p_logger := Some (queue_log sample_c_record c0)\<rparr>)"
    using sample_c_start by blast
  have none: "p_logger sample_text_proc = None" by (simp add: sample_text_proc_def)
  note st = init_call_starts [OF sample_text_ok none p1(2,1)]
  let ?x0 = "\<lparr>c_proc = p1, c_thr = thr_init, c_pc = LT_Start, c_said = []\<rparr>"
  let ?p2 = "p1\<lparr>p_logger := Some (queue_log sample_c_record c0)\<rparr>"
  have fit: "path_fit False sample_env plain_features 64 (c0, p_world p1) (lit ''p.log'') ?x0"
    using first_start(1) [OF sample_text_ok none sample_path_held p1(1,2) refl, of plain_features] sample_safe_64 p1(3)
    by simp
  have "c_talk False True sample_env plain_features sample_show ?x0 (c_after ?x0 ?p2)"
    by (rule c_talk.call)
      (use q st p1(2) in \<open>auto simp: spares_global_def takes_signal_def queue_log_simps queue_log_def queue_signal_def
        sem_signal_def queue_push_def intro: ffi_step.queue\<close>)
  moreover have "spares_global ?p2" using st p1(2) by (simp add: spares_global_def queue_log_simps)
  moreover have "c_said (c_after ?x0 ?p2) = [sample_c_record]"
    using st p1(2) by (simp add: c_after_def queue_of_def queue_log_simps)
  moreover have "heap_ok (p_heap p1)" "inited c0" using st sample_text_ok by (simp_all add: proc_ok_def)
  ultimately show ?thesis
    by (intro that [OF p1 _ _ refl fit, of "c_after ?x0 ?p2"]) (simp_all add: sparing_def c_after_def)
qed

text \<open>The facade's test starts.\<close>

lemma sample_smoke:
  "\<exists>path p1. smoke_init sample_env (lit ''/tmp'') 7 sample_proc = (Ok path, p1)"
proof -
  let ?tmp = "path_join (lit ''/tmp'') (lit ''paperlog_test_'' @ show_nat 7)"
  let ?path = "path_join ?tmp (lit ''paper2_log_smoke.log'')"
  let ?s = "sample_proc\<lparr>p_world := (p_world sample_proc)\<lparr>w_fs := snd (create_dir_all sample_env ?tmp (w_fs (p_world sample_proc)))\<rparr>\<rparr>"
  have "rust_str (lit ''/tmp'')" "0 \<notin> set (lit ''/tmp'')" by (simp_all add: lit_def scalar_def)
  then have pt: "rust_str ?path" "0 \<notin> set ?path" using smoke_path_text by blast+
  have h: "heap_ok (p_heap ?s)" using sample_proc_ok by (simp add: proc_ok_def)
  obtain p g where al: "arg_alloc (cstring_ok (Some ?path)) ?s = (Ok p, ?s\<lparr>p_heap := g\<rparr>)" "holds_opt g p (Some ?path)"
    by (rule arg_alloc_holds [OF h, of "Some ?path"]) (use pt in auto)
  then have held: "p \<noteq> 0" "read_cstr p (?s\<lparr>p_heap := g\<rparr>) = (Ok (utf8 ?path), ?s\<lparr>p_heap := g\<rparr>)"
    by (simp_all add: holds_opt_Some holds_def)
  have "p_logger (?s\<lparr>p_heap := g\<rparr>) = None" by (simp add: sample_proc_def)
  from sample_init_any [OF this] obtain t where "init_logger sample_env default_config ?path (?s\<lparr>p_heap := g\<rparr>) = (Ok (), t)"
    by blast
  then have "paper2_init_logger_ffi sample_env None p (?s\<lparr>p_heap := g\<rparr>) = (Ok True, t)"
    using held from_utf8_utf8 [OF pt(1)] by (simp add: paper2_init_logger_ffi_def bind_act_def ret_Ok)
  then have "smoke_init sample_env (lit ''/tmp'') 7 sample_proc = (Ok ?path, t)"
    using al(1) by (simp add: smoke_init_def Let_def arg_unwrap_alloc [OF pt] bind_act_def ret_Ok)
  then show ?thesis by blast
qed

text \<open>Left alone after the call, the thread waits with the queue empty.\<close>

lemma sample_c_program:
  "\<exists>p1 c0 x0 x v. paper2_init_logger_ffi sample_env (Some sample_config_ffi) (fst sample_strings) sample_text_proc = (Ok True, p1) \<and>
     p_logger p1 = Some c0 \<and> max_string_len (config c0) = 64 \<and>
     x0 = \<lparr>c_proc = p1, c_thr = thr_init, c_pc = LT_Start, c_said = []\<rparr> \<and>
     (sparing (c_step True sample_env plain_features sample_show))\<^sup>*\<^sup>* x0 x \<and> c_pc x = LT_Blocked v \<and>
     c_said x = [sample_c_record] \<and> queue_of (c_proc x) = []"
proof (rule sample_app)
  fix p1 :: "unit proc" and c0 and x0 x :: "unit c_sys"
  let ?fit = "c_fit False sample_env plain_features 64 (c0, p_world p1)"
  assume p1: "paper2_init_logger_ffi sample_env (Some sample_config_ffi) (fst sample_strings) sample_text_proc = (Ok True, p1)"
      "p_logger p1 = Some c0" "max_string_len (config c0) = 64"
      "x0 = \<lparr>c_proc = p1, c_thr = thr_init, c_pc = LT_Start, c_said = []\<rparr>"
    and fit: "path_fit False sample_env plain_features 64 (c0, p_world p1) (lit ''p.log'') x0"
    and x: "sparing (c_talk False True sample_env plain_features sample_show) x0 x" "c_said x = [sample_c_record]"
  have fx: "?fit x" using fit talk_fit [OF x(1)] by (simp add: path_fit_def app_fit_def)
  obtain y where y: "(c_own sample_env plain_features sample_show)\<^sup>*\<^sup>* x y"
      "finished (c_own sample_env plain_features sample_show) y"
    using own_runs.comes_to_rest [OF fx] by blast
  have fy: "?fit y" by (rule own_runs.run_keeps [OF fx y(1)])
  obtain v c where v: "c_pc y = LT_Blocked v" "p_logger (c_proc y) = Some c" "log_queue c = []"
    using rest_waits [OF fy y(2)] fit_unasleep [OF fy] by blast
  have "(sparing (c_talk False True sample_env plain_features sample_show))\<^sup>*\<^sup>* x0 y"
    using x(1) own_talks [OF y(1) fx] by (rule converse_rtranclp_into_rtranclp)
  then have "(sparing (c_step True sample_env plain_features sample_show))\<^sup>*\<^sup>* x0 y"
    by (rule sparing_steps [rotated]) (rule talk_step)
  then show ?thesis using p1 v x(2) own_said [OF y(1)]
    by (intro exI [of _ p1] exI [of _ c0] exI [of _ x0] exI [of _ y] exI [of _ v]) (simp add: queue_of_def)
qed

end
