(* ===== verification/Spec2Isabelle.thy ===== *)
theory Spec2Isabelle
  imports Samples
begin

text \<open>
  A verification library for paperlog, a logger with a background thread, C, \<open>log\<close> and
  \<open>tracing\<close> front ends, and file, sink, logcat, standard-output and \<open>tracing\<close> back ends.

  \<^bold>\<open>The program.\<close>  Clients push records on a queue and signal a semaphore
  (\<open>LoggerThreadCtx::queue_log\<close>).  One log thread (\<open>log_thread\<close>) takes the queue, splits the
  messages, writes the batch to the global file and to the file of each record's context,
  hands the records to the other backends, flushes when the queue has run empty, and waits on
  the semaphore.  The logger is a process-wide \<open>OnceLock\<close> behind a reader-writer lock, reached
  from C through \<open>src/ffi.rs\<close>; two adapter crates and a mod-loader crate use that interface.

  \<^bold>\<open>The theories\<close>, each with the sources it models (paths below the repository root):
  \<^item> \<open>Prelude\<close>: results and actions (\<open>Ok\<close>, \<open>Err\<close>, panic), \<open>keeps\<close>, \<open>frames\<close> and \<open>succeeds\<close>
    with their rule collections, reachability and the locales \<open>inductive_invariant\<close>,
    \<open>simulation\<close> (interpreted on the semaphore, on the registry against its abstract log, on C
    programs against the thread's steps and on all programs against C programs) and
    \<open>terminating_steps\<close> (runs that end: the thread's steps, alone, with calls in progress and
    with registrations, and the programs of the lock).
  \<^item> \<open>Rust_Strings\<close>: what the code uses of Rust's strings: UTF-8, lossy decoding, decimal
    display, splitting, and C strings on a heap; locale \<open>byte_codec\<close>.
  \<^item> \<open>Rust_Files\<close>: paths, files, \<open>BufWriter\<close>; the operating system below them is a parameter
    that may fail, or write part of the data, at every call; locales \<open>byte_sink\<close> and
    \<open>flushable_sink\<close>, interpreted on the buffered writer.
  \<^item> \<open>Log_Level\<close> (\<open>src/log_level.rs\<close>), \<open>Log_Data\<close> (\<open>src/logger/log_data.rs\<close>, \<open>mod.rs\<close>).
  \<^item> \<open>Vec_Pool\<close> (\<open>src/vec_pool.rs\<close>); locale \<open>buffer_pool\<close>.
  \<^item> \<open>Semaphore_Lite\<close> (\<open>src/semaphore_lite.rs\<close>): the critical sections and a step relation
    with any number of waiting threads, refined to an atomic binary semaphore; locale
    \<open>binary_flag\<close>.
  \<^item> \<open>Logger_Ctx\<close>: the state of \<open>src/logger/logger_thread_ctx.rs\<close> (record \<open>ctx\<close>, with the record
    \<open>world\<close> for everything outside) and its operations; locales \<open>log_backend\<close>, which every
    backend interprets, and \<open>mailbox\<close>, which the queue interprets.
  \<^item> \<open>File_Logger\<close>, \<open>Sink_Logger\<close>, \<open>Logcat_Logger\<close>, \<open>Tracing_Logger\<close>: the backends of
    \<open>src/logger\<close>.
  \<^item> \<open>Log_Thread\<close>: splitting, dispatch, flush, one iteration of \<open>log_thread\<close>, its end after an
    error, and the panic hook.  The calls of the standard-output and \<open>tracing\<close> backends in
    \<open>log_thread\<close> do not resolve, so the thread has logcat and the sinks (\<open>log_thread_builds\<close>).
  \<^item> \<open>Log_Pipeline\<close>: the log thread and any number of clients as a step relation, one critical
    section a step; \<open>Pipeline_Liveness\<close>: progress, termination without new calls, absence of
    failures; \<open>Pipeline_Waits\<close>: what callers of \<open>wait_for_flush\<close> can do to it;
    \<open>Pipeline_Failure\<close>: the end of the thread (the flush, the report to the files and the report
    to the other backends are three steps), the report of its error, a chunk size of zero.
  \<^item> \<open>Pipeline_Registry\<close>: the same system while contexts are registered and unregistered and
    sinks added (\<open>src/ffi.rs\<close>); \<open>Registry_Order\<close>: its invariant and the files while the thread
    waits; \<open>Registry_Liveness\<close>: progress, termination, nothing lost; \<open>Registry_Spec\<close>: the
    abstract log it refines; \<open>Registry_Anywhere\<close>: the global file when contexts are registered
    on any file but that one; \<open>Text_Files\<close>: valid strings in the records give valid UTF-8 in the
    files.
  \<^item> \<open>Iteration_Steps\<close>: the iteration of \<open>Log_Thread\<close> is the steps of \<open>Log_Pipeline\<close> in a row.
  \<^item> \<open>Lock_Usage\<close>: what each function, the rounds of the log thread and the panic hook do with the
    reader-writer lock, in program order, callers of \<open>wait_for_flush\<close>, which hold it while they
    wait, included; and sinks that use the logger.
  \<^item> \<open>Contexts\<close>: \<open>new\<close>, \<open>add_context\<close>, \<open>remove_context\<close> and the streams of the files.
  \<^item> \<open>Global_Logger\<close> (\<open>src/lib.rs\<close>), \<open>Ffi\<close> (\<open>src/ffi.rs\<close>, \<open>src/ffi/c_str_helper.rs\<close>),
    \<open>Ffi_Calls\<close> (any sequence of calls from C), \<open>C_Program\<close> (such calls between the steps of the
    log thread), \<open>C_Liveness\<close> (the thread after such calls comes to rest),
    \<open>Facades\<close> (\<open>paper2_log\<close>, \<open>paper2_tracing\<close>), \<open>Front_Ends\<close> (programs that use C, the facade
    and the layer: a record of a front end is a run of C calls), \<open>Log_Paths\<close> (the path of the
    logger names the global file, whatever a program does), \<open>Facade_Test\<close> (the test
    \<open>install_and_log\<close> of \<open>paper2_log\<close>), \<open>Scotland2\<close> (\<open>scotland2\<close>), \<open>Questloader\<close> (\<open>questloader\<close>).
  \<^item> \<open>Samples\<close>: the concrete states on which the properties below are applied.

  \<^bold>\<open>How the state corresponds.\<close>  A file is an inode with contents; a \<open>BufWriter\<close> is a handle and
  its buffer.  Abstractly (\<open>global_stream\<close>, \<open>ctx_stream\<close>) each file is the bytes it has accepted,
  on disk or still buffered, and \<open>grows s t G C\<close> says by how much the streams have grown;
  \<open>global_disk\<close> and \<open>ctx_disk\<close> are the bytes on disk.  \<open>ctx_ok\<close> is the invariant of the files: each
  writer stands at the end of a file of its own.  In \<open>Log_Pipeline\<close> the state \<open>sys\<close> has the logger,
  the locals of the thread, program counters of the thread and the clients, and two histories:
  the records \<open>pushed\<close> and those \<open>taken\<close> by the thread.  \<open>Pipeline_Registry\<close> wraps it (\<open>live\<close>) with
  the reports clients still owe after a failed registration, and with when each context was
  registered; \<open>files_hold\<close> says what is on disk: the global file has the lines of all records, a
  context file those since its registration.

  \<^bold>\<open>What the properties show.\<close>  The running logger, with contexts and sinks that come and go,
  keeps the order of the records and loses none, as long as each context is registered on a file
  that no open writer uses (\<open>own_file\<close>): it refines an abstract log with the events accept,
  commit, open and close (C5), and while the thread waits, the files hold exactly what it has
  taken (C4).  When tags share files, or are registered twice, the global file still does (C6), also
  for every C program (C3), unless a context is on the global file itself (\<open>apart\<close>, \<open>sparing\<close>);
  and at any moment the disk has all records but the last hundred, the batch in work and the queue
  (C7).  Without \<open>wait_for_flush\<close> and without failures every run drains the queue and the reports
  of failed registrations to disk (C1), and so does the thread after any program of C calls, facade
  records and events, in the file at the path the logger was started with (C2).  Whatever happens,
  the work in progress ends (C8), and without \<open>wait_for_flush\<close> no wake-up is lost (C40).  With \<open>wait_for_flush\<close> the wake-up can be stolen
  (C9), which the next record that is queued repairs (C2, \<open>queued_awake\<close>), or the logger can
  deadlock (C10); the files stay valid UTF-8 (C11).  When the thread ends, its report is not on
  disk and later calls only fill the queue (C12 to C14).  The lock is used without deadlock unless
  a caller waits for a signal that does not come, or a sink uses the logger (C15 to C17).  Then the
  thread's own steps on every result of the disk, and their agreement with the iteration in one
  piece (C19), the splitting of messages, the semaphore and the pool, contexts and their files, the
  other backends, the start of the logger and the C interface with its round trips and the types of
  what it stores, and the adapters: a record logged through the facade is on disk in one piece
  (C35), an event of the tracing layer too (C37), and the test \<open>install_and_log\<close> passes exactly
  when the \<open>log\<close> crate admits its level (C38).
  Several of them state a defect of the code as the code has it: a sink that logs, a context
  registered twice (C26) or on the file of the mod's global log (C39), the slice and the stale
  buffer of the logcat backend, records the facade drops.

  \<^bold>\<open>How the models of the running logger relate.\<close>  \<open>serve\<close> has the steps of the thread and of calls
  in progress, \<open>sys_step\<close> adds new calls, \<open>live_step\<close> the registry.  Its parameters are what the
  clients do: whether they call \<open>wait_for_flush\<close>, which sinks they add and which tags they
  register in which states; the code accepts all of them, and each theorem names what it needs.
  \<open>free_step\<close> abbreviates \<open>live_step\<close> with any sink and any tag but for the global file.
  \<open>log_iter\<close> is a run of \<open>serve\<close> (\<open>take_runs\<close>), the end of the thread in one piece too
  (\<open>exit_is_steps\<close>), and a call of \<open>src/ffi.rs\<close> on the process of \<open>Global_Logger\<close> is a run
  of \<open>free_step\<close> (\<open>ffi_answers\<close>), so that the invariants proved of the steps hold of both.
  \<open>c_step\<close> has every call of a C program and the steps of the thread;
  \<open>c_talk\<close> is \<open>c_step\<close> with the parameter \<open>steals\<close>, whether calls may take the signal from the
  thread, \<open>c_own\<close> is the thread alone, and \<open>app_step\<close> adds the front ends.  \<open>sparing\<close> keeps of
  these relations the steps after which no context is on the global file; each such step of
  \<open>app_step\<close> is a run of \<open>c_talk\<close> (\<open>app_talks\<close>).  Sinks and callbacks change their client's
  state and do not call the logger; \<open>Lock_Usage\<close> has those that do.  A thread is \<open>asleep\<close> when its
  signal was taken and it waits although there are records.
  \<open>spec_of\<close> is the abstraction of a \<open>live\<close> state; \<open>free_inv\<close> is the invariant of the global file
  alone: its writer is sound, no other writer is on its inode, and a file only grows; \<open>workable\<close> is
  all that the end of the work needs.

  \<^bold>\<open>Parameters.\<close>  Code outside the repository is an argument: the operating
  system (record \<open>os\<close>), chrono's formatting and itertools' \<open>chunks\<close>
  (record \<open>env\<close>), the priorities and \<open>__android_log_is_loggable\<close> of the
  NDK (record \<open>aenv\<close>), the allocator's growth, sinks and callbacks, the order in which
  a hash map is iterated, whether the lock is fair to waiting writers (parking_lot documents that it
  is), and the registries of the \<open>log\<close> and \<open>tracing\<close> crates. Hypotheses on
  them are named: \<open>chunker\<close> (the documented laws of \<open>chunks\<close>),
  \<open>reliable\<close> (a disk that accepts writes), \<open>creates\<close>, \<open>safe_env\<close> (a disk that accepts
  writes, a positive chunk size, the laws of \<open>chunks\<close>, and a build without logcat),
  \<open>safe_sinks\<close> and \<open>good_sinks\<close>, \<open>dates_ok\<close> and
  \<open>show_typed\<close> (formatting gives strings), and \<open>visits\<close> (an iteration
  visits every key once or more). No fuel is used: all functions are total, except
  \<open>cstr\<close>, the scan for a terminator, which is undefined where the scan leaves the
  mapped memory.

  \<^bold>\<open>Not modelled.\<close>  Poisoned or aborted processes after a panic, the backtraces inside errors,
  weak memory (the only atomic is the \<open>inited\<close> flag), what becomes of two context files that
  share an inode beyond the moment of registration (\<open>Contexts\<close>), what other calls do during a timed
  wait from C (an argument of \<open>paper2_wait_flush_timeout\<close>, empty in \<open>ffi_step\<close>), the log thread after a context
  took the global file, calls from C that overlap each other (\<open>Pipeline_Registry\<close> has those, on
  the logger instead of the process), generated bindings, build scripts, and the C++ wrapper.
\<close>

section \<open>The log pipeline\<close>

text \<open>
  C1: Clients log, add sinks and unregister contexts, and register contexts with tags whose
  file no open writer uses (own_file: the tag is not registered, its file is not that of
  another context or of the global log, or it cannot be created); nobody calls
  wait_for_flush, the disk accepts every write, the chunk size is positive, there is no
  logcat, and no sink fails. Then from every reachable state the work in progress comes to
  rest, and at every such rest all calls have returned, no report of a failed registration
  is owed, the queue is empty, nothing entrusted to the logger is lost, and the global file
  holds all records pushed and each context file those since its registration.
\<close>

theorem registry_drains:
  assumes env: "safe_env E F mx" "safe_sinks s0" "good_sinks oks"
    and r: "reach (live_started s0 mx) (live_step fair False oks (own_file E) E F show_io) s"
  shows "(\<exists>t. (work fair E F show_io)\<^sup>*\<^sup>* s t \<and> live_rest fair E F show_io t) \<and>
    (\<forall>t. (work fair E F show_io)\<^sup>*\<^sup>* s t \<longrightarrow> live_rest fair E F show_io t \<longrightarrow>
      (\<forall>i. clients (core t) i = C_Idle \<and> owes t i = None) \<and> log_queue (fst (sst (core t))) = [] \<and>
      (\<forall>i d. entrusted s i d \<longrightarrow> d \<in> set (pushed (core t))) \<and>
      files_hold E mx s0 t (pushed (core t)))"
proof (intro conjI allI impI)
  have ri: "run_live E mx s0 s" using live_runs.reach_inv [OF r] .
  show "\<exists>t. (work fair E F show_io)\<^sup>*\<^sup>* s t \<and> live_rest fair E F show_io t" using reaches_live_rest [OF run_live_workable [OF ri]] .
  have rl: "reach (\<lambda>s. (safe_env E F mx \<and> good_sinks oks \<and> safe_sinks s0) \<and> live_started s0 mx s)
      (live_step fair False oks (own_file E) E F show_io) s"
    using reach_weaken [OF r, of "safe_env E F mx \<and> good_sinks oks \<and> safe_sinks s0"] env by blast
  fix t assume st: "(work fair E F show_io)\<^sup>*\<^sup>* s t" and rest: "live_rest fair E F show_io t"
  have steps: "(live_step fair False oks (own_file E) E F show_io)\<^sup>*\<^sup>* s t" using works_live [OF st] .
  have rt: "run_live E mx s0 t" using live_runs.steps_inv [OF ri steps] .
  have "living (core t)" using live_lives.reach_inv [OF reach_steps [OF rl steps]] by blast
  then have "lpc (core t) \<noteq> LT_Dead" by (auto simp: living_def)
  then obtain v where v: "lpc (core t) = LT_Blocked v" "log_queue (fst (sst (core t))) = []"
    using rest_done(3) [OF rt rest] by blast
  show idle: "clients (core t) i = C_Idle" "owes t i = None" for i using rest_done(1,2) [OF rt rest] by blast+
  show "log_queue (fst (sst (core t))) = []" by (rule v(2))
  show "d \<in> set (pushed (core t))" if "entrusted s i d" for i d
    using works_entrusted [OF st that] idle [of i] by (simp add: entrusted_def)
  have inv: "live_inv E mx s0 t" using rt by (simp add: run_live_def)
  moreover have "pushed (core t) = taken (core t)" using inv v(2) by (simp add: live_inv_def core_ok_def)
  ultimately show "files_hold E mx s0 t (pushed (core t))" using live_blocked_disk [OF _ v(1)] by metis
qed

theorem registry_drains_witness:
  "\<exists>t. (work True sample_env plain_features sample_show)\<^sup>*\<^sup>* sample_live t \<and>
    log_queue (fst (sst (core t))) = [] \<and> sample_record \<in> set (pushed (core t)) \<and>
    files_hold sample_env 1024 sample_st t (pushed (core t))"
proof -
  have g: "good_sinks (\<lambda>_. False)" by (simp add: good_sinks_def)
  have r: "reach (live_started sample_st 1024)
      (live_step True False (\<lambda>_. False) (own_file sample_env) sample_env plain_features sample_show) sample_live"
    by (rule sample_live_reach)
  note d = registry_drains [OF sample_safe sample_sinks(1) g r]
  obtain t where t: "(work True sample_env plain_features sample_show)\<^sup>*\<^sup>* sample_live t"
      "live_rest True sample_env plain_features sample_show t"
    using d by blast
  have "entrusted sample_live 0 sample_record" by (simp add: entrusted_def sample_live_def sample_sys_def)
  with d t show ?thesis by blast
qed



text \<open>
  C3: From the first start of the logger, however a C program calls its functions, any
  number of times, with any arguments that do not crash it, and however the log thread runs
  in between: while the log thread waits, the global file holds exactly the lines of the
  records the calls have queued, in that order, but for those still in the queue. Only
  registering a context on the global file itself is left out.
\<close>

theorem c_program_reaches_disk:
  assumes start: "proc_ok p0" "p_logger p0 = None" "paper2_init_logger_ffi E conf path p0 = (Ok True, p1)"
      "p_logger p1 = Some c0" "x0 = \<lparr>c_proc = p1, c_thr = thr_init, c_pc = LT_Start, c_said = []\<rparr>"
    and run: "(sparing (c_step fair E F show_io))\<^sup>*\<^sup>* x0 x" and w: "c_pc x = LT_Blocked v"
  shows "\<exists>c dn logs. p_logger (c_proc x) = Some c \<and> c_said x = dn @ log_queue c \<and>
    split_str_into_chunks E dn (max_string_len (config c0)) = Some logs \<and>
    global_disk (c, p_world (c_proc x)) = full_lines E logs"
proof -
  let ?s0 = "(c0, p_world p1)" and ?mx = "max_string_len (config c0)"
  note st = init_call_starts [OF start(1,2,4,3)]
  have "c_started ?s0 x0" using st start(4,5) by (simp add: c_started_def)
  then have r: "reach (c_started ?s0) (sparing (c_step fair E F show_io)) x" by (intro reach_steps [OF reach_init run])
  obtain s where s: "reach (free_started ?s0 ?mx) (live_step fair True (\<lambda>_. True) (apart E) E F show_io) s" "simulates x s"
    by (rule c_simulated [OF r, of ?mx]) (use st in simp_all)
  have "free_inv E ?mx ?s0 (core s)" using anywhere.reach_inv [OF s(1)] .
  from simulated_disk [OF s(2) this w] show ?thesis using st by simp
qed

theorem c_program_reaches_disk_witness:
  "\<exists>p1 x c logs. paper2_init_logger_ffi sample_env (Some sample_config_ffi) (fst sample_strings) sample_text_proc = (Ok True, p1) \<and>
    (sparing (c_step True sample_env plain_features sample_show))\<^sup>*\<^sup>*
      \<lparr>c_proc = p1, c_thr = thr_init, c_pc = LT_Start, c_said = []\<rparr> x \<and>
    split_str_into_chunks sample_env [sample_c_record] 64 = Some logs \<and>
    global_disk (c, p_world (c_proc x)) = full_lines sample_env logs"
proof -
  obtain p1 c0 x0 x v where p: "paper2_init_logger_ffi sample_env (Some sample_config_ffi) (fst sample_strings) sample_text_proc = (Ok True, p1)"
      "p_logger p1 = Some c0" "max_string_len (config c0) = 64"
      "x0 = \<lparr>c_proc = p1, c_thr = thr_init, c_pc = LT_Start, c_said = []\<rparr>"
    and x: "(sparing (c_step True sample_env plain_features sample_show))\<^sup>*\<^sup>* x0 x" "c_pc x = LT_Blocked v"
      "c_said x = [sample_c_record]" "queue_of (c_proc x) = []"
    using sample_c_program by blast
  have none: "p_logger sample_text_proc = None" by (simp add: sample_text_proc_def)
  obtain c dn logs where "p_logger (c_proc x) = Some c" "c_said x = dn @ log_queue c"
      "split_str_into_chunks sample_env dn (max_string_len (config c0)) = Some logs"
      "global_disk (c, p_world (c_proc x)) = full_lines sample_env logs"
    using c_program_reaches_disk [OF sample_text_ok none p(1,2,4) x(1,2)] by blast
  then show ?thesis using p x by (auto simp: queue_of_def)
qed

text \<open>
  C4: Clients log, wait for flushes, add sinks and unregister contexts, and register
  contexts with tags whose file no open writer uses (own_file: the tag is not registered,
  its file is not that of another context or of the global log, or it cannot be created);
  the disk may fail. In every reachable state the records pushed are the records taken
  followed by the queue; and while the log thread waits, the global file holds the lines of
  all records taken, in order, and each context file the lines of its records since its
  registration. (For other registrations the context files go wrong, see
  registering_twice_corrupts, and the global file does not, see
  global_file_survives_registration.)
\<close>

theorem registry_order:
  assumes r: "reach (live_started s0 mx) (live_step fair waits oks (own_file E) E F show_io) s"
  shows "pushed (core s) = taken (core s) @ log_queue (fst (sst (core s))) \<and> ctx_ok (sst (core s)) \<and>
    (\<forall>v. lpc (core s) = LT_Blocked v \<longrightarrow> files_hold E mx s0 s (taken (core s)))"
proof -
  have inv: "live_inv E mx s0 s" using registry.reach_inv [OF r] .
  then show ?thesis using live_blocked_disk [OF inv] by (simp add: live_inv_def core_ok_def)
qed

theorem registry_order_witness:
  "\<exists>t v logs. (live_step True True (\<lambda>_. True) (own_file sample_env) sample_env plain_features sample_show)\<^sup>*\<^sup>* sample_live t \<and>
    lpc (core t) = LT_Blocked v \<and> sample_record \<in> set (taken (core t)) \<and>
    global_disk (sst (core t)) = full_lines sample_env logs"
proof -
  have run: "run_live sample_env 1024 sample_st sample_live" by (rule run_live_init [OF sample_live_started])
  obtain t where t: "(work True sample_env plain_features sample_show)\<^sup>*\<^sup>* sample_live t"
      "live_rest True sample_env plain_features sample_show t"
    using reaches_live_rest [OF run_live_workable [OF run]] by blast
  have steps: "(live_step True waits oks (own_file sample_env) sample_env plain_features sample_show)\<^sup>*\<^sup>* sample_live t" for waits oks
    using works_live [OF t(1)] .
  have rt: "run_live sample_env 1024 sample_st t" using live_runs.steps_inv [OF run steps] .
  have "living (core t)"
    using live_lives.steps_inv [OF live_lives.inv_init [OF sample_live_safe] steps] by blast
  then have "lpc (core t) \<noteq> LT_Dead" by (auto simp: living_def)
  then obtain v where v: "lpc (core t) = LT_Blocked v" "log_queue (fst (sst (core t))) = []"
    using rest_done(3) [OF rt t(2)] by blast
  have r: "reach (live_started sample_st 1024) (live_step True True (\<lambda>_. True) (own_file sample_env) sample_env plain_features sample_show) t"
    by (rule reach_steps [OF sample_live_reach steps])
  note o = registry_order [OF r]
  have "entrusted sample_live 0 sample_record" by (simp add: entrusted_def sample_live_def sample_sys_def)
  from works_entrusted [OF t(1) this] rest_done(1,2) [OF rt t(2)] have "sample_record \<in> set (pushed (core t))"
    by (simp add: entrusted_def)
  then have "sample_record \<in> set (taken (core t))" using o v(2) by simp
  moreover have "global_stream sample_st = []" by (simp add: global_stream_def bw_stream_def sample_defs)
  then obtain logs where "global_disk (sst (core t)) = full_lines sample_env logs"
    using o v(1) by (auto simp: files_hold_def)
  ultimately show ?thesis using steps v(1) by blast
qed

text \<open>
  C5: Clients do anything, but they register contexts with tags whose file no open writer
  uses (own_file: the tag is not registered, its file is not that of another context or of
  the global log, or it cannot be created). Then the running logger refines an abstract log
  with four events: each step to a state in which the log thread is alive accepts a record,
  commits records that come next, opens a context (empty, at the current point) or closes
  one, or changes nothing; and the streams of the global file and of every context file are
  those the abstract state prescribes, on disk while the log thread waits. A registration of
  a file that is in use is no event of the abstract log and is left out: there the context
  streams are different ones (registering_twice_corrupts).
\<close>

theorem registry_refines:
  assumes r: "reach (live_started s0 mx) (live_step fair waits oks (own_file E) E F show_io) s"
    and step: "live_step fair waits oks (own_file E) E F show_io s t" and al: "alive (lpc (core t))"
  shows "spec_step\<^sup>=\<^sup>= (spec_of s) (spec_of t) \<and>
    global_stream (sst (core t)) = spec_global E mx (global_stream s0) (spec_of t) \<and>
    ctx_stream (sst (core t)) = spec_context E mx (spec_of t) \<and>
    (\<forall>v. lpc (core t) = LT_Blocked v \<longrightarrow>
      global_disk (sst (core t)) = spec_global E mx (global_stream s0) (spec_of t) \<and>
      ctx_disk (sst (core t)) = spec_context E mx (spec_of t))"
proof -
  have inv: "live_inv E mx s0 s" using registry.reach_inv [OF r] .
  have inv': "live_inv E mx s0 t" by (rule live_inv_step [OF step inv])
  have c: "global_stream (sst (core t)) = spec_global E mx (global_stream s0) (spec_of t)"
      "ctx_stream (sst (core t)) = spec_context E mx (spec_of t)"
    using spec_contents [OF inv' al] by (simp_all add: fun_eq_iff)
  have d: "global_disk (sst (core t)) = global_stream (sst (core t))"
      "ctx_disk (sst (core t)) = ctx_stream (sst (core t))" if "lpc (core t) = LT_Blocked v" for v
  proof -
    have "all_clean (sst (core t))" using inv' al that by (simp add: live_inv_def core_ok_def settled_def)
    from clean_disk [OF this] show "global_disk (sst (core t)) = global_stream (sst (core t))"
      "ctx_disk (sst (core t)) = ctx_stream (sst (core t))" by (simp_all add: fun_eq_iff)
  qed
  show ?thesis using live_simulates [OF step inv al] c d by simp
qed

theorem registry_refines_witness:
  "spec_step\<^sup>=\<^sup>= (spec_of sample_live)
    (spec_of (register_step sample_env sample_show 0 0 (lit ''B'') sample_live))"
proof -
  have "own_file sample_env (lit ''B'') sample_st"
    by (simp add: own_file_def unused_def creates_def ino_for_def sample_env_def sample_defs context_path_def
        default_config_def path_join_def with_extension_def last_comp_def file_stem_rev_def lit_def w_ino_def)
  then have st: "live_step True True (\<lambda>_. True) (own_file sample_env) sample_env plain_features sample_show sample_live
      (register_step sample_env sample_show 0 0 (lit ''B'') sample_live)"
    by (intro live_step.register) (simp_all add: sample_live_def sample_sys_def no_readers_def)
  have "alive (lpc (core (register_step sample_env sample_show 0 0 (lit ''B'') sample_live)))"
    by (simp add: register_step_def sample_live_def sample_sys_def split: prod.splits res.splits)
  from registry_refines [OF sample_live_reach st this] show ?thesis by blast
qed

text \<open>
  C6: Whatever contexts are registered and unregistered while the logger runs, tags
  registered twice and tags that share a file included, as long as no context file is the
  global file itself: while the log thread waits, the global file holds exactly the lines of
  all records taken, in order, and every other record pushed is in the queue.
\<close>

theorem global_file_survives_registration:
  assumes r: "reach (free_started s0 mx) (live_step fair waits (\<lambda>_. True) (apart E) E F show_io) s"
    and w: "lpc (core s) = LT_Blocked v"
  shows "\<exists>logs. split_str_into_chunks E (taken (core s)) mx = Some logs \<and>
    global_disk (sst (core s)) = global_stream s0 @ full_lines E logs \<and>
    pushed (core s) = taken (core s) @ log_queue (fst (sst (core s)))"
proof -
  have inv: "free_inv E mx s0 (core s)" using anywhere.reach_inv [OF r] .
  have "clean_global (sst (core s))" using inv w by (simp add: free_inv_def global_settled_def)
  then have "global_disk (sst (core s)) = global_stream (sst (core s))"
    by (simp add: clean_global_def global_disk_def global_stream_def bw_disk_def bw_stream_def)
  then show ?thesis using inv w by (auto simp: free_inv_def all_written_def)
qed

theorem global_file_survives_registration_witness:
  "\<exists>t. reach (free_started sample_st 1024) (live_step True True (\<lambda>_. True) (apart sample_env) sample_env plain_features sample_show) t \<and>
    global_disk (sst (core t)) = full_lines sample_env
      [sample_record\<lparr>message := lit ''hello''\<rparr>, sample_record\<lparr>message := lit ''world''\<rparr>]"
proof -
  obtain t where t: "(work True sample_env plain_features sample_show)\<^sup>*\<^sup>* sample_live t" "quiet (core t)"
      "pushed (core t) = [sample_record]"
    using sample_live_rests by blast
  have r: "reach (free_started sample_st 1024) (live_step True True (\<lambda>_. True) (apart sample_env) sample_env plain_features sample_show) t"
    by (rule reach_steps [OF sample_free_reach works_free [OF t(1)]])
  obtain v where v: "lpc (core t) = LT_Blocked v" "taken (core t) = [sample_record]"
    using t(2,3) by (auto simp: quiet_def)
  have "global_stream sample_st = []" by (simp add: global_stream_def bw_stream_def sample_defs)
  then show ?thesis
    using global_file_survives_registration [OF r v(1)] r sample_split by (auto simp: v(2))
qed

text \<open>
  C7: At any moment of a run in which no context is registered on the file of the global log
  itself (apart; tags registered twice or sharing a file are allowed), also after the log
  thread has died, the global file on disk begins with the lines of a prefix of the records
  pushed; between two batches what is missing, besides the queue, is fewer than 100 records,
  whatever log_max_buffer_count says.
\<close>

theorem crash_loses_few:
  assumes r: "reach (free_started s0 mx) (live_step fair waits (\<lambda>_. True) (apart E) E F show_io) s"
  shows "\<exists>n logs. n \<le> length (pushed (core s)) \<and>
    split_str_into_chunks E (take n (pushed (core s))) mx = Some logs \<and>
    prefix (global_stream s0 @ full_lines E logs) (global_disk (sst (core s))) \<and>
    (between_batches (lpc (core s)) \<longrightarrow>
      length (pushed (core s)) < n + length (log_queue (fst (sst (core s)))) + 100)"
proof -
  have inv: "free_inv E mx s0 (core s)" using anywhere.reach_inv [OF r] .
  obtain fl rest where f: "taken (core s) = fl @ rest" "length rest = logged (sthr (core s))"
      "on_disk E mx s0 fl (global_disk (sst (core s)))"
    using inv by (auto simp: free_inv_def flushed_def)
  have p: "pushed (core s) = fl @ rest @ log_queue (fst (sst (core s)))"
    using inv f(1) by (simp add: free_inv_def)
  have "logged (sthr (core s)) < 100" if "between_batches (lpc (core s))"
    using inv that by (cases "lpc (core s)") (simp_all add: free_inv_def global_settled_def)
  then show ?thesis using f(2,3) p by (intro exI [of _ "length fl"]) (auto simp: on_disk_def)
qed

theorem crash_loses_few_witness:
  "\<exists>t n logs. (work True sample_env plain_features sample_show)\<^sup>*\<^sup>* sample_live t \<and>
    split_str_into_chunks sample_env (take n [sample_record]) 1024 = Some logs \<and>
    prefix (full_lines sample_env logs) (global_disk (sst (core t))) \<and> quiet (core t) \<and> 1 < n + 100"
proof -
  obtain t where t: "(work True sample_env plain_features sample_show)\<^sup>*\<^sup>* sample_live t" "quiet (core t)"
      "pushed (core t) = [sample_record]"
    using sample_live_rests by blast
  have r: "reach (free_started sample_st 1024) (live_step True True (\<lambda>_. True) (apart sample_env) sample_env plain_features sample_show) t"
    by (rule reach_steps [OF sample_free_reach works_free [OF t(1)]])
  have g: "global_stream sample_st = []" by (simp add: global_stream_def bw_stream_def sample_defs)
  obtain v where v: "lpc (core t) = LT_Blocked v" "log_queue (fst (sst (core t))) = []"
    using t(2) by (auto simp: quiet_def)
  obtain n logs where "split_str_into_chunks sample_env (take n [sample_record]) 1024 = Some logs"
      "prefix (full_lines sample_env logs) (global_disk (sst (core t)))"
    using crash_loses_few [OF r] t(3) g by auto
  with t(1,2) show ?thesis by auto
qed

text \<open>
  C8: In every run, whatever is logged, waited for, registered (any tag, also on files in
  use), unregistered and added, and however the disk, the sinks and the backends behave: the
  log thread, the calls in progress and the reports owed cannot go on for ever without new
  calls, and they can always come to a state in which none of them has a step: the log
  thread does not spin. (A caller of wait_for_flush without a timeout may be blocked in that
  state.)
\<close>

theorem work_terminates:
  assumes r: "reach (live_started s0 mx) (live_step fair waits oks regs E F show_io) s"
  shows "\<not> (\<exists>f. f 0 = s \<and> (\<forall>n. work fair E F show_io (f n) (f (Suc n)))) \<and>
    (\<exists>t. (work fair E F show_io)\<^sup>*\<^sup>* s t \<and> live_rest fair E F show_io t)"
proof -
  have w: "workable s" by (rule workables.reach_inv [OF r])
  have "\<not> (\<forall>n. work fair E F show_io (f n) (f (Suc n)))" if "f 0 = s" for f
    by (rule works.no_infinite_run) (simp add: that w)
  then show ?thesis using reaches_live_rest [OF w] by blast
qed

theorem work_terminates_witness:
  "\<exists>s t. (live_step True True (\<lambda>_. True) (\<lambda>_ _. True) sample_env plain_features sample_show)\<^sup>*\<^sup>* sample_live s \<and>
    context_map (fst (sst (core s))) (lit ''A'') = Some (bw_new \<lparr>f_ino = 1, f_pos = 0\<rparr>) \<and>
    (work True sample_env plain_features sample_show)\<^sup>*\<^sup>* s t \<and> s \<noteq> t \<and>
    live_rest True sample_env plain_features sample_show t"
proof -
  let ?s = "register_step sample_env sample_show 0 0 (lit ''A'') sample_live"
  have step: "live_step True True (\<lambda>_. True) (\<lambda>_ _. True) sample_env plain_features sample_show sample_live ?s"
    by (intro live_step.register) (simp_all add: sample_live_def sample_sys_def no_readers_def)
  have r: "reach (live_started sample_st 1024) (live_step True True (\<lambda>_. True) (\<lambda>_ _. True) sample_env plain_features sample_show) ?s"
    using sample_live_reach step by (rule reach_step)
  obtain t where t: "(work True sample_env plain_features sample_show)\<^sup>*\<^sup>* ?s t"
      "live_rest True sample_env plain_features sample_show t"
    using work_terminates [OF r] by blast
  have "lpc (core ?s) = LT_Start"
    by (simp add: register_step_def sample_live_def sample_sys_def split: prod.splits res.splits)
  then have "work True sample_env plain_features sample_show ?s (?s\<lparr>core := l_take (core ?s)\<rparr>)"
    by (intro work.serve serve.take)
  then have "?s \<noteq> t" using t(2) unfolding live_rest_def by blast
  moreover have "context_map (fst (sst (core ?s))) (lit ''A'') = Some (bw_new \<lparr>f_ino = 1, f_pos = 0\<rparr>)"
    by (simp add: register_step_def add_context_def sample_env_def sample_live_def sample_sys_def sample_defs context_path_def
        default_config_def path_join_def with_extension_def last_comp_def file_stem_rev_def lit_def file_create_def Let_def)
  ultimately show ?thesis using r_into_rtranclp [of "live_step True True (\<lambda>_. True) (\<lambda>_ _. True) sample_env plain_features sample_show", OF step] t
    by blast
qed

text \<open>
  C9: A client that queues a record and then calls wait_for_flush can consume the signal
  meant for the log thread: its call returns, everything is at rest, and the record is still
  in the queue and not on disk.
\<close>

theorem flush_wait_steals_wakeup:
  assumes env: "safe_env E F mx" "safe_sinks s0" and init: "started s0 mx s"
  shows "\<exists>t. (sys_step fair True E F show_io)\<^sup>*\<^sup>* s t \<and> at_rest E F show_io t \<and>
    (\<forall>i. clients t i = C_Idle) \<and> log_queue (fst (sst t)) = [d] \<and> pushed t = taken t @ [d] \<and>
    (\<exists>logs. split_str_into_chunks E (taken t) mx = Some logs \<and>
       global_disk (sst t) = global_stream s0 @ full_lines E logs \<and>
       (\<forall>u. ctx_disk (sst t) u = map_option (\<lambda>x. x @ context_lines E logs u) (ctx_stream s0 u)))"
proof -
  obtain q where q: "(sys_step fair True E F show_io)\<^sup>*\<^sup>* s q" "quiet q" "pipe_inv E mx s0 q"
    using reaches_quiet [OF env init] by blast
  let ?t = "map_ctx (\<lambda>c. snd (wait_for_flush_poll c)) (queued_one 0 d q)"
  note st = stolen_steps(1) [OF q(2,3), where i = 0 and d = d and fair = fair and F = F and show_io = show_io]
    stolen_steps(2) [OF q(2,3), where i = 0 and d = d and F = F and show_io = show_io]
    stolen_steps(3-6) [OF q(2,3), where i = 0 and d = d]
  have run: "(sys_step fair True E F show_io)\<^sup>*\<^sup>* s ?t" using q(1) st(1) by (rule rtranclp_trans)
  have "pipe_inv E mx s0 ?t"
    by (rule pipe.steps_inv [OF pipe.inv_init [OF init] run])
  moreover obtain v where "lpc ?t = LT_Blocked v" using st(3) by blast
  ultimately have "\<exists>logs. split_str_into_chunks E (taken ?t) mx = Some logs \<and>
       global_disk (sst ?t) = global_stream s0 @ full_lines E logs \<and>
       (\<forall>u. ctx_disk (sst ?t) u = map_option (\<lambda>x. x @ context_lines E logs u) (ctx_stream s0 u))"
    by (rule blocked_on_disk)
  with run st(2,4-6) show ?thesis by (intro exI [of _ ?t]) simp
qed

theorem flush_wait_steals_wakeup_witness:
  "\<exists>t. (sys_step True True sample_env plain_features sample_show)\<^sup>*\<^sup>* sample_sys t \<and>
    at_rest sample_env plain_features sample_show t \<and> log_queue (fst (sst t)) = [sample_record]"
proof -
  from flush_wait_steals_wakeup [OF sample_safe sample_sinks(1) sample_is_started, where d = sample_record and fair = True and show_io = sample_show]
  show ?thesis by blast
qed

text \<open>
  C10: With a task-fair lock, a client of the FFI that waits for a flush can deadlock the
  logger: it holds the read lock and waits for a signal, the log thread has taken the record
  and waits for the write lock, and no step of any thread is possible.
\<close>

theorem flush_wait_deadlocks:
  assumes env: "safe_env E F mx" "safe_sinks s0" and init: "started s0 mx s"
  shows "\<exists>t v. (sys_step True True E F show_io)\<^sup>*\<^sup>* s t \<and> lpc t = LT_Batch [d] v \<and>
    clients t i = C_Wait False \<and> (\<forall>u. \<not> sys_step True True E F show_io t u)"
proof -
  obtain q where q: "(sys_step True True E F show_io)\<^sup>*\<^sup>* s q" "quiet q" "pipe_inv E mx s0 q"
    using reaches_quiet [OF env init] by blast
  show ?thesis
  proof (rule deadlock_steps [OF q(2,3), where d = d and i = i and F = F and show_io = show_io])
    fix t v
    assume t: "(sys_step True True E F show_io)\<^sup>*\<^sup>* q t" "lpc t = LT_Batch [d] v"
      "clients t i = C_Wait False" "\<And>u. \<not> sys_step True True E F show_io t u"
    have "(sys_step True True E F show_io)\<^sup>*\<^sup>* s t" using q(1) t(1) by (rule rtranclp_trans)
    then show ?thesis using t(2-4) by blast
  qed
qed

theorem flush_wait_deadlocks_witness:
  "\<exists>t. (sys_step True True sample_env plain_features sample_show)\<^sup>*\<^sup>* sample_sys t \<and>
    (\<forall>u. \<not> sys_step True True sample_env plain_features sample_show t u)"
proof -
  from flush_wait_deadlocks [OF sample_safe sample_sinks(1) sample_is_started, where d = sample_record and i = 1 and show_io = sample_show]
  show ?thesis by blast
qed

text \<open>
  C11: Clients register contexts with tags whose file no open writer uses (own_file: the tag
  is not registered, its file is not that of another context or of the global log, or it
  cannot be created). When every record pushed is made of valid strings and chrono formats
  dates as text, the log thread waits with all files valid UTF-8: what was written behind
  the start of the global file, and behind the registration of a context, is the encoding of
  a string, so no chunk ever cuts a character.
\<close>

theorem files_stay_utf8:
  assumes r: "reach (live_started s0 mx) (live_step fair waits oks (own_file E) E F show_io) s"
    and env: "chunker (it_chunks E)" "dates_ok E" and w: "lpc (core s) = LT_Blocked v"
    and ds: "\<forall>d\<in>set (pushed (core s)). log_data_ok d"
  shows "(\<exists>x. rust_str x \<and> global_disk (sst (core s)) = global_stream s0 @ utf8 x) \<and>
    (\<forall>u y. ctx_disk (sst (core s)) u = Some y \<longrightarrow> (\<exists>x. rust_str x \<and> y = base s u @ utf8 x))"
proof -
  have inv: "live_inv E mx s0 s" using registry.reach_inv [OF r] .
  have "\<forall>d\<in>set (taken (core s)). log_data_ok d" using ds inv by (simp add: live_inv_def core_ok_def)
  note f = files_hold_text [OF live_blocked_disk [OF inv w] env this]
  show ?thesis using f unfolding text_bytes_def by blast
qed

theorem files_stay_utf8_witness:
  "\<exists>t x. (work True sample_env plain_features sample_show)\<^sup>*\<^sup>* sample_live t \<and>
    rust_str x \<and> global_disk (sst (core t)) = utf8 x"
proof -
  have run: "run_live sample_env 1024 sample_st sample_live" by (rule run_live_init [OF sample_live_started])
  obtain t where t: "(work True sample_env plain_features sample_show)\<^sup>*\<^sup>* sample_live t" "quiet (core t)"
      "pushed (core t) = [sample_record]"
    using sample_live_rests by blast
  obtain v where v: "lpc (core t) = LT_Blocked v" using t(2) by (auto simp: quiet_def)
  have r: "reach (live_started sample_st 1024) (live_step True True (\<lambda>_. True) (own_file sample_env) sample_env plain_features sample_show) t"
    by (rule reach_steps [OF sample_live_reach works_live [OF t(1)]])
  have d: "dates_ok sample_env" by (simp add: dates_ok_def sample_env_def scalar_def)
  have ok: "\<forall>d\<in>set (pushed (core t)). log_data_ok d"
    by (simp add: t(3) log_data_ok_def sample_record_def log_data_new_def scalar_def)
  have "global_stream sample_st = []" by (simp add: global_stream_def bw_stream_def sample_defs)
  with files_stay_utf8 [OF r sample_chunker d v ok] t(1) show ?thesis by auto
qed

section \<open>The end of the log thread\<close>

text \<open>
  C12: After an error of the log thread, when the disk accepts writes again, in a build
  without logcat, and when the report of the error is a line shorter than the 8192 bytes of
  the buffer: the thread first flushes the files, under the write lock, so that everything
  accepted so far is on disk, and then, under the write lock again, writes the report behind
  the flush. However many calls of queue_log and wait_for_flush come before, between and
  after these steps, the report stays in the buffer of the global file and is not on disk.
  (A longer report would be written through.)
\<close>

theorem error_report_never_on_disk:
  assumes run: "(sys_step fair waits E F show_io)\<^sup>*\<^sup>* s t" and pc: "lpc s = LT_Failed e"
    and rel: "reliable E" and ok: "ctx_ok (sst s)" and nl: "\<not> ft_logcat F"
    and len: "\<And>now. length (full_line E (exit_report show_io now e)) < bw_capacity"
  shows "lpc t = LT_Failed e \<and> global_disk (sst t) = global_disk (sst s) \<or>
    lpc t = LT_Report e \<and> global_disk (sst t) = global_stream (sst s) \<and> global_stream (sst t) = global_stream (sst s) \<or>
    (lpc t = LT_Dead \<or> (\<exists>d. lpc t = LT_Notify d)) \<and> (\<exists>now. global_disk (sst t) = global_stream (sst s) \<and>
      global_stream (sst t) = global_disk (sst t) @ full_line E (exit_report show_io now e))"
proof -
  have "global_disk (sst t) = global_disk (sst s)" if "files_view t = files_view s"
    by (rule files_view_streams(2) [OF that])
  with report_steps [OF assms] show ?thesis unfolding reported_def by fastforce
qed

theorem error_report_never_on_disk_witness:
  "\<exists>t. (sys_step True True sample_env plain_features sample_show)\<^sup>*\<^sup>* (sample_sys\<lparr>lpc := LT_Failed (LogError [])\<rparr>) t \<and>
    lpc t = LT_Dead \<and> global_disk (sst t) = [] \<and> global_stream (sst t) \<noteq> []"
proof -
  let ?s = "sample_sys\<lparr>lpc := LT_Failed (LogError [])\<rparr>"
  let ?t = "?s\<lparr>sst := snd (thread_exit sample_env plain_features sample_show [lit ''A''] 0 (LogError []) (sst ?s)), lpc := LT_Dead\<rparr>"
  have "(serve sample_env plain_features sample_show)\<^sup>*\<^sup>* ?s ?t"
    by (rule exit_is_steps) (use sample_visits in \<open>simp_all add: no_readers_def sample_sys_def\<close>)
  then have run: "(sys_step True True sample_env plain_features sample_show)\<^sup>*\<^sup>* ?s ?t"
    using mono_rtranclp [of "serve sample_env plain_features sample_show" "sys_step True True sample_env plain_features sample_show"]
      sys_step.served by blast
  have ok: "ctx_ok (sst ?s)" using sample_ok by (simp add: sample_sys_def)
  have "global_stream (sst ?s) = []" by (simp add: sample_sys_def global_stream_def bw_stream_def sample_defs)
  moreover have "([] = full_line sample_env d) = False" for d by (simp add: full_line_format)
  ultimately show ?thesis
    using error_report_never_on_disk [OF run _ sample_reliable ok _ sample_report_short] run
    by (intro exI [of _ ?t]) (auto simp: plain_features_def)
qed

text \<open>
  C13: Once the log thread has ended, nothing is taken from the queue any more and no file
  changes, whatever calls of queue_log and wait_for_flush are made; the records pile up in
  the queue in order; and queue_log goes on to succeed: from every later state any client
  that is not in a call can queue any record, and the call returns with the record at the
  end of the queue.
\<close>

theorem dead_thread_writes_nothing:
  assumes run: "(sys_step fair waits E F show_io)\<^sup>*\<^sup>* s t" and dead: "lpc s = LT_Dead"
  shows "lpc t = LT_Dead \<and> taken t = taken s \<and> w_fs (snd (sst t)) = w_fs (snd (sst s)) \<and>
    global_stream (sst t) = global_stream (sst s) \<and> ctx_stream (sst t) = ctx_stream (sst s) \<and>
    (\<exists>ps. log_queue (fst (sst t)) = log_queue (fst (sst s)) @ ps \<and> pushed t = pushed s @ ps) \<and>
    (\<forall>i d. clients t i = C_Idle \<longrightarrow> (\<exists>u. (sys_step fair waits E F show_io)\<^sup>*\<^sup>* t u \<and> clients u = clients t \<and>
       log_queue (fst (sst u)) = log_queue (fst (sst t)) @ [d] \<and> pushed u = pushed t @ [d]))"
proof -
  have q: "\<exists>u. (sys_step fair waits E F show_io)\<^sup>*\<^sup>* t u \<and> clients u = clients t \<and>
      log_queue (fst (sst u)) = log_queue (fst (sst t)) @ [d] \<and> pushed u = pushed t @ [d]"
    if "clients t i = C_Idle" "lpc t = LT_Dead" for i d
    using queue_one_steps [of t i fair waits E F show_io d] that
    by (intro exI [of _ "queued_one i d t"]) (simp add: may_read_def queued_one_def queue_log_fields)
  show ?thesis using dead_steps [OF assms] files_view_streams [of t s] q by (auto simp: files_view_def)
qed

theorem dead_thread_writes_nothing_witness:
  "let s = sample_sys\<lparr>lpc := LT_Dead\<rparr>; t = queued_one 0 sample_record s
    in log_queue (fst (sst t)) = [sample_record, sample_record] \<and> global_stream (sst t) = global_stream (sst s) \<and>
      (\<exists>u. (sys_step True False sample_env plain_features sample_show)\<^sup>*\<^sup>* t u \<and>
         log_queue (fst (sst u)) = [sample_record, sample_record, sample_record])"
proof -
  let ?s = "sample_sys\<lparr>lpc := LT_Dead\<rparr>" let ?t = "queued_one 0 sample_record ?s"
  have "(sys_step True False sample_env plain_features sample_show)\<^sup>*\<^sup>* ?s ?t"
    by (rule queue_one_steps) (simp_all add: may_read_def sample_sys_def)
  note d = dead_thread_writes_nothing [OF this]
  have q: "log_queue (fst (sst ?t)) = [sample_record, sample_record]" "clients ?t 0 = C_Idle"
    by (simp_all add: queued_one_def queue_log_fields sample_sys_def sample_defs)
  obtain u where "(sys_step True False sample_env plain_features sample_show)\<^sup>*\<^sup>* ?t u"
      "log_queue (fst (sst u)) = log_queue (fst (sst ?t)) @ [sample_record]"
    using d q(2) by auto
  then show ?thesis using d q(1) by (auto simp: Let_def)
qed

text \<open>
  C14: With max_string_len 0, which the C configuration can pass, and on a disk that accepts
  every write, nothing is ever written, whatever is queued and waited for; and when nobody
  calls wait_for_flush, whenever the system comes to rest after a record was queued the log
  thread has died, although all calls have returned normally. (With callers of
  wait_for_flush the thread may instead sleep on, its signal taken.)
\<close>

theorem zero_chunk_size_silences:
  assumes env: "chunker (it_chunks E)" "reliable E"
    and r: "reach (\<lambda>s. started s0 0 s) (sys_step fair waits E F show_io) s"
  shows "global_stream (sst s) = global_stream s0 \<and> ctx_stream (sst s) = ctx_stream s0 \<and>
    (\<not> waits \<longrightarrow> at_rest E F show_io s \<longrightarrow> pushed s \<noteq> [] \<longrightarrow> lpc s = LT_Dead \<and> (\<forall>i. clients s i = C_Idle))"
proof (intro conjI impI)
  have "reach (\<lambda>s. (chunker (it_chunks E) \<and> reliable E) \<and> started s0 0 s) (sys_step fair waits E F show_io) s"
    using reach_weaken [OF r, of "chunker (it_chunks E) \<and> reliable E"] env by blast
  from zero.reach_inv [OF this] have z: "pipe_inv E 0 s0 s" "zero_inv s0 s" by blast+
  show "global_stream (sst s) = global_stream s0" "ctx_stream (sst s) = ctx_stream s0"
    using z(2) by (simp_all add: zero_inv_def)
  assume nw: "\<not> waits" and rest: "at_rest E F show_io s" and p: "pushed s \<noteq> []"
  have ri: "run_inv E 0 s0 s" using runs.reach_inv r nw by simp
  show "\<forall>i. clients s i = C_Idle" using rest_idle [OF ri rest] by blast
  show "lpc s = LT_Dead"
  proof (rule ccontr)
    assume "lpc s \<noteq> LT_Dead"
    then have "(\<exists>v. lpc s = LT_Blocked v) \<and> pushed s = taken s" using rest_drained [OF ri rest] by blast
    then show False using zero_taken [OF z(1) _ env(1)] p by auto
  qed
qed

theorem zero_chunk_size_silences_witness:
  "\<exists>t. (serve sample_env plain_features sample_show)\<^sup>*\<^sup>* zero_sys t \<and> lpc t = LT_Dead \<and> global_stream (sst t) = []"
proof -
  have r: "reach (\<lambda>s. started zero_st 0 s) (sys_step True False sample_env plain_features sample_show) zero_sys"
    by (rule reach_init) (rule zero_started)
  obtain t where t: "(serve sample_env plain_features sample_show)\<^sup>*\<^sup>* zero_sys t"
      "at_rest sample_env plain_features sample_show t"
    using reaches_rest [OF runs.reach_inv [OF r]] by blast
  note z = zero_chunk_size_silences [OF sample_chunker sample_reliable reach_steps [OF r serves_steps [OF t(1)]]]
  have "pushed t = [sample_record]" using idle_serves [OF t(1)] by (simp add: zero_sys_def sample_sys_def)
  moreover have "global_stream zero_st = []" by (simp add: zero_st_def global_stream_def bw_stream_def sample_defs)
  ultimately show ?thesis using z t by auto
qed

section \<open>The lock of the logger\<close>

text \<open>
  C15: With sinks that leave the logger alone, the log thread, through all its rounds and
  its exit, and any number of clients making any calls use the lock without deadlock: from
  every reachable state in which threads still have work some step is possible, and they all
  run to their ends. Calls of wait_for_flush, which hold the read lock while they wait, are
  included if a signal comes to them (woken), or if they have a timeout; without a signal
  the untimed ones are left out (flush_wait_deadlocks shows the deadlock they cause).
\<close>

theorem lock_usage_finishes:
  assumes ps: "ps = (\<lambda>i. if i = 0 then thread_locks rs ends else if i < n then client_locks (cs i) else [])"
    and waits: "\<And>i. woken \<or> A_Wait \<notin> set (cs i)"
    and r: "reach (lock_init ps) (lock_step fair woken) s"
  shows "(\<forall>i. prog s i \<noteq> [] \<longrightarrow> (\<exists>t. lock_step fair woken s t)) \<and>
    (\<exists>t. (lock_step fair woken)\<^sup>*\<^sup>* s t \<and> (\<forall>i. prog t i = []))"
proof -
  have "flat woken (ps i)" for i using waits [of i] by (simp add: ps flat_client flat_thread)
  then have "reach (\<lambda>s. (\<forall>i. flat woken (ps i)) \<and> lock_init ps s) (lock_step fair woken) s" using reach_weaken [OF r] by blast
  from flat_progs.reach_inv [OF this] have inv: "flat_inv woken s" .
  have "{i. prog s i \<noteq> []} \<subseteq> {..<Suc n}"
    using r
  proof (induction rule: reach.induct)
    case (reach_init s)
    then show ?case by (auto simp: lock_init_def ps split: if_splits)
  next
    case (reach_step s t)
    then show ?case using lock_work_decreases [of fair woken s t "{..<Suc n}"] by blast
  qed
  then show ?thesis using flat_progress [OF inv] flat_finishes [OF inv, of "{..<Suc n}"] by blast
qed

theorem lock_usage_finishes_witness:
  "\<exists>t. (lock_step True False)\<^sup>*\<^sup>* \<lparr>prog = (\<lambda>i. if i = 0 then thread_locks [(Some 2, True)] False
      else if i < 2 then client_locks [A_Register False, A_Wait_Timeout] else []), reading = (\<lambda>_. 0), claimed = None\<rparr> t \<and>
    (\<forall>i. prog t i = [])"
  using lock_usage_finishes [of _ "[(Some 2, True)]" False 2 "\<lambda>_. [A_Register False, A_Wait_Timeout]" False True, OF refl _
      reach_init] by (auto simp: lock_init_def)

text \<open>
  C16: The sinks are called under the read lock: a sink that registers or unregisters a
  context or adds a sink, or that panics with the logger's panic hook installed, blocks the
  log thread for ever, whatever the other threads do.
\<close>

theorem write_in_sink_blocks:
  assumes p: "p \<in> {api_locks (A_Register ok), api_locks A_Unregister, api_locks A_Add_Sink, hook_locks b t}"
    and i: "ps i = thread_locks rs False @ sink_locks (p @ x) @ zs"
    and r: "reach (lock_init ps) (lock_step fair woken) s"
  shows "prog s i \<noteq> []"
proof -
  obtain q where q: "p = WLock # q" using p by (auto simp: hook_locks_def do_log_locks_def)
  have "reach (\<lambda>s. (flat woken (thread_locks rs False) \<and> ps i = thread_locks rs False @ sink_locks (WLock # q @ x) @ zs) \<and>
      lock_init ps s) (lock_step fair woken) s"
    by (rule reach_weaken [OF r]) (use i flat_thread q in simp)
  from nested_unfinished [OF nested.reach_inv [OF this]] show ?thesis by auto
qed

theorem write_in_sink_blocks_witness:
  "\<exists>s. (lock_step True False)\<^sup>*\<^sup>* \<lparr>prog = (\<lambda>i. if i = 3 then sink_locks (api_locks A_Unregister) else [RLock, RUnlock]),
      reading = (\<lambda>_. 0), claimed = None\<rparr> s \<and> reading s 3 = 1 \<and> prog s 3 \<noteq> []"
proof -
  let ?ps = "\<lambda>i::nat. if i = 3 then sink_locks (api_locks A_Unregister) else [RLock, RUnlock]"
  let ?s = "\<lparr>prog = ?ps, reading = (\<lambda>_. 0), claimed = None\<rparr>"
  let ?t = "?s\<lparr>reading := (\<lambda>_. 0)(3 := 1), prog := ?ps(3 := [WLock, WUnlock, RUnlock])\<rparr>"
  have init: "lock_init ?ps ?s" by (simp add: lock_init_def)
  have step: "lock_step True False ?s ?t"
    using lock_step.read_lock [of ?s 3 "[WLock, WUnlock, RUnlock]" True False] by (simp add: sink_locks_def may_enter_def)
  have "reach (lock_init ?ps) (lock_step True False) ?t"
    by (rule reach_steps [OF reach_init [where init = "lock_init ?ps", OF init] r_into_rtranclp [of "lock_step True False", OF step]])
  then have "prog ?t 3 \<noteq> []"
    by (rule write_in_sink_blocks [where p = "api_locks A_Unregister" and i = 3 and rs = "[]" and x = "[]" and zs = "[]", rotated 2])
      (simp_all add: thread_locks_def)
  then show ?thesis using r_into_rtranclp [of "lock_step True False", OF step] by (intro exI [of _ ?t]) simp
qed

text \<open>
  C17: A sink that logs, waits for a flush, or reads the state of the logger takes the read
  lock a second time: with a task-fair lock, when another thread has asked for the write
  lock in between, neither can go on, and no step of any thread is possible.
\<close>

theorem read_in_sink_deadlocks:
  assumes c: "c \<in> {A_Queue_Log, A_Log_Directory, A_Get_Inited, A_Wait, A_Wait_Timeout}" and d: "d \<in> {A_Register ok, A_Unregister, A_Add_Sink}"
    and init: "lock_init ps s" and i: "ps i = sink_locks (api_locks c @ x) @ zs"
    and j: "ps j = client_locks (d # ds)" "i \<noteq> j" and others: "\<And>k. k \<noteq> i \<Longrightarrow> k \<noteq> j \<Longrightarrow> \<exists>cs. ps k = client_locks cs"
  shows "\<exists>t. (lock_step True woken)\<^sup>*\<^sup>* s t \<and> prog t i = api_locks c @ x @ RUnlock # zs \<and> prog t j = ps j \<and> (\<forall>u. \<not> lock_step True woken t u)"
proof -
  obtain q where q: "api_locks c = RLock # q" using c by auto
  obtain r where r: "ps j = WLock # r" using d j(1) by (auto simp: client_locks_def)
  have p: "ps i = sink_locks (RLock # q @ x) @ zs" using i q by simp
  have f: "ps k \<noteq> Await timed # ops" for k timed ops
  proof (cases "k = i")
    case True
    then show ?thesis by (simp add: p sink_locks_def)
  next
    case False
    then show ?thesis using others j(1) client_start by metis
  qed
  from sink_reads_again [OF init p r j(2) f] show ?thesis by (simp add: q)
qed

theorem read_in_sink_deadlocks_witness:
  "\<exists>t. (lock_step True False)\<^sup>*\<^sup>* \<lparr>prog = (\<lambda>i. if i = 0 then sink_locks (api_locks A_Queue_Log) else client_locks [A_Unregister]),
      reading = (\<lambda>_. 0), claimed = None\<rparr> t \<and> (\<forall>u. \<not> lock_step True False t u)"
proof -
  let ?ps = "\<lambda>i::nat. if i = 0 then sink_locks (api_locks A_Queue_Log) else client_locks [A_Unregister]"
  have "\<exists>t. (lock_step True False)\<^sup>*\<^sup>* \<lparr>prog = ?ps, reading = (\<lambda>_. 0), claimed = None\<rparr> t \<and>
      prog t 0 = api_locks A_Queue_Log @ [] @ RUnlock # [] \<and> prog t 1 = ?ps 1 \<and> (\<forall>u. \<not> lock_step True False t u)"
    by (rule read_in_sink_deadlocks [where d = A_Unregister and ds = "[]"])
      (auto simp: lock_init_def)
  then show ?thesis by blast
qed

section \<open>The log thread on its own\<close>

text \<open>
  C18: One iteration of the log thread that returns normally has written the lines of every
  queued record to the global file and to the file of its context, emptied the queue,
  flushed every file, signalled the flush, and kept the stock of the pool.
\<close>

theorem iteration_writes:
  assumes ok: "ctx_ok s" and pool: "pool_ok (log_pool th)" and ks: "visits ks s"
    and split: "split_str_into_chunks E (log_queue (fst s)) (max_string_len (config (fst s))) = Some logs"
    and run: "log_iter E F ks th s = (Ok th', t)"
  shows "ctx_ok t \<and> log_queue (fst t) = [] \<and> flush_sem (fst t) \<and>
    global_disk t = global_stream s @ full_lines E logs \<and>
    (\<forall>u. ctx_disk t u = map_option (\<lambda>x. x @ context_lines E logs u) (ctx_stream s u)) \<and>
    pool_len (log_pool th') = max 1 (pool_len (log_pool th))"
  using log_iter_ok [OF assms] clean_disk [of t] by (auto simp: grows_def)

theorem iteration_writes_witness:
  "\<exists>th' t. log_iter sample_env plain_features [lit ''A''] thr_init sample_st = (Ok th', t) \<and>
    global_disk t = full_line sample_env (sample_record\<lparr>message := lit ''hello''\<rparr>) @
      full_line sample_env (sample_record\<lparr>message := lit ''world''\<rparr>)"
proof -
  have pool: "pool_ok (log_pool thr_init)" by (simp add: thr_init_def pool_ok_initial)
  obtain th' t where run: "log_iter sample_env plain_features [lit ''A''] thr_init sample_st = (Ok th', t)"
    by (rule log_iter_reliable [OF sample_reliable sample_chunker _ _ _ pool])
      (auto simp: sample_max plain_features_def sample_sinks)
  have q: "log_queue (fst sample_st) = [sample_record]" by (simp add: sample_defs)
  have g: "global_stream sample_st = []" by (simp add: global_stream_def bw_stream_def sample_defs)
  from iteration_writes [OF sample_ok pool sample_visits, unfolded q sample_max, OF sample_split run] run
  show ?thesis by (simp add: g)
qed

text \<open>
  C19: The body of log_thread run in one piece and its critical sections run one after the
  other are the same: when no client is in a call, the steps lead from the loop head to the
  same files, queue and world as the iteration, and to the matching position: at the test
  before the wait, with the vector still to be given back, after a normal round; failed with
  the same error; or dead after a panic.
\<close>

theorem iteration_is_steps:
  assumes pc: "lpc s = LT_Start" "pool_ok (log_pool (sthr s))" and nr: "no_readers s"
    and ks: "visits ks (sst s)" and run: "log_iter E F ks (sthr s) (sst s) = (r, t)"
  shows "\<exists>u. (serve E F show_io)\<^sup>*\<^sup>* s u \<and> sst u = t \<and> clients u = clients s \<and>
    (case r of Ok th \<Rightarrow> \<exists>v. lpc u = LT_WaitCheck v \<and> lt_release v (sthr u) = th
     | Err e \<Rightarrow> lpc u = LT_Failed e | Panic p \<Rightarrow> lpc u = LT_Dead)"
proof -
  obtain u where "(serve E F show_io)\<^sup>*\<^sup>* s u" "outcome r u" "sst u = t" "clients u = clients s"
    using take_runs [OF pc nr ks run, of show_io] unfolding runs_to_def by blast
  then show ?thesis by (intro exI [of _ u]) (cases r; simp)
qed

theorem iteration_is_steps_witness:
  "\<exists>u v th. log_iter sample_env plain_features [lit ''A''] thr_init sample_st = (Ok th, sst u) \<and>
    (serve sample_env plain_features sample_show)\<^sup>*\<^sup>* sample_sys u \<and> lpc u = LT_WaitCheck v \<and>
    lt_release v (sthr u) = th"
proof -
  have p: "pool_ok (log_pool thr_init)" by (simp add: thr_init_def pool_ok_initial)
  have m: "0 < max_string_len (config (fst sample_st))" "\<not> ft_logcat plain_features"
    using sample_max by (simp_all add: plain_features_def)
  obtain th t where i: "log_iter sample_env plain_features [lit ''A''] thr_init sample_st = (Ok th, t)"
    by (rule log_iter_reliable [OF sample_reliable sample_chunker m sample_sinks(1) p])
  have "\<exists>u. (serve sample_env plain_features sample_show)\<^sup>*\<^sup>* sample_sys u \<and> sst u = t \<and>
      clients u = clients sample_sys \<and> (case Ok th of Ok th \<Rightarrow> \<exists>v. lpc u = LT_WaitCheck v \<and> lt_release v (sthr u) = th
        | Err e \<Rightarrow> lpc u = LT_Failed e | Panic p \<Rightarrow> lpc u = LT_Dead)"
    by (rule iteration_is_steps) (use i p sample_visits in \<open>simp_all add: sample_sys_def no_readers_def\<close>)
  with i show ?thesis by auto
qed

text \<open>
  C20: Writing a batch to files never panics; whatever the disk does, each file receives a
  prefix of the batch's lines for it, and all of them when the call succeeds.
\<close>

theorem batch_writes_prefix:
  assumes ok: "ctx_ok s" and run: "file_do_log_batch E ds s = (r, t)"
  shows "ctx_ok t \<and> (\<forall>p. r \<noteq> Panic p) \<and>
    (\<exists>G C. global_stream t = global_stream s @ G \<and> prefix G (full_lines E ds) \<and>
       (\<forall>u. ctx_stream t u = map_option (\<lambda>x. x @ C u) (ctx_stream s u) \<and>
            prefix (C u) (context_lines E ds u)) \<and>
       (is_ok r \<longrightarrow> G = full_lines E ds \<and> C = context_lines E ds))"
  using file_batch_writes [of E ds, unfolded writes_def grows_def, rule_format, OF ok run] by blast

theorem batch_writes_prefix_witness:
  "ctx_ok (snd (file_do_log_batch sample_env [sample_record] sample_st))"
  using batch_writes_prefix [OF sample_ok, of sample_env "[sample_record]"
      "fst (file_do_log_batch sample_env [sample_record] sample_st)"
      "snd (file_do_log_batch sample_env [sample_record] sample_st)"] by simp

text \<open>
  C21: Splitting a record gives records that differ from it in the message only; their
  messages are not empty, have no newline, are at most max_string_len characters long, and
  together are the message without its newlines.
\<close>

theorem message_splitting:
  assumes ch: "chunker (it_chunks E)" and mx: "0 < mx"
  shows "\<exists>ps. split_log E mx d = Some ps \<and>
    concat (map message ps) = filter (\<lambda>c. c \<noteq> 10) (message d) \<and>
    (\<forall>p\<in>set ps. p = d\<lparr>message := message p\<rparr> \<and> message p \<noteq> [] \<and> length (message p) \<le> mx \<and>
       10 \<notin> set (message p))"
proof -
  obtain ps where ps: "split_log E mx d = Some ps"
      "concat (map message ps) = filter (\<lambda>c. c \<noteq> 10) (message d)"
      "\<forall>p\<in>set ps. p = d\<lparr>message := message p\<rparr> \<and> message p \<noteq> [] \<and> length (message p) \<le> mx"
    using split_log_spec [OF ch mx] by blast
  have "10 \<notin> set (message p)" if "p \<in> set ps" for p
  proof -
    have "set (message p) \<subseteq> set (concat (map message ps))" using that by auto
    then show ?thesis by (auto simp: ps(2))
  qed
  with ps show ?thesis by blast
qed

theorem message_splitting_witness:
  "\<exists>ps. split_log sample_env 3 sample_record = Some ps \<and> (\<forall>p\<in>set ps. length (message p) \<le> 3)"
  using message_splitting [OF sample_chunker, of 3 sample_record] by auto

section \<open>Semaphore and pool\<close>

text \<open>
  C22: Every step of the mutex and condition-variable implementation of SemaphoreLite, in
  any reachable state and with any number of waiting threads, is a step of an atomic binary
  semaphore or changes nothing of it.
\<close>

theorem semaphore_refines:
  assumes "reach sem_init sem_step s" "sem_step s t"
  shows "abs_step (abs_of s) (abs_of t) \<or> abs_of t = abs_of s"
  using sem_refines sem_timed.reach_inv assms by blast

theorem semaphore_refines_witness:
  "abs_step (abs_of \<lparr>sem_flag = False, timed = (\<lambda>_. False), pcs = (\<lambda>_. Outside), signals = 0, passes = 0\<rparr>)
     (abs_of (signal_step \<lparr>sem_flag = False, timed = (\<lambda>_. False), pcs = (\<lambda>_. Outside), signals = 0, passes = 0\<rparr>))"
proof -
  let ?s = "\<lparr>sem_flag = False, timed = (\<lambda>_. False), pcs = (\<lambda>_. Outside), signals = 0, passes = 0\<rparr>"
  have "reach sem_init sem_step ?s" by (rule reach_init) (simp add: sem_init_def sem_new_def)
  from semaphore_refines [OF this sem_step.signal]
  show ?thesis by (auto simp: abs_of_def signal_step_def sem_signal_def)
qed

text \<open>
  C23: In every reachable state with the flag set no thread sleeps in the condition
  variable: a signal cannot be missed by a thread that is about to wait.
\<close>

theorem semaphore_wakes_all:
  assumes "reach sem_init sem_step s" "sem_flag s"
  shows "pcs s i \<noteq> Asleep"
  using set_flag_wakes assms by blast

theorem semaphore_wakes_all_witness:
  "pcs (signal_step \<lparr>sem_flag = False, timed = (\<lambda>_. False), pcs = (\<lambda>_. Outside), signals = 0, passes = 0\<rparr>) 5 \<noteq> Asleep"
proof -
  let ?s = "\<lparr>sem_flag = False, timed = (\<lambda>_. False), pcs = (\<lambda>_. Outside), signals = 0, passes = 0\<rparr>"
  have "reach sem_init sem_step ?s" by (rule reach_init) (simp add: sem_init_def sem_new_def)
  then have "reach sem_init sem_step (signal_step ?s)" by (rule reach_step) (rule sem_step.signal)
  then show ?thesis by (rule semaphore_wakes_all) (simp add: signal_step_def sem_signal_def)
qed

text \<open>
  C24: A pool created with n > 0 vectors holds n again after any number of uses (a guard
  taken, its vector written through any number of times, the guard dropped), and the vector
  of the next guard is empty.
\<close>

theorem guards_reuse_vectors:
  fixes fs :: "('a rvec \<Rightarrow> 'a rvec) list"
  assumes "0 < n"
  shows "let use = (\<lambda>p. guard_end (fold guard_deref_mut fs (take_guard p)));
             p = (use ^^ k) (with_initial_amount n c)
         in pool_len p = n \<and> elems (guard_deref (take_guard p)) = []"
  using guards_keep_stock [OF assms, where fs = fs and k = k and c = c] by (simp add: guard_use_def [abs_def] Let_def)

theorem guards_reuse_vectors_witness:
  "pool_len (((\<lambda>p. guard_end (fold guard_deref_mut [\<lambda>v. v\<lparr>elems := [1::nat]\<rparr>] (take_guard p))) ^^ 3)
     (with_initial_amount 2 8)) = 2"
  using guards_reuse_vectors [where n = 2 and fs = "[\<lambda>v. v\<lparr>elems := [1::nat]\<rparr>]" and k = 3 and c = 8]
  by (simp add: Let_def)

section \<open>Contexts\<close>

text \<open>
  C25: Removing a context takes its stream away and leaves the global stream, every other
  context and the well-formedness of the state as they were; and on a disk that accepts
  writes everything the context was given is in its file afterwards.
\<close>

theorem context_removed:
  assumes ok: "ctx_ok s"
  shows "ctx_ok (remove_context E t s) \<and> global_stream (remove_context E t s) = global_stream s \<and>
    ctx_stream (remove_context E t s) = (ctx_stream s)(t := None) \<and>
    (reliable E \<longrightarrow> (\<forall>b. context_map (fst s) t = Some b \<longrightarrow>
       ctx_stream s t = Some (inodes (w_fs (snd (remove_context E t s))) (w_ino b))))"
  using remove_context_spec [OF ok, of E t] removed_on_disk [OF _ ok, of E t] by blast

theorem context_removed_witness:
  "ctx_stream (remove_context sample_env (lit ''A'') sample_st) (lit ''A'') = None \<and>
    inodes (w_fs (snd (remove_context sample_env (lit ''A'') sample_st))) 1 = []"
proof -
  have b: "context_map (fst sample_st) (lit ''A'') = Some (bw_new \<lparr>f_ino = 1, f_pos = 0\<rparr>)"
    by (simp add: sample_defs)
  have "ctx_stream sample_st (lit ''A'') = Some []" by (simp add: ctx_stream_def bw_stream_def sample_defs)
  with context_removed [OF sample_ok, of sample_env "lit ''A''"] sample_reliable b show ?thesis
    by (simp add: w_ino_def bw_new_def)
qed

text \<open>
  C26: Registering a tag again while its writer still buffers data leaves the truncated file
  with as many zero bytes as the old offset followed by the old buffer, under a new writer
  at offset zero: the invariant of the files is broken.
\<close>

theorem registering_twice_corrupts:
  assumes "reliable E" "context_map c t = Some b" "bw_buf b \<noteq> []"
    and "names (w_fs w) (os_resolve E (context_path c t)) = Some (w_ino b)"
    and "creates E (context_path c t) (w_fs w)" "add_context E t (c, w) = (r, (c', w'))"
  shows "r = Ok () \<and> context_map c' t = Some (bw_new \<lparr>f_ino = w_ino b, f_pos = 0\<rparr>) \<and>
    inodes (w_fs w') (w_ino b) = replicate (f_pos (bw_file b)) 0 @ bw_buf b \<and> \<not> ctx_ok (c', w')"
  using reregister_spec [OF assms] .

theorem registering_twice_corrupts_witness:
  "let b = \<lparr>bw_file = \<lparr>f_ino = 1, f_pos = 4\<rparr>, bw_buf = [65, 66]\<rparr>;
         c = sample_ctx\<lparr>context_map := [lit ''A'' \<mapsto> b]\<rparr>;
         w = sample_world\<lparr>w_fs := sample_fs\<lparr>inodes := (\<lambda>_. [])(1 := [1, 2, 3, 4])\<rparr>\<rparr>
     in inodes (w_fs (snd (snd (add_context sample_env (lit ''A'') (c, w))))) 1 = [0, 0, 0, 0, 65, 66]"
proof -
  let ?b = "\<lparr>bw_file = \<lparr>f_ino = 1, f_pos = 4\<rparr>, bw_buf = [65, 66]\<rparr>"
  let ?c = "sample_ctx\<lparr>context_map := [lit ''A'' \<mapsto> ?b]\<rparr>"
  let ?w = "sample_world\<lparr>w_fs := sample_fs\<lparr>inodes := (\<lambda>_. [])(1 := [1, 2, 3, 4])\<rparr>\<rparr>"
  obtain r c' w' where run: "add_context sample_env (lit ''A'') (?c, ?w) = (r, (c', w'))" by (metis prod_cases3)
  have p: "context_path ?c (lit ''A'') = lit ''./logs/A.log''"
    using context_path_plain [of "lit ''./logs''" "lit ''A''" "lit ''log''"]
    by (simp add: context_path_def sample_defs default_config_def dir_path_def plain_name_def lit_def)
  have n: "names (w_fs ?w) (os_resolve sample_env (context_path ?c (lit ''A''))) = Some (w_ino ?b)"
    unfolding p by (simp add: sample_env_def sample_fs_def w_ino_def lit_def)
  have c: "creates sample_env (context_path ?c (lit ''A'')) (w_fs ?w)"
    by (simp add: creates_def sample_env_def)
  from registering_twice_corrupts [OF sample_reliable _ _ n c run]
  have "inodes (w_fs w') 1 = replicate 4 0 @ [65, 66]" by (simp add: w_ino_def)
  then show ?thesis using run by (simp add: Let_def numeral_eq_Suc)
qed

section \<open>Sinks and logcat\<close>

text \<open>
  C27: A record is given to the registered sinks in the order of registration, each seeing
  the state the one before left: when none fails all are called, and the first that fails
  ends the call with its error, unseen by the later ones; nothing but the clients' state
  changes.
\<close>

theorem sinks_in_order:
  assumes "sinks (fst s) = ks @ ls" "\<And>k u. k \<in> set ks \<Longrightarrow> fst (k d u) = Ok ()"
  defines "u \<equiv> fold (\<lambda>k v. snd (k d v)) ks (w_user (snd s))"
  shows "(ls = [] \<longrightarrow> sink_do_log d s = (Ok (), (fst s, (snd s)\<lparr>w_user := u\<rparr>))) \<and>
    (\<forall>k ms e v. ls = k # ms \<longrightarrow> k d u = (Err e, v) \<longrightarrow> sink_do_log d s = (Err e, (fst s, (snd s)\<lparr>w_user := v\<rparr>)))"
  using every_sink_called [of s d] failing_sink_stops [of s ks _ _ d] assms by auto

theorem sinks_in_order_witness:
  "fst (sink_do_log sample_record
      (sample_ctx\<lparr>sinks := [\<lambda>d u. (Ok (), u), \<lambda>d u. (Err (LogError []), u), \<lambda>d u. (Ok (), u)]\<rparr>, sample_world)) = Err (LogError [])"
  using sinks_in_order [of "(sample_ctx\<lparr>sinks := [\<lambda>d u. (Ok (), u), \<lambda>d u. (Err (LogError []), u), \<lambda>d u. (Ok (), u)]\<rparr>, sample_world)"
      "[\<lambda>d u. (Ok (), u)]" "[\<lambda>d u. (Err (LogError []), u), \<lambda>d u. (Ok (), u)]" sample_record] by simp

text \<open>
  C28: The logcat backend panics, and so ends the log thread, exactly when the tag is longer
  in bytes than line, column, function name and message together plus seven.
\<close>

theorem logcat_long_tag_panics:
  "(\<exists>p t. logcat_do_log E api30 d s = (Panic p, t)) \<longleftrightarrow>
     7 + length (show_u32 (line d)) + length (show_u32 (column d)) +
       length (utf8 (unwrap_or (function_name d) [])) + length (utf8 (message d))
     < length (logcat_tag d)"
  using logcat_panics [of E api30 d "w_cbuf (snd s)"] file_len_message_len [of d]
  by (auto simp: logcat_do_log_def split: prod.splits)

text \<open>
  C29: With API 30, a record that is not loggable stays in the thread-local buffer, and the
  next record that is logged is reported under the tag of the earlier one.
\<close>

theorem logcat_stale_buffer:
  assumes "file_len d \<le> message_len d" "file_len e \<le> message_len e" "0 \<notin> set (logcat_tag d)"
    and "w_cbuf (snd s) = []"
    and "\<not> is_loggable E (prio_code E (priority_of (level d))) (logcat_tag d)"
    and "is_loggable E (prio_code E (priority_of (level e))) (logcat_tag d)"
  shows "\<exists>fl ms. w_logcat (snd (snd (seq_act (logcat_do_log E True d) (logcat_do_log E True e) s))) =
    w_logcat (snd s) @ [LogMessage B_Main (prio_code E (priority_of (level e))) (logcat_tag d) fl (line e) ms]"
proof -
  have c: "c_read (logcat_layout d @ x) 0 = logcat_tag d" for x by (rule c_read_stale [OF assms(3)])
  have "logcat_body E True d [] = (Ok (), logcat_layout d, None)"
    using logcat_stale [OF assms(1), of E "[]"] c [of "[]"] assms(5) by simp
  then have 1: "logcat_do_log E True d s = (Ok (), (fst s, (snd s)\<lparr>w_cbuf := logcat_layout d\<rparr>))"
    using assms(4) by (cases s) (simp add: logcat_do_log_def)
  have "\<not> message_len e < file_len e" using assms(2) by simp
  then have "\<exists>fl ms. logcat_body E True e (logcat_layout d) =
      (Ok (), [], Some (LogMessage B_Main (prio_code E (priority_of (level e))) (logcat_tag d) fl (line e) ms))"
    using slices_in_range [of e "logcat_layout d"] c [of "logcat_layout e"] assms(6)
    by (simp add: logcat_body_def Let_def)
  then show ?thesis using 1 by (auto simp: logcat_do_log_def split: prod.splits)
qed

theorem logcat_stale_buffer_witness:
  "let E = sample_env\<lparr>is_loggable := (\<lambda>p t. p \<noteq> 3)\<rparr>; e = sample_record\<lparr>level := Error, tag := Some (lit ''B'')\<rparr>
    in \<exists>fl ms. w_logcat (snd (snd (seq_act (logcat_do_log E True sample_record) (logcat_do_log E True e) sample_st))) =
      [LogMessage B_Main 4 (utf8 (lit ''A'')) fl 7 ms]"
proof -
  let ?E = "sample_env\<lparr>is_loggable := (\<lambda>p t. p \<noteq> 3)\<rparr>"
  let ?e = "sample_record\<lparr>level := Error, tag := Some (lit ''B'')\<rparr>"
  have l: "file_len sample_record \<le> message_len sample_record" "file_len ?e \<le> message_len ?e"
    using file_len_message_len [of sample_record] file_len_message_len [of ?e]
    by (simp_all add: logcat_tag_def sample_record_def log_data_new_def lit_def enc_char_def not_less [symmetric])
  have t: "0 \<notin> set (logcat_tag sample_record)"
    by (simp add: logcat_tag_def sample_record_def log_data_new_def zero_utf8) (simp add: lit_def)
  show ?thesis
    using logcat_stale_buffer [OF l t, of sample_st ?E]
    by (simp add: sample_record_def log_data_new_def sample_defs sample_env_def logcat_tag_def Let_def)
qed

section \<open>The process-wide logger and the C interface\<close>

text \<open>
  C30: The first init_logger that returns has set a running logger with the given
  configuration, an empty queue, no contexts, an empty and flushed global file, and has
  spawned one thread.
\<close>

theorem init_logger_starts:
  assumes "proc_ok s" "p_logger s = None" "init_logger E cfg p s = (Ok (), t)"
  shows "\<exists>c. p_logger t = Some c \<and> config c = cfg \<and> inited c \<and> log_queue c = [] \<and>
    context_map c = Map.empty \<and> all_clean (c, p_world t) \<and> global_stream (c, p_world t) = [] \<and>
    w_threads (p_world t) = Suc (w_threads (p_world s)) \<and> proc_ok t"
  using init_logger_Ok [OF assms] .

theorem init_logger_starts_witness:
  "w_threads (p_world (snd (init_logger sample_env default_config (lit ''./x.log'') sample_proc))) = 2"
proof -
  obtain t where "init_logger sample_env default_config (lit ''./x.log'') sample_proc = (Ok (), t)"
    using sample_init by blast
  with init_logger_starts [OF sample_proc_ok _ this] show ?thesis
    by (auto simp: sample_proc_def sample_world_def)
qed

text \<open>
  C31: init_logger never returns an error: it returns a logger or panics; and once a logger
  is set, further calls return it and ignore their arguments.
\<close>

theorem init_logger_never_fails_softly:
  "init_logger E cfg p s \<noteq> (Err e, t) \<and>
    (\<forall>c. p_logger s = Some c \<longrightarrow> init_logger E cfg p s = (Ok (), s))"
  using init_logger_no_Err init_logger_again by blast

theorem init_logger_never_fails_softly_witness:
  "init_logger sample_env default_config (lit ''other'') (sample_proc\<lparr>p_logger := Some sample_ctx\<rparr>) =
    (Ok (), sample_proc\<lparr>p_logger := Some sample_ctx\<rparr>)"
  using init_logger_never_fails_softly [where s = "sample_proc\<lparr>p_logger := Some sample_ctx\<rparr>"
      and E = sample_env and cfg = default_config and p = "lit ''other''" and e = AlreadyInitialized and t = sample_proc]
  by simp

text \<open>
  C32: A record passed to paper2_queue_log_ffi as C strings is queued with exactly the texts
  the caller wrote, null tag and function name as absent, and the bits of line and column.
\<close>

theorem queue_log_ffi_roundtrip:
  assumes "get_logger s = Some c" "holds_opt (p_heap s) tg t" "holds (p_heap s) msg m"
    and "holds (p_heap s) fl f" "holds_opt (p_heap s) fn n"
  shows "paper2_queue_log_ffi now lv tg msg fl ln col fn s =
    (Ok True, s\<lparr>p_logger := Some (queue_log (log_data_new lv t m f ln col n now) c)\<rparr>)"
  using queue_log_ffi_spec [OF assms] .

theorem queue_log_ffi_roundtrip_witness:
  "paper2_queue_log_ffi 0 Info 0 (fst sample_strings) (fst sample_strings) (-1) 2 0
      (sample_text_proc\<lparr>p_logger := Some sample_ctx\<rparr>) =
    (Ok True, sample_text_proc\<lparr>p_logger := Some (queue_log (log_data_new Info None (lit ''p.log'') (lit ''p.log'')
      (-1) 2 None 0) sample_ctx)\<rparr>)"
  using queue_log_ffi_roundtrip [of "sample_text_proc\<lparr>p_logger := Some sample_ctx\<rparr>" sample_ctx 0 None
      "fst sample_strings" "lit ''p.log''" "fst sample_strings" "lit ''p.log''" 0 None 0 Info "-1" 2] sample_path_held
  by (simp add: get_logger_def holds_opt_def)

text \<open>
  C33: A C callback is called once per record with spans that decode to the texts of the
  record, null for an absent tag or function name, and the sink around it never fails.
\<close>

theorem sink_receives_text:
  assumes "log_data_ok d"
  shows "\<exists>x. callback_sink E callback user_data d u = (Ok (), callback x user_data u) \<and>
    map_option from_utf8 (c_message x) = Some (Some (message d)) \<and>
    map_option from_utf8 (c_file x) = Some (Some (file_name d)) \<and>
    map_option from_utf8 (c_tag x) = map_option Some (tag d) \<and>
    map_option from_utf8 (c_function_name x) = map_option Some (function_name d) \<and>
    c_level x = level d \<and> c_line x = line d \<and> c_column x = column d"
  using assms
  by (intro exI [of _ "log_data_to_c E d"])
    (auto simp: callback_sink_def log_data_to_c_def string_ref_def string_ref_opt_def log_data_ok_def
      from_utf8_utf8 split: option.splits)

theorem sink_receives_text_witness:
  "\<exists>x :: log_data_c. callback_sink sample_env (\<lambda>c p n. n + 1) 0 sample_record (4::nat) = (Ok (), 5) \<and>
    map_option from_utf8 (c_message x) = Some (Some (message sample_record))"
proof -
  have "log_data_ok sample_record" by (simp add: log_data_ok_def sample_record_def log_data_new_def scalar_def)
  from sink_receives_text [OF this, of sample_env "\<lambda>c p n. n + 1" 0 "4::nat"] obtain x :: log_data_c where
    "callback_sink sample_env (\<lambda>c p n. n + 1) 0 sample_record (4::nat) = (Ok (), 4 + 1)"
    "map_option from_utf8 (c_message x) = Some (Some (message sample_record))" by blast
  then show ?thesis by (intro exI [of _ x]) simp
qed

text \<open>
  C34: However a C program uses the interface, with any arguments that do not crash it:
  every string the logger holds is a valid string, sinks never fail and there is one log
  thread as soon as there is a logger; and once there is one it stays, with its
  configuration, its queue and sinks only ever growing between the steps of the log thread.
\<close>

theorem ffi_calls_keep_logger:
  assumes io: "show_typed show_io" and r: "reach (fresh_proc n) (ffi_step E show_io) s"
    and st: "(ffi_step E show_io)\<^sup>*\<^sup>* s t"
  shows "proc_typed n t \<and> (\<forall>c. p_logger s = Some c \<longrightarrow> (\<exists>d. p_logger t = Some d \<and>
     config d = config c \<and> prefix (log_queue c) (log_queue d) \<and> prefix (sinks c) (sinks d)))"
proof -
  have "reach (\<lambda>s. show_typed show_io \<and> fresh_proc n s) (ffi_step E show_io) t"
    using reach_weaken [OF reach_steps [OF r st]] io by blast
  from ffi.reach_inv [OF this] have "proc_typed n t" by blast
  then show ?thesis using ffi_steps_later [OF io st] by (simp add: logger_later_def)
qed

theorem ffi_calls_keep_logger_witness:
  "\<exists>t c. ffi_step sample_env sample_show sample_text_proc t \<and> p_logger t = Some c \<and> ctx_typed c \<and>
    w_threads (p_world t) = 2"
proof -
  obtain t where t: "paper2_init_logger_ffi sample_env (Some sample_config_ffi) (fst sample_strings) sample_text_proc = (Ok True, t)"
    using sample_ffi_init by blast
  obtain c where c: "p_logger t = Some c"
    using ffi_init_converts_config [OF sample_text_ok _ sample_path_held sample_dir_config t] by (auto simp: sample_text_proc_def)
  have step: "ffi_step sample_env sample_show sample_text_proc t" by (rule ffi_step.init [OF t])
  have io: "show_typed sample_show" by (simp add: show_typed_def sample_show_def)
  have "reach (fresh_proc 1) (ffi_step sample_env sample_show) sample_text_proc"
    by (rule reach_init) (simp add: fresh_proc_def sample_text_proc_def sample_dir_ok sample_world_def)
  from ffi_calls_keep_logger [OF io this r_into_rtranclp [of "ffi_step sample_env sample_show", OF step]]
  have "proc_typed 1 t" by blast
  with step c show ?thesis by (auto simp: proc_typed_def)
qed

section \<open>The adapters\<close>

text \<open>
  C35: When the log facade is given an enabled record that names its file and whose strings
  have no U+0000, then, with a disk that accepts writes, a positive chunk size and no
  logcat, whatever the program did before and does after, as long as no context is
  registered on the file of the global log (sparing), and the sinks do not call the logger
  themselves, at every later rest of the log thread (unless a wait_for_flush has taken its
  signal) the file at the path of the logger has the record's lines in one piece, with its
  level mapped, its module path as tag and function name, its file and line, and messages
  that are together its text without newlines.
\<close>

theorem facade_record_on_disk:
  assumes start: "proc_ok p0" "p_logger p0 = None" "holds (p_heap p0) path ps"
      "paper2_init_logger_ffi E conf path p0 = (Ok True, p1)" "p_logger p1 = Some c0"
      "x0 = \<lparr>c_proc = p1, c_thr = thr_init, c_pc = LT_Start, c_said = []\<rparr>"
    and env: "safe_env E F (max_string_len (config c0))"
    and before: "(sparing (app_step steals fair E F show_io))\<^sup>*\<^sup>* x0 x" and lock: "\<not> (fair \<and> wants_write (c_pc x))"
    and call: "facade_log now lv r (c_proc x) = (Ok (), p)"
    and r: "facade_enabled lv (l_level r)" "l_file r = Some f" "rust_str f" "0 \<notin> set f" "rust_str (l_args r)"
      "0 \<notin> set (l_args r)" "\<And>m. l_module_path r = Some m \<Longrightarrow> rust_str m \<and> 0 \<notin> set m"
    and later: "(sparing (app_step steals fair E F show_io))\<^sup>*\<^sup>* (c_after x p) y" and rest: "finished (c_own E F show_io) y"
    and awake: "steals \<longrightarrow> \<not> asleep y"
  shows "\<exists>a b logs. read_file E ps (w_fs (p_world (c_proc y))) = Some (a @ full_lines E logs @ b) \<and>
    concat (map message logs) = filter (\<lambda>c. c \<noteq> 10) (l_args r) \<and>
    (\<forall>q\<in>set logs. q = log_data_new (log_map_level (l_level r)) (l_module_path r) (message q) f
       (unwrap_or (l_line r) 0) 0 (l_module_path r) now)"
proof -
  have fit: "path_fit steals E F (max_string_len (config c0)) (c0, p_world p1) ps x"
    by (rule app_paths.steps_inv [OF first_start(1) [OF start(1-6) env] before])
  obtain c where c: "p_logger (c_proc x) = Some c" "inited c" "heap_ok (p_heap (c_proc x))"
    using fit_logger [OF fit] by blast
  obtain h where p: "p = (c_proc x)\<lparr>p_heap := h, p_logger := Some (queue_log (log_data_new (log_map_level (l_level r))
      (l_module_path r) (l_args r) f (unwrap_or (l_line r) 0) 0 (l_module_path r) now) c)\<rparr>"
    using log_facade_queues [OF r(1) c r(2-7), where now = now] call by auto
  from record_at_path [OF fit app_step.facade [OF call lock] c(1) p later rest awake]
  show ?thesis by (simp add: log_data_new_def)
qed

theorem facade_record_on_disk_witness:
  "\<exists>y a b logs. read_file sample_env (lit ''p.log'') (w_fs (p_world (c_proc (y :: unit c_sys)))) = Some (a @ full_lines sample_env logs @ b) \<and>
    concat (map message logs) = lit ''hi''"
proof (rule sample_app)
  let ?r = "\<lparr>l_level = L_Warn, l_module_path = None, l_args = lit ''hi'', l_file = Some (lit ''a.rs''), l_line = Some 9\<rparr>"
  fix p1 c0 and x0 x :: "unit c_sys"
  assume p: "paper2_init_logger_ffi sample_env (Some sample_config_ffi) (fst sample_strings) sample_text_proc = (Ok True, p1)"
      "p_logger p1 = Some c0" "x0 = \<lparr>c_proc = p1, c_thr = thr_init, c_pc = LT_Start, c_said = []\<rparr>"
    and c0: "max_string_len (config c0) = 64" "inited c0" "heap_ok (p_heap p1)"
    and fit: "path_fit False sample_env plain_features 64 (c0, p_world p1) (lit ''p.log'') x0"
  have none: "p_logger sample_text_proc = None" by (simp add: sample_text_proc_def)
  have env: "safe_env sample_env plain_features (max_string_len (config c0))" using sample_safe_64 c0 by simp
  have clean: "facade_enabled 3 (l_level ?r)" "l_file ?r = Some (lit ''a.rs'')" "rust_str (lit ''a.rs'')" "0 \<notin> set (lit ''a.rs'')"
      "rust_str (l_args ?r)" "0 \<notin> set (l_args ?r)" "\<And>m. l_module_path ?r = Some m \<Longrightarrow> rust_str m \<and> 0 \<notin> set m"
    by (simp_all add: facade_enabled_def lit_def scalar_def)
  have x0: "p_logger (c_proc x0) = Some c0" "heap_ok (p_heap (c_proc x0))" "\<not> (True \<and> wants_write (c_pc x0))"
    using p c0 by simp_all
  obtain q where q: "facade_log 0 3 ?r (c_proc x0) = (Ok (), q)"
    using log_facade_queues [OF clean(1) x0(1) c0(2) x0(2) clean(2-7)] by blast
  have fq: "path_fit False sample_env plain_features 64 (c0, p_world p1) (lit ''p.log'') (c_after x0 q)"
    by (rule facade_fit [OF fit q])
  then obtain y where y: "(c_own sample_env plain_features sample_show)\<^sup>*\<^sup>* (c_after x0 q) y"
      "finished (c_own sample_env plain_features sample_show) y"
    using own_runs.comes_to_rest unfolding path_fit_def app_fit_def by blast
  from facade_record_on_disk [OF sample_text_ok none sample_path_held p env rtranclp.rtrancl_refl x0(3) q clean owns_path [OF y(1) fq] y(2)] 
  show ?thesis by (fastforce simp: lit_def)
qed

text \<open>
  C36: A record of the log crate without a file, or with U+0000 in its message or file, is
  dropped without a trace: the call returns and the logger is unchanged.
\<close>

theorem log_facade_drops:
  assumes "cstring_ok (Some (l_args r)) = None \<or> cstring_ok (l_file r) = None"
  shows "\<exists>h. facade_log now mx r s = (Ok (), s\<lparr>p_heap := h\<rparr>)"
  using facade_log_drops [OF assms] .

theorem log_facade_drops_witness:
  "\<exists>h. facade_log 0 3 \<lparr>l_level = L_Error, l_module_path = None, l_args = lit ''lost'', l_file = None, l_line = None\<rparr>
      (sample_proc\<lparr>p_logger := Some sample_ctx\<rparr>) = (Ok (), sample_proc\<lparr>p_logger := Some sample_ctx, p_heap := h\<rparr>)"
  using log_facade_drops [of "\<lparr>l_level = L_Error, l_module_path = None, l_args = lit ''lost'', l_file = None, l_line = None\<rparr>"
      0 3 "sample_proc\<lparr>p_logger := Some sample_ctx\<rparr>"] by (simp add: cstring_ok_def)

text \<open>
  C37: The same for the tracing layer: when an event without U+0000 in its strings reaches
  the layer, whatever the program did before and does after, as long as no context is
  registered on the file of the global log (sparing), and the sinks do not call the logger
  themselves, then at every later rest of the log thread (unless a wait_for_flush has taken
  its signal) the file at the path of the logger has its lines in one piece, with its level
  mapped, its file and line, the target as function name, and messages that are together its
  fields as text, or its target when it has none, without newlines.
\<close>

theorem event_on_disk:
  assumes start: "proc_ok p0" "p_logger p0 = None" "holds (p_heap p0) path ps"
      "paper2_init_logger_ffi E conf path p0 = (Ok True, p1)" "p_logger p1 = Some c0"
      "x0 = \<lparr>c_proc = p1, c_thr = thr_init, c_pc = LT_Start, c_said = []\<rparr>"
    and env: "safe_env E F (max_string_len (config c0))"
    and before: "(sparing (app_step steals fair E F show_io))\<^sup>*\<^sup>* x0 x" and lock: "\<not> (fair \<and> wants_write (c_pc x))"
    and call: "on_event now (cstring_ok tg) e (c_proc x) = (Ok (), p)"
    and e: "\<And>t. tg = Some t \<Longrightarrow> rust_str t \<and> 0 \<notin> set t" "rust_str (e_target e)" "0 \<notin> set (e_target e)"
      "rust_str (event_message e)" "0 \<notin> set (event_message e)"
      "rust_str (unwrap_or (e_file e) [])" "0 \<notin> set (unwrap_or (e_file e) [])"
    and later: "(sparing (app_step steals fair E F show_io))\<^sup>*\<^sup>* (c_after x p) y" and rest: "finished (c_own E F show_io) y"
    and awake: "steals \<longrightarrow> \<not> asleep y"
  shows "\<exists>a b logs. read_file E ps (w_fs (p_world (c_proc y))) = Some (a @ full_lines E logs @ b) \<and>
    concat (map message logs) = filter (\<lambda>c. c \<noteq> 10) (event_message e) \<and>
    (\<forall>q\<in>set logs. q = log_data_new (tracing_map_level (e_level e)) tg (message q) (unwrap_or (e_file e) [])
       (unwrap_or (e_line e) 0) 0 (Some (e_target e)) now)"
proof -
  have fit: "path_fit steals E F (max_string_len (config c0)) (c0, p_world p1) ps x"
    by (rule app_paths.steps_inv [OF first_start(1) [OF start(1-6) env] before])
  obtain c where c: "p_logger (c_proc x) = Some c" "heap_ok (p_heap (c_proc x))"
    using fit_logger [OF fit] by blast
  obtain h where p: "p = (c_proc x)\<lparr>p_heap := h, p_logger := Some (queue_log (log_data_new (tracing_map_level (e_level e))
      tg (event_message e) (unwrap_or (e_file e) []) (unwrap_or (e_line e) 0) 0 (Some (e_target e)) now) c)\<rparr>"
    using on_event_spec [where tg = tg and e = e and now = now, OF c e] call by auto
  from record_at_path [OF fit app_step.event [OF call lock] c(1) p later rest awake]
  show ?thesis by (simp add: log_data_new_def)
qed

theorem event_on_disk_witness:
  "\<exists>y a b logs. read_file sample_env (lit ''p.log'') (w_fs (p_world (c_proc (y :: unit c_sys)))) = Some (a @ full_lines sample_env logs @ b) \<and>
    concat (map message logs) = lit ''message=hi n=true''"
proof (rule sample_app)
  let ?e = "\<lparr>e_level = T_TRACE, e_target = lit ''mod'', e_file = None, e_line = Some 4,
      e_fields = [(lit ''message'', F_Debug (lit ''hi'')), (lit ''n'', F_bool True)]\<rparr>"
  fix p1 c0 and x0 x :: "unit c_sys"
  assume p: "paper2_init_logger_ffi sample_env (Some sample_config_ffi) (fst sample_strings) sample_text_proc = (Ok True, p1)"
      "p_logger p1 = Some c0" "x0 = \<lparr>c_proc = p1, c_thr = thr_init, c_pc = LT_Start, c_said = []\<rparr>"
    and c0: "max_string_len (config c0) = 64" "inited c0" "heap_ok (p_heap p1)"
    and fit: "path_fit False sample_env plain_features 64 (c0, p_world p1) (lit ''p.log'') x0"
  have none: "p_logger sample_text_proc = None" by (simp add: sample_text_proc_def)
  have env: "safe_env sample_env plain_features (max_string_len (config c0))" using sample_safe_64 c0 by simp
  have m: "event_message ?e = lit ''message=hi n=true''"
    by (simp add: event_message_def visit_event_Cons lit_def)
  have clean: "\<And>t. None = Some t \<Longrightarrow> rust_str t \<and> 0 \<notin> set t" "rust_str (e_target ?e)" "0 \<notin> set (e_target ?e)"
      "rust_str (event_message ?e)" "0 \<notin> set (event_message ?e)"
      "rust_str (unwrap_or (e_file ?e) [])" "0 \<notin> set (unwrap_or (e_file ?e) [])"
    unfolding m by (simp_all add: lit_def scalar_def)
  have x0: "p_logger (c_proc x0) = Some c0" "heap_ok (p_heap (c_proc x0))" "\<not> (True \<and> wants_write (c_pc x0))"
    using p c0 by simp_all
  obtain q where q: "on_event 0 (cstring_ok None) ?e (c_proc x0) = (Ok (), q)"
    using on_event_spec [where tg = None and e = ?e and now = 0, OF x0(1,2) clean] by blast
  have fq: "path_fit False sample_env plain_features 64 (c0, p_world p1) (lit ''p.log'') (c_after x0 q)"
    by (rule event_fit [OF fit q])
  then obtain y where y: "(c_own sample_env plain_features sample_show)\<^sup>*\<^sup>* (c_after x0 q) y"
      "finished (c_own sample_env plain_features sample_show) y"
    using own_runs.comes_to_rest unfolding path_fit_def app_fit_def by blast
  from event_on_disk [OF sample_text_ok none sample_path_held p env rtranclp.rtrancl_refl x0(3) q clean owns_path [OF y(1) fq] y(2)] show ?thesis unfolding m by (fastforce simp: lit_def)
qed

text \<open>
  C38: The test install_and_log of the repository, run on the model with a disk that accepts
  writes, however the log thread runs in between: a poll that finds the thread at rest sees
  the message in the file exactly when the maximum level of the log crate, after the attempt
  to install the facade, admits Info. So the test passes after a successful installation,
  but not when another logger is installed with a lower level, or when the level is still
  off, although its comment says it does not depend on the installation.
\<close>

theorem smoke_test_outcome:
  assumes start: "proc_ok p0" "p_logger p0 = None" "rust_str temp_dir" "0 \<notin> set temp_dir"
      "smoke_init E temp_dir pid p0 = (Ok path, p1)"
      "x0 = \<lparr>c_proc = p1, c_thr = thr_init, c_pc = LT_Start, c_said = []\<rparr>"
    and env: "safe_env E F 1024" "dates_ok E"
    and before: "(c_own E F show_io)\<^sup>*\<^sup>* x0 x" and lock: "\<not> (fair \<and> wants_write (c_pc x))"
    and log: "smoke_log now set_boxed set_max max_level l (c_proc x) = (Ok (), p)"
    and later: "(c_own E F show_io)\<^sup>*\<^sup>* (c_after x p) y" and rest: "finished (c_own E F show_io) y"
  shows "smoke_poll E path (c_proc y) \<longleftrightarrow> l_rank L_Info \<le> smoke_level set_boxed set_max max_level l"
proof (rule smoke_init_starts [OF start(1-5) env(1) start(6), where steals = False])
  fix s0 assume s0: "path_fit False E F 1024 s0 path x0" "global_stream s0 = []"
  have fit: "path_fit False E F 1024 s0 path x" by (rule app_paths.steps_inv [OF s0(1) owns_path [OF before s0(1)]])
  obtain c where c: "p_logger (c_proc x) = Some c" "inited c" "heap_ok (p_heap (c_proc x))"
    using fit_logger [OF fit] by blast
  let ?b = "3 \<le> smoke_level set_boxed set_max max_level l"
  have said: "c_said (c_after x p) = (if ?b then [smoke_data now] else [])"
  proof (cases ?b)
    case True
    obtain h where "p = (c_proc x)\<lparr>p_heap := h, p_logger := Some (queue_log (smoke_data now) c)\<rparr>"
      using smoke_log_queues [OF c log True] by blast
    from after_queue_log [OF c(1) this] show ?thesis using True own_said [OF before] start(6) by simp
  next
    case False
    then have "p = c_proc x" using smoke_log_filtered [of set_boxed set_max max_level l now "c_proc x"] log by simp
    then show ?thesis using False own_said [OF before] start(6) by (simp add: c_after_def)
  qed
  have fp: "path_fit False E F 1024 s0 path (c_after x p)" by (rule facade_fit [OF fit log [unfolded smoke_log_def]])
  have "path_fit False E F 1024 s0 path y" by (rule app_paths.steps_inv [OF fp owns_path [OF later fp]])
  from smoke_rest [OF this s0(2) env(2) rest] own_said [OF later] said
  show ?thesis by simp
qed

theorem smoke_test_outcome_witness:
  "\<exists>path (y :: unit c_sys). smoke_poll sample_env path (c_proc y)"
proof -
  obtain path p1 where i: "smoke_init sample_env (lit ''/tmp'') 7 sample_proc = (Ok path, p1)"
    using sample_smoke by blast
  let ?x0 = "\<lparr>c_proc = p1, c_thr = thr_init, c_pc = LT_Start, c_said = []\<rparr>"
  have none: "p_logger sample_proc = None" by (simp add: sample_proc_def)
  have dir: "rust_str (lit ''/tmp'')" "0 \<notin> set (lit ''/tmp'')" by (simp_all add: lit_def scalar_def)
  have d: "dates_ok sample_env" by (simp add: dates_ok_def sample_env_def scalar_def)
  let ?set = "\<lambda>u. (Ok () :: (unit, unit) res, u)"
  have lv: "smoke_level ?set (\<lambda>k u. k) id 0 = 3"
    by (simp add: smoke_level_def init_with_max_level_def seq_act_def bind_act_def)
  obtain s0 where fit: "path_fit False sample_env plain_features 1024 s0 path ?x0"
    using smoke_init_starts [OF sample_proc_ok none dir i sample_safe refl] by blast
  obtain c where c: "p_logger p1 = Some c" "inited c" "heap_ok (p_heap p1)"
    using fit_logger [OF fit] by auto
  let ?r = smoke_record
  have en: "facade_enabled 3 (l_level ?r)" by (simp add: facade_enabled_def smoke_record_def)
  have "\<exists>h. facade_log 0 3 ?r p1 = (Ok (), p1\<lparr>p_heap := h, p_logger := Some (queue_log (log_data_new
      (log_map_level (l_level ?r)) (l_module_path ?r) (l_args ?r) (lit ''test.rs'') (unwrap_or (l_line ?r) 0) 0 (l_module_path ?r) 0) c)\<rparr>)"
    by (rule log_facade_queues [OF en c]) (auto simp: smoke_record_def smoke_message_def, simp_all add: lit_def)
  then obtain p where p: "smoke_log 0 ?set (\<lambda>k u. k) id 0 (c_proc ?x0) = (Ok (), p)"
    by (auto simp: smoke_log_def lv)
  have "path_fit False sample_env plain_features 1024 s0 path (c_after ?x0 p)"
    by (rule facade_fit [OF fit]) (use p in \<open>simp add: smoke_log_def\<close>)
  then obtain y where y: "(c_own sample_env plain_features sample_show)\<^sup>*\<^sup>* (c_after ?x0 p) y"
      "finished (c_own sample_env plain_features sample_show) y"
    using own_runs.comes_to_rest unfolding path_fit_def app_fit_def by blast
  from smoke_test_outcome [OF sample_proc_ok none dir i refl sample_safe d rtranclp.rtrancl_refl _ p y, of True] lv
  show ?thesis by auto
qed

text \<open>
  C39: In the mod that scotland2 starts, the context tag Paperlog has the path of the global
  file: registering it at any later time truncates the global file and gives it a second
  writer, and the next flush of the global file leaves zero bytes where the records were.
\<close>

theorem mod_tag_takes_global_file:
  assumes start: "p_logger s = None" "holds (p_heap s) app i" "proc_ok s"
      "dlopen_initialize E android show_io app s = (Ok (), t)" "p_logger t = Some c0"
    and later: "config c = config c0" "w_ino (global_file c) = w_ino (global_file c0)"
      "names (w_fs (p_world t)) \<subseteq>\<^sub>m names (w_fs w)" "context_map c (lit ''Paperlog'') = None"
    and create: "creates E (context_path c (lit ''Paperlog'')) (w_fs w)"
    and run: "add_context E (lit ''Paperlog'') (c, w) = (r, (c', w'))"
  shows "context_path c (lit ''Paperlog'') = path_join (mod_log_path i) (lit ''Paperlog.log'') \<and>
    r = Ok () \<and> global_disk (c', w') = [] \<and> \<not> ctx_ok (c', w') \<and>
    (\<exists>b. context_map c' (lit ''Paperlog'') = Some b \<and> w_ino b = w_ino (global_file c')) \<and>
    (reliable E \<longrightarrow> bw_buf (global_file c) \<noteq> [] \<longrightarrow>
      global_disk (snd (on_global (bw_flush E) (c', w'))) =
        replicate (f_pos (bw_file (global_file c))) 0 @ bw_buf (global_file c))"
proof -
  have cfg: "context_log_path (config c) = mod_log_path i"
    using dlopen_logger [OF start(3,1,2,4)] start(5) later(1) by auto
  note p = mod_tag_path [OF cfg]
  note dn = dlopen_name [OF start(1,2,4,5)]
  have n: "names (w_fs w) (os_resolve E (context_path c (lit ''Paperlog''))) = Some (w_ino (global_file c))"
    using later(3) dn unfolding p later(2) map_le_def by (metis domI)
  note t = takes_global_file [OF n create later(4) run]
  have "global_disk (snd (on_global (bw_flush E) (c', w'))) =
      replicate (f_pos (bw_file (global_file c))) 0 @ bw_buf (global_file c)"
    if rel: "reliable E" and buf: "bw_buf (global_file c) \<noteq> []"
  proof -
    have g: "global_disk (c', w') = []" "global_file c' = global_file c" using t by blast+
    have b: "bw_buf (global_file c') \<noteq> []" using buf g(2) by simp
    from truncated_flush [OF rel g(1) b prod.collapse [symmetric]] show ?thesis by (simp add: g(2))
  qed
  with t p show ?thesis by blast
qed

theorem mod_tag_takes_global_file_witness:
  "\<exists>c w r c' w'. context_log_path (config c) = mod_log_path (lit ''dir'') \<and>
    bw_buf (global_file c) = [72] \<and> add_context sample_env (lit ''Paperlog'') (c, w :: unit world) = (r, (c', w')) \<and>
    \<not> ctx_ok (c', w')"
proof -
  obtain t c0 where t: "dlopen_initialize sample_env False sample_show (fst sample_dir) sample_text_proc = (Ok (), t)"
      "p_logger t = Some c0" "config c0 = default_config\<lparr>context_log_path := mod_log_path (lit ''dir'')\<rparr>"
      "context_map c0 = Map.empty"
    using sample_dlopen by blast
  let ?c = "c0\<lparr>global_file := (global_file c0)\<lparr>bw_buf := [72]\<rparr>\<rparr>"
  obtain r c' w' where a: "add_context sample_env (lit ''Paperlog'') (?c, p_world t) = (r, (c', w'))"
    by (metis prod_cases3)
  have none: "p_logger sample_text_proc = None" by (simp add: sample_text_proc_def)
  have cr: "creates sample_env p f" for p f by (simp add: creates_def sample_env_def)
  have c: "config ?c = config c0" "w_ino (global_file ?c) = w_ino (global_file c0)"
      "context_map ?c (lit ''Paperlog'') = None"
    using t(4) by (simp_all add: w_ino_def)
  have "\<not> ctx_ok (c', w')"
    using mod_tag_takes_global_file [OF none sample_dir_held sample_text_ok t(1,2) c(1,2) map_le_refl c(3) cr a]
    by blast
  moreover have "context_log_path (config ?c) = mod_log_path (lit ''dir'')" by (simp add: t(3))
  moreover have "bw_buf (global_file ?c) = [72]" by simp
  ultimately show ?thesis using a by blast
qed

section \<open>The log pipeline\<close>

text \<open>
  C40: Without callers of wait_for_flush, whatever else clients do (log, register any tags,
  also on files in use, unregister, add sinks) and however the disk and the sinks behave: a
  log thread that waits while records are queued has a signal pending, or a client that has
  pushed its record is about to give one. (flush_wait_steals_wakeup shows that callers of
  wait_for_flush break this.)
\<close>

theorem registry_no_lost_wakeup:
  assumes r: "reach (live_started s0 mx) (live_step fair False oks regs E F show_io) s"
    and w: "lpc (core s) = LT_Blocked v" "log_queue (fst (sst (core s))) \<noteq> []"
  shows "log_sem (fst (sst (core s))) \<or> (\<exists>i. clients (core s) i = C_Signal)"
  using awakes.reach_inv [OF r] w by (simp add: wake_inv_def)

theorem registry_no_lost_wakeup_witness:
  "\<exists>s v. reach (live_started sample_st 1024)
      (live_step True False (\<lambda>_. False) (\<lambda>_ _. True) sample_env plain_features sample_show) s \<and>
    lpc (core s) = LT_Blocked v \<and> log_queue (fst (sst (core s))) = [sample_record] \<and>
    (log_sem (fst (sst (core s))) \<or> (\<exists>i. clients (core s) i = C_Signal))"
proof -
  let ?st = "sys_step True False sample_env plain_features sample_show"
  obtain q where q: "?st\<^sup>*\<^sup>* sample_sys q" "quiet q"
    using reaches_quiet [OF sample_safe sample_sinks(1) sample_is_started] by metis
  then obtain v where v: "lpc q = LT_Blocked v" by (auto simp: quiet_def)
  let ?t = "queued_one 0 sample_record q"
  have "?st\<^sup>*\<^sup>* q ?t"
    by (rule queue_one_steps) (use q v in \<open>simp_all add: quiet_def may_read_def\<close>)
  with q(1) have steps: "?st\<^sup>*\<^sup>* sample_sys ?t" by (rule rtranclp_trans)
  let ?s = "sample_live\<lparr>core := ?t\<rparr>"
  have r: "reach (live_started sample_st 1024)
      (live_step True False (\<lambda>_. False) (\<lambda>_ _. True) sample_env plain_features sample_show) ?s"
    by (rule reach_steps [OF sample_live_reach sample_live_steps [OF steps]])
  have t: "lpc (core ?s) = LT_Blocked v" "log_queue (fst (sst (core ?s))) = [sample_record]"
    using v q(2) by (simp_all add: queued_one_def queue_log_fields quiet_def)
  have "log_sem (fst (sst (core ?s))) \<or> (\<exists>i. clients (core ?s) i = C_Signal)"
    by (rule registry_no_lost_wakeup [OF r t(1)]) (use t(2) in simp)
  with r t show ?thesis by blast
qed

end
